(* ===== verification/Go_Prelude.thy ===== *)
theory Go_Prelude
  imports Main "HOL-Library.Word" "HOL-Library.List_Lexorder" "HOL-Library.Char_ord"
    "HOL-Library.Multiset" "HOL-Library.Sublist"
begin

text \<open>
  The shared prelude of the development: how Go values, error returns, panics and the parts of
  Go's standard library that several components call are represented, and the generic lemmas the
  component theories rest on.

  \<^item> A Go \<open>[]byte\<close> is a list of 8-bit words, a Go \<open>string\<close> is the list of its bytes
    (\<open>string\<close>), an unsigned integer of width \<open>w\<close> is a \<open>w word\<close> where its width matters.
  \<^item> A function that returns \<open>(T, error)\<close> or that may panic returns a sum, with \<open>Inl\<close> for
    the error; \<open>rbind\<close> is the sequence "call, return the error if there is one, go on".
  \<^item> \<open>at\<close> and \<open>slice\<close> are the index and slice expressions: both fail out of range, as the
    run-time checks of Go do, so that "no panic" is a theorem about the code that uses them.
  \<^item> \<open>strings.Cut\<close>, \<open>Split\<close>, \<open>Join\<close>, \<open>ToLower\<close>, \<open>strconv.Itoa\<close>,
    \<open>hex.EncodeToString\<close>, \<open>hex.DecodeString\<close> and \<open>binary.BigEndian\<close> are executable functions.
\<close>

unbundle bit_operations_syntax

named_theorems res_simps \<open>reasoning about error results\<close>
named_theorems wire_simps \<open>word and byte-string arithmetic\<close>

type_synonym byte = "8 word"
type_synonym bytes = "byte list"

section \<open>Error results\<close>

definition rbind :: "'e + 'a \<Rightarrow> ('a \<Rightarrow> 'e + 'b) \<Rightarrow> 'e + 'b" where
  "rbind m f = (case m of Inl e \<Rightarrow> Inl e | Inr a \<Rightarrow> f a)"

lemma rbind_Inl [simp]: "rbind (Inl e) f = Inl e"
  by (simp add: rbind_def)

lemma rbind_Inr [simp]: "rbind (Inr a) f = f a"
  by (simp add: rbind_def)

lemma rbind_eq_Inr [res_simps]: "rbind m f = Inr b \<longleftrightarrow> (\<exists>a. m = Inr a \<and> f a = Inr b)"
  by (cases m) auto

lemma rbind_eq_Inl [res_simps]:
  "rbind m f = Inl e \<longleftrightarrow> m = Inl e \<or> (\<exists>a. m = Inr a \<and> f a = Inl e)"
  by (cases m) auto

lemma rbind_cong [fundef_cong]:
  "m = m' \<Longrightarrow> (\<And>a. m' = Inr a \<Longrightarrow> f a = g a) \<Longrightarrow> rbind m f = rbind m' g"
  by (cases m') auto

lemma rbind_assoc: "rbind (rbind m f) g = rbind m (\<lambda>a. rbind (f a) g)"
  by (cases m) auto

text \<open>A panic of Go: an index or a slice bound out of range, or a documented panic of a library.\<close>

datatype panic = IndexOutOfRange | SliceOutOfRange | LibraryPanic string

definition at :: "(panic \<Rightarrow> 'e) \<Rightarrow> 'a list \<Rightarrow> nat \<Rightarrow> 'e + 'a" where
  "at p xs i = (if i < length xs then Inr (xs ! i) else Inl (p IndexOutOfRange))"

definition slice :: "(panic \<Rightarrow> 'e) \<Rightarrow> 'a list \<Rightarrow> nat \<Rightarrow> nat \<Rightarrow> 'e + 'a list" where
  "slice p xs a b =
     (if a \<le> b \<and> b \<le> length xs then Inr (take (b - a) (drop a xs)) else Inl (p SliceOutOfRange))"

lemma at_Inr [simp]: "i < length xs \<Longrightarrow> at p xs i = Inr (xs ! i)"
  by (simp add: at_def)

lemma slice_Inr [simp]:
  "a \<le> b \<Longrightarrow> b \<le> length xs \<Longrightarrow> slice p xs a b = Inr (take (b - a) (drop a xs))"
  by (simp add: slice_def)

lemma at_eq_Inr [res_simps]: "at p xs i = Inr x \<longleftrightarrow> i < length xs \<and> x = xs ! i"
  by (auto simp: at_def)

lemma slice_eq_Inr [res_simps]:
  "slice p xs a b = Inr ys \<longleftrightarrow> a \<le> b \<and> b \<le> length xs \<and> ys = take (b - a) (drop a xs)"
  by (auto simp: slice_def)

lemma at_code [code]:
  "at p xs i = (case drop i xs of [] \<Rightarrow> Inl (p IndexOutOfRange) | x # _ \<Rightarrow> Inr x)"
proof (cases "i < length xs")
  case True
  then show ?thesis by (simp add: at_def Cons_nth_drop_Suc [symmetric])
next
  case False
  then show ?thesis by (simp add: at_def)
qed

section \<open>Big-endian integers\<close>

text \<open>\<open>binary.BigEndian.Uint16\<close>, \<open>Uint32\<close> and \<open>Uint64\<close> of a byte string, most significant byte first.\<close>

definition be_nat :: "bytes \<Rightarrow> nat" where
  "be_nat bs = foldl (\<lambda>v b. v * 256 + unat b) 0 bs"

definition be_word :: "bytes \<Rightarrow> 'a::len word" where
  "be_word bs = word_of_nat (be_nat bs)"

text \<open>\<open>binary.BigEndian.AppendUint16\<close> and its relatives: the \<open>n\<close> low bytes of a value.\<close>

fun be_bytes :: "nat \<Rightarrow> nat \<Rightarrow> bytes" where
  "be_bytes 0 v = []"
| "be_bytes (Suc n) v = be_bytes n (v div 256) @ [word_of_nat v]"

lemma be_bytes_numeral [wire_simps]:
  "be_bytes (numeral k) v = be_bytes (pred_numeral k) (v div 256) @ [word_of_nat v]"
  unfolding numeral_eq_Suc [of k] by (rule be_bytes.simps(2))

lemma be_nat_Nil [simp]: "be_nat [] = 0"
  by (simp add: be_nat_def)

lemma be_nat_snoc [simp]: "be_nat (bs @ [b]) = be_nat bs * 256 + unat b"
  by (simp add: be_nat_def)

lemma foldl_be_acc:
  "foldl (\<lambda>v b. v * 256 + unat (b :: byte)) a bs = a * 256 ^ length bs + be_nat bs"
proof (induction bs rule: rev_induct)
  case (snoc b bs)
  then show ?case by (simp add: algebra_simps)
qed simp

lemma be_nat_Cons: "be_nat (b # bs) = unat b * 256 ^ length bs + be_nat bs"
  using foldl_be_acc [of "unat b" bs] by (simp add: be_nat_def)

lemma unat_byte_less [simp]: "unat (b :: byte) < 256"
  using unsigned_less [of b] by simp

lemma be_nat_less: "be_nat bs < 256 ^ length bs"
proof (induction bs rule: rev_induct)
  case (snoc b bs)
  have "be_nat bs * 256 + unat b < Suc (be_nat bs) * 256"
    using unat_byte_less [of b] by simp
  also have "\<dots> \<le> 256 ^ length bs * 256"
    using snoc by (intro mult_le_mono1) simp
  finally show ?case by (simp add: mult.commute)
qed simp

lemma length_be_bytes [simp]: "length (be_bytes n v) = n"
  by (induction n arbitrary: v) auto

lemma be_nat_be_bytes: "be_nat (be_bytes n v) = v mod 256 ^ n"
proof (induction n arbitrary: v)
  case (Suc n)
  have "be_nat (be_bytes (Suc n) v) = (v div 256) mod 256 ^ n * 256 + v mod 256"
    using Suc by (simp add: unat_of_nat)
  also have "\<dots> = v mod (256 * 256 ^ n)"
    by (simp add: mod_mult2_eq mult.commute)
  finally show ?case by simp
qed simp

lemma unat_be_word:
  assumes "256 ^ length bs \<le> (2 :: nat) ^ LENGTH('a::len)"
  shows "unat (be_word bs :: 'a word) = be_nat bs"
  using be_nat_less [of bs] assms by (simp add: be_word_def unat_of_nat)

lemma be_word_be_bytes:
  assumes "v < 256 ^ n"
  shows "be_word (be_bytes n v) = (word_of_nat v :: 'a::len word)"
  using assms by (simp add: be_word_def be_nat_be_bytes)

section \<open>Strings\<close>

definition bytes_to_string :: "bytes \<Rightarrow> string" where
  "bytes_to_string bs = map (\<lambda>b. char_of (unat b)) bs"

definition string_to_bytes :: "string \<Rightarrow> bytes" where
  "string_to_bytes s = map (\<lambda>c. word_of_nat (of_char c)) s"

lemma length_bytes_to_string [simp]: "length (bytes_to_string bs) = length bs"
  by (simp add: bytes_to_string_def)

lemma bytes_to_string_to_bytes [simp]: "bytes_to_string (string_to_bytes s) = s"
proof -
  have "unat (word_of_nat (of_char c) :: byte) = of_char c" for c :: char
    using nat_of_char_less_256 [of c] by (simp add: unat_of_nat)
  then show ?thesis
    by (induction s) (simp_all add: bytes_to_string_def string_to_bytes_def)
qed

definition to_lower_char :: "char \<Rightarrow> char" where
  "to_lower_char c =
     (let n = of_char c :: nat in if 65 \<le> n \<and> n \<le> 90 then char_of (n + 32) else c)"

definition to_upper_char :: "char \<Rightarrow> char" where
  "to_upper_char c =
     (let n = of_char c :: nat in if 97 \<le> n \<and> n \<le> 122 then char_of (n - 32) else c)"

text \<open>\<open>strings.ToLower\<close> on the ASCII range; the bytes above it are left alone.\<close>

definition strings_ToLower :: "string \<Rightarrow> string" where
  "strings_ToLower s = map to_lower_char s"

lemma to_lower_char_idem [simp]: "to_lower_char (to_lower_char c) = to_lower_char c"
  by (simp add: to_lower_char_def Let_def)

lemma strings_ToLower_idem [simp]: "strings_ToLower (strings_ToLower s) = strings_ToLower s"
  by (simp add: strings_ToLower_def)

subsection \<open>Cut, split and join\<close>

text \<open>
  \<open>strings.Cut\<close> and \<open>bytes.Cut\<close>: the text before and after the first occurrence of the
  separator, \<open>None\<close> when there is none.
\<close>

fun strings_Cut :: "'a list \<Rightarrow> 'a list \<Rightarrow> ('a list \<times> 'a list) option" where
  "strings_Cut sep [] = (if sep = [] then Some ([], []) else None)"
| "strings_Cut sep (c # s) =
     (if take (length sep) (c # s) = sep then Some ([], drop (length sep) (c # s))
      else map_option (\<lambda>(a, b). (c # a, b)) (strings_Cut sep s))"

lemma strings_Cut_Some:
  "strings_Cut sep s = Some (a, b) \<Longrightarrow> s = a @ sep @ b"
proof (induction sep s arbitrary: a b rule: strings_Cut.induct)
  case (2 sep c s)
  show ?case
  proof (cases "take (length sep) (c # s) = sep")
    case True
    with "2.prems" show ?thesis by simp (metis append_take_drop_id)
  next
    case False
    with "2.prems" obtain a' where "strings_Cut sep s = Some (a', b)" "a = c # a'"
      by auto
    with "2.IH" False show ?thesis by simp
  qed
qed (auto split: if_splits)

lemma strings_Cut_shorter:
  assumes "sep \<noteq> []" and "strings_Cut sep s = Some (a, b)"
  shows "length b < length s"
  using strings_Cut_Some [OF assms(2)] assms(1) by auto

lemma strings_Cut_append:
  assumes "sep = x # xs" and "x \<notin> set a"
  shows "strings_Cut sep (a @ sep @ b) = Some (a, b)"
  using assms(2)
proof (induction a)
  case Nil
  then show ?case using assms(1) by simp
next
  case (Cons c a)
  then have "take (length sep) (c # a @ sep @ b) \<noteq> sep"
    using assms(1) by auto
  with Cons show ?case by simp
qed

lemma strings_Cut_None:
  assumes "sep = x # xs" and "x \<notin> set a"
  shows "strings_Cut sep a = None"
  using assms(2) by (induction a) (auto simp: assms(1))

text \<open>\<open>strings.Split\<close>; an empty separator splits into the single characters.\<close>

function strings_Split :: "'a list \<Rightarrow> 'a list \<Rightarrow> 'a list list" where
  "strings_Split sep s =
     (if sep = [] then map (\<lambda>c. [c]) s
      else case strings_Cut sep s of None \<Rightarrow> [s] | Some (a, b) \<Rightarrow> a # strings_Split sep b)"
  by pat_completeness auto
termination
  by (relation "measure (\<lambda>(sep, s). length s)") (auto dest: strings_Cut_shorter)

declare strings_Split.simps [simp del]

fun strings_Join :: "'a list \<Rightarrow> 'a list list \<Rightarrow> 'a list" where
  "strings_Join sep [] = []"
| "strings_Join sep [s] = s"
| "strings_Join sep (s # t # ss) = s @ sep @ strings_Join sep (t # ss)"

lemma strings_Split_Join:
  assumes "sep = x # xs" and "ss \<noteq> []" and "\<forall>s\<in>set ss. x \<notin> set s"
  shows "strings_Split sep (strings_Join sep ss) = ss"
  using assms(2,3)
proof (induction ss rule: induct_list012)
  case (2 s)
  then show ?case using assms(1)
    by (subst strings_Split.simps) (simp add: strings_Cut_None)
next
  case (3 s t ss)
  have "strings_Cut sep (s @ sep @ strings_Join sep (t # ss)) = Some (s, strings_Join sep (t # ss))"
    using "3.prems" by (intro strings_Cut_append [OF assms(1)]) simp
  with "3" assms(1) show ?case
    by (subst strings_Split.simps) simp
qed simp

text \<open>Joining is injective on lists of pieces that do not contain the separator's first character.\<close>

lemma strings_Join_inject:
  assumes "sep = x # xs" and "\<forall>s\<in>set ss. x \<notin> set s \<and> s \<noteq> []" and "\<forall>s\<in>set ts. x \<notin> set s \<and> s \<noteq> []"
    and "strings_Join sep ss = strings_Join sep ts"
  shows "ss = ts"
proof -
  have empty: "us = []" if "\<forall>s\<in>set us. x \<notin> set s \<and> s \<noteq> []" "strings_Join sep us = []" for us
    using that by (induction us rule: induct_list012) auto
  show ?thesis
  proof (cases "ss = [] \<or> ts = []")
    case True
    then have e: "strings_Join sep ss = []" "strings_Join sep ts = []"
      using assms(4) by (elim disjE; simp)+
    show ?thesis using empty [OF assms(2) e(1)] empty [OF assms(3) e(2)] by simp
  next
    case False
    have "strings_Split sep (strings_Join sep ss) = ss"
      using False assms(2) by (intro strings_Split_Join [OF assms(1)]) simp_all
    moreover have "strings_Split sep (strings_Join sep ts) = ts"
      using False assms(3) by (intro strings_Split_Join [OF assms(1)]) simp_all
    ultimately show ?thesis using assms(4) by metis
  qed
qed

lemma set_strings_Join_subset: "set (strings_Join sep ss) \<subseteq> set sep \<union> (\<Union>s\<in>set ss. set s)"
  by (induction sep ss rule: strings_Join.induct) auto

definition strings_HasPrefix :: "'a list \<Rightarrow> 'a list \<Rightarrow> bool" where
  "strings_HasPrefix s p = (take (length p) s = p)"

definition strings_Contains :: "'a list \<Rightarrow> 'a list \<Rightarrow> bool" where
  "strings_Contains s sub = (strings_Cut sub s \<noteq> None)"

subsection \<open>Decimal and hexadecimal\<close>

definition digit_char :: "nat \<Rightarrow> char" where
  "digit_char d = char_of (48 + d)"

fun strconv_Itoa :: "nat \<Rightarrow> string" where
  "strconv_Itoa n =
     (if n < 10 then [digit_char n] else strconv_Itoa (n div 10) @ [digit_char (n mod 10)])"

declare strconv_Itoa.simps [simp del]

lemma digit_char_inject: "a < 10 \<Longrightarrow> b < 10 \<Longrightarrow> digit_char a = digit_char b \<longleftrightarrow> a = b"
proof
  assume "a < 10" "b < 10" "digit_char a = digit_char b"
  then have "(of_char (char_of (48 + a)) :: nat) = of_char (char_of (48 + b))"
    by (simp add: digit_char_def)
  with \<open>a < 10\<close> \<open>b < 10\<close> show "a = b" by (simp add: of_char_of)
qed simp

lemma strconv_Itoa_nonempty [simp]: "strconv_Itoa n \<noteq> []"
  by (subst strconv_Itoa.simps) simp

lemma strconv_Itoa_inject: "strconv_Itoa m = strconv_Itoa n \<longleftrightarrow> m = n"
proof
  assume "strconv_Itoa m = strconv_Itoa n"
  then show "m = n"
  proof (induction m arbitrary: n rule: strconv_Itoa.induct)
    case (1 m)
    show ?case
    proof (cases "m < 10")
      case True
      show ?thesis
      proof (cases "n < 10")
        case True
        with \<open>m < 10\<close> "1.prems" show ?thesis
          by (simp add: strconv_Itoa.simps [of m] strconv_Itoa.simps [of n] digit_char_inject)
      next
        case False
        with \<open>m < 10\<close> "1.prems" have "[] = strconv_Itoa (n div 10)"
          by (simp add: strconv_Itoa.simps [of m] strconv_Itoa.simps [of n])
        then show ?thesis using strconv_Itoa_nonempty [of "n div 10"] by metis
      qed
    next
      case m: False
      show ?thesis
      proof (cases "n < 10")
        case True
        with m "1.prems" show ?thesis
          by (simp add: strconv_Itoa.simps [of m] strconv_Itoa.simps [of n])
      next
        case False
        with m "1.prems" have "strconv_Itoa (m div 10) = strconv_Itoa (n div 10)"
          and "m mod 10 = n mod 10"
          by (simp_all add: strconv_Itoa.simps [of m] strconv_Itoa.simps [of n] digit_char_inject)
        with "1.IH" m have "m div 10 = n div 10" by blast
        with \<open>m mod 10 = n mod 10\<close> show ?thesis by (metis div_mult_mod_eq)
      qed
    qed
  qed
qed simp

lemma digit_char_range: "d < 10 \<Longrightarrow> (of_char (digit_char d) :: nat) = 48 + d"
  by (simp add: digit_char_def of_char_of)

lemma strconv_Itoa_digits:
  "c \<in> set (strconv_Itoa n) \<Longrightarrow> 48 \<le> (of_char c :: nat) \<and> (of_char c :: nat) \<le> 57"
proof (induction n rule: strconv_Itoa.induct)
  case (1 n)
  show ?case
  proof (cases "n < 10")
    case True
    with "1.prems" show ?thesis by (simp add: strconv_Itoa.simps [of n] digit_char_range)
  next
    case False
    with "1.prems" have "c \<in> set (strconv_Itoa (n div 10)) \<or> c = digit_char (n mod 10)"
      by (auto simp: strconv_Itoa.simps [of n])
    with "1.IH" False show ?thesis
      by (auto simp: digit_char_range dest: mod_less_divisor [of 10 n])
  qed
qed

definition hex_char :: "nat \<Rightarrow> char" where
  "hex_char d = (if d < 10 then char_of (48 + d) else char_of (87 + d))"

definition hex_EncodeToString :: "bytes \<Rightarrow> string" where
  "hex_EncodeToString bs =
     concat (map (\<lambda>b. [hex_char (unat b div 16), hex_char (unat b mod 16)]) bs)"

definition from_hex_char :: "char \<Rightarrow> nat option" where
  "from_hex_char c =
     (let n = of_char c :: nat in
      if 48 \<le> n \<and> n \<le> 57 then Some (n - 48)
      else if 97 \<le> n \<and> n \<le> 102 then Some (n - 87)
      else if 65 \<le> n \<and> n \<le> 70 then Some (n - 55)
      else None)"

fun hex_DecodeString :: "string \<Rightarrow> bytes option" where
  "hex_DecodeString [] = Some []"
| "hex_DecodeString [c] = None"
| "hex_DecodeString (c # d # s) =
     (case (from_hex_char c, from_hex_char d) of
        (Some h, Some l) \<Rightarrow> map_option (\<lambda>bs. word_of_nat (h * 16 + l) # bs) (hex_DecodeString s)
      | _ \<Rightarrow> None)"

lemma from_hex_char_hex_char: "d < 16 \<Longrightarrow> from_hex_char (hex_char d) = Some d"
  by (auto simp: from_hex_char_def hex_char_def Let_def)

lemma hex_Decode_Encode: "hex_DecodeString (hex_EncodeToString bs) = Some bs"
proof (induction bs)
  case (Cons b bs)
  have "unat b div 16 < 16" "unat b mod 16 < 16"
    using unat_byte_less [of b] by (simp_all add: less_mult_imp_div_less)
  moreover have "unat b div 16 * 16 + unat b mod 16 = unat b"
    by simp
  ultimately show ?case
    using Cons by (simp add: hex_EncodeToString_def from_hex_char_hex_char del: div_mult_mod_eq)
qed (simp add: hex_EncodeToString_def)

lemma hex_EncodeToString_inject: "hex_EncodeToString a = hex_EncodeToString b \<longleftrightarrow> a = b"
  by (metis hex_Decode_Encode option.inject)

section \<open>Maps and stable sorting\<close>

text \<open>
  A Go map whose iteration order can be observed is an association list with distinct keys: the
  list order is the order in which one \<open>range\<close> loop visits the entries. A theorem that holds
  for every such list holds for every iteration order the run time may choose.
\<close>

definition map_get :: "('k \<times> 'v list) list \<Rightarrow> 'k \<Rightarrow> 'v list" where
  "map_get m k = (case map_of m k of None \<Rightarrow> [] | Some v \<Rightarrow> v)"

lemma sort_key_filter_stable: "filter (\<lambda>y. f y = k) (sort_key f xs) = filter (\<lambda>y. f y = k) xs"
  by (rule sort_key_stable)

end
