(* ===== verification/Wire_Reader.thy ===== *)
theory Wire_Reader
  imports Go_Prelude
begin

text \<open>
  The cursor over a byte string that every parser of \<open>stand/internal/wire\<close> uses
  (\<open>byteReader\<close> at the end of \<open>clienthello.go\<close>), and the error values of that package.
  \<open>Panic\<close> is not an error value of the Go code: it stands for a run-time panic, so the lemmas
  of the \<open>no_panic\<close> collection say that the code never indexes out of range.
\<close>

datatype wire_error =
    ErrNotHandshake | ErrNotHello | ErrTruncated | ErrFragmented
  | ErrNotSTUN
  | ErrNotQUICInitial | ErrQUICVersion "32 word" | ErrQUICUnprotected
  | ErrTLSDecrypt | ErrTLSSuite "16 word"
  | ErrNotHTTP
  | ErrCrypto string
  | Panic panic

type_synonym 'a res = "wire_error + 'a"

record byteReader =
  r_buf :: bytes
  r_pos :: nat

text \<open>The pattern \<open>if err != nil { return v }\<close> of a caller that gives up quietly: an error value is dropped, a
  panic is not.\<close>

definition on_error :: "'a res \<Rightarrow> 'b res \<Rightarrow> ('a \<Rightarrow> 'b res) \<Rightarrow> 'b res" where
  "on_error m v f = (case m of Inr a \<Rightarrow> f a | Inl (Panic p) \<Rightarrow> Inl (Panic p) | Inl _ \<Rightarrow> v)"

lemma on_error_cong [fundef_cong]:
  "m = m' \<Longrightarrow> v = v' \<Longrightarrow> (\<And>a. m' = Inr a \<Longrightarrow> f a = g a) \<Longrightarrow> on_error m v f = on_error m' v' g"
  by (cases m') (simp_all add: on_error_def)

definition maxReasonableHelloLength :: nat where
  "maxReasonableHelloLength = 2 ^ 16"

definition remaining :: "byteReader \<Rightarrow> int" where
  "remaining r = int (length (r_buf r)) - int (r_pos r)"

definition u8 :: "byteReader \<Rightarrow> (8 word \<times> byteReader) res" where
  "u8 r =
     (if remaining r < 1 then Inl ErrTruncated
      else rbind (at Panic (r_buf r) (r_pos r)) (\<lambda>value.
           Inr (value, r\<lparr>r_pos := r_pos r + 1\<rparr>)))"

definition u16 :: "byteReader \<Rightarrow> (16 word \<times> byteReader) res" where
  "u16 r =
     (if remaining r < 2 then Inl ErrTruncated
      else rbind (slice Panic (r_buf r) (r_pos r) (r_pos r + 2)) (\<lambda>bs.
           Inr (be_word bs, r\<lparr>r_pos := r_pos r + 2\<rparr>)))"

definition u24 :: "byteReader \<Rightarrow> (32 word \<times> byteReader) res" where
  "u24 r =
     (if remaining r < 3 then Inl ErrTruncated
      else rbind (at Panic (r_buf r) (r_pos r)) (\<lambda>b0.
           rbind (at Panic (r_buf r) (r_pos r + 1)) (\<lambda>b1.
           rbind (at Panic (r_buf r) (r_pos r + 2)) (\<lambda>b2.
           Inr (push_bit 16 (ucast b0) OR push_bit 8 (ucast b1) OR ucast b2,
                r\<lparr>r_pos := r_pos r + 3\<rparr>)))))"

definition rbytes :: "byteReader \<Rightarrow> nat \<Rightarrow> (bytes \<times> byteReader) res" where
  "rbytes r n =
     (if n > maxReasonableHelloLength \<or> remaining r < int n then Inl ErrTruncated
      else rbind (slice Panic (r_buf r) (r_pos r) (r_pos r + n)) (\<lambda>value.
           Inr (value, r\<lparr>r_pos := r_pos r + n\<rparr>)))"

definition skip :: "byteReader \<Rightarrow> nat \<Rightarrow> (nat \<times> byteReader) res" where
  "skip r n = rbind (rbytes r n) (\<lambda>(_, r'). Inr (r_pos r', r'))"

section \<open>What a read returns\<close>

lemma u8_eq: "u8 r = (if r_pos r < length (r_buf r)
    then Inr (r_buf r ! r_pos r, r\<lparr>r_pos := r_pos r + 1\<rparr>) else Inl ErrTruncated)"
  by (auto simp: u8_def remaining_def)

lemma u16_eq: "u16 r = (if r_pos r + 2 \<le> length (r_buf r)
    then Inr (be_word (take 2 (drop (r_pos r) (r_buf r))), r\<lparr>r_pos := r_pos r + 2\<rparr>)
    else Inl ErrTruncated)"
  by (auto simp: u16_def remaining_def)

lemma u24_eq: "u24 r = (if r_pos r + 3 \<le> length (r_buf r)
    then Inr (push_bit 16 (ucast (r_buf r ! r_pos r)) OR push_bit 8 (ucast (r_buf r ! (r_pos r + 1)))
                OR ucast (r_buf r ! (r_pos r + 2)), r\<lparr>r_pos := r_pos r + 3\<rparr>)
    else Inl ErrTruncated)"
  by (auto simp: u24_def remaining_def)

lemma rbytes_eq: "rbytes r n = (if n \<le> maxReasonableHelloLength \<and> r_pos r + n \<le> length (r_buf r)
    then Inr (take n (drop (r_pos r) (r_buf r)), r\<lparr>r_pos := r_pos r + n\<rparr>) else Inl ErrTruncated)"
  by (auto simp: rbytes_def remaining_def)

text \<open>The shifts and ors of \<open>u24\<close> are the big-endian value of the three bytes.\<close>

lemma u24_value:
  "push_bit 16 (ucast b0) OR push_bit 8 (ucast b1) OR ucast b2 = (be_word [b0, b1, b2] :: 32 word)"
proof -
  have low: "bit (ucast b :: 32 word) n \<Longrightarrow> n < 8" for b :: byte and n
    by (auto simp: bit_simps dest: bit_imp_le_length)
  let ?x = "push_bit 16 (ucast b0) :: 32 word" and ?y = "push_bit 8 (ucast b1) :: 32 word"
    and ?z = "ucast b2 :: 32 word"
  have "?x OR ?y OR ?z = ?x + (?y + ?z)"
  proof -
    have "?y + ?z = ?y OR ?z"
      by (rule disjunctive_add) (auto simp: bit_simps dest: low bit_imp_le_length)
    moreover have "?x + (?y OR ?z) = ?x OR (?y OR ?z)"
      by (rule disjunctive_add) (auto simp: bit_simps dest: low bit_imp_le_length)
    ultimately show ?thesis by simp
  qed
  also have "\<dots> = be_word [b0, b1, b2]"
    by (simp add: be_word_def be_nat_Cons push_bit_eq_mult algebra_simps)
  finally show ?thesis .
qed

lemma take_drop_nth3:
  assumes "i + 3 \<le> length xs"
  shows "take 3 (drop i xs) = [xs ! i, xs ! (i + 1), xs ! (i + 2)]"
  using assms
  by (simp add: numeral_3_eq_3 take_Suc_conv_app_nth)

lemma u24_eq': "u24 r = (if r_pos r + 3 \<le> length (r_buf r)
    then Inr (be_word (take 3 (drop (r_pos r) (r_buf r))), r\<lparr>r_pos := r_pos r + 3\<rparr>)
    else Inl ErrTruncated)"
  by (simp add: u24_eq u24_value take_drop_nth3)

section \<open>Panic freedom\<close>

definition no_panic :: "'a res \<Rightarrow> bool" where
  "no_panic m = (case m of Inl (Panic _) \<Rightarrow> False | _ \<Rightarrow> True)"

lemma no_panic_simps [simp]:
  "no_panic (Inr a)" "no_panic (Inl (Panic p)) = False"
  "no_panic (Inl ErrNotHandshake)" "no_panic (Inl ErrNotHello)" "no_panic (Inl ErrTruncated)"
  "no_panic (Inl ErrFragmented)" "no_panic (Inl ErrNotSTUN)" "no_panic (Inl ErrNotQUICInitial)"
  "no_panic (Inl (ErrQUICVersion v))" "no_panic (Inl ErrQUICUnprotected)"
  "no_panic (Inl ErrTLSDecrypt)" "no_panic (Inl (ErrTLSSuite c))" "no_panic (Inl ErrNotHTTP)"
  "no_panic (Inl (ErrCrypto s))"
  by (simp_all add: no_panic_def)

lemma no_panic_iff: "no_panic m \<longleftrightarrow> (\<forall>p. m \<noteq> Inl (Panic p))"
  by (auto simp: no_panic_def split: sum.splits wire_error.splits)

lemma no_panic_rbind [intro]:
  "no_panic m \<Longrightarrow> (\<And>a. m = Inr a \<Longrightarrow> no_panic (f a)) \<Longrightarrow> no_panic (rbind m f)"
  by (cases m) (auto simp: no_panic_iff)

lemma on_error_Inr [simp]: "on_error (Inr a) v f = f a"
  by (simp add: on_error_def)

lemma on_error_Inl: "no_panic (Inl e :: 'a res) \<Longrightarrow> on_error (Inl e) v (f :: 'a \<Rightarrow> _) = v"
  by (cases e) (simp_all add: on_error_def)

lemma on_error_cases:
  assumes "no_panic m"
  obtains a where "m = Inr a" "on_error m v f = f a" | "on_error m v f = v"
proof (cases m)
  case (Inl e)
  then show ?thesis using that(2) on_error_Inl [of e v f] assms by simp
qed (use that(1) in simp)

lemma no_panic_on_error [intro]:
  "no_panic m \<Longrightarrow> no_panic v \<Longrightarrow> (\<And>a. m = Inr a \<Longrightarrow> no_panic (f a)) \<Longrightarrow> no_panic (on_error m v f)"
  by (erule on_error_cases [of m v f]) simp_all

lemma no_panic_at [simp]: "no_panic (at Panic xs i) \<longleftrightarrow> i < length xs"
  by (simp add: at_def)

lemma no_panic_slice [simp]: "no_panic (slice Panic xs a b) \<longleftrightarrow> a \<le> b \<and> b \<le> length xs"
  by (simp add: slice_def)

lemma no_panic_reads [simp, intro]:
  "no_panic (u8 r)" "no_panic (u16 r)" "no_panic (u24 r)" "no_panic (rbytes r n)" "no_panic (skip r n)"
  by (auto simp: u8_eq u16_eq u24_eq' rbytes_eq skip_def)

section \<open>Where a read leaves the cursor\<close>

lemma read_moves:
  "u8 r = Inr (v8, r') \<Longrightarrow> r_buf r' = r_buf r \<and> r_pos r' = r_pos r + 1 \<and> r_pos r' \<le> length (r_buf r)"
  "u16 r = Inr (v16, r') \<Longrightarrow> r_buf r' = r_buf r \<and> r_pos r' = r_pos r + 2 \<and> r_pos r' \<le> length (r_buf r)"
  "u24 r = Inr (v24, r') \<Longrightarrow> r_buf r' = r_buf r \<and> r_pos r' = r_pos r + 3 \<and> r_pos r' \<le> length (r_buf r)"
  "rbytes r n = Inr (bs, r') \<Longrightarrow> r_buf r' = r_buf r \<and> r_pos r' = r_pos r + n \<and> r_pos r' \<le> length (r_buf r)
     \<and> length bs = n \<and> n \<le> maxReasonableHelloLength"
  "skip r n = Inr (q, r') \<Longrightarrow> r_buf r' = r_buf r \<and> r_pos r' = r_pos r + n \<and> r_pos r' \<le> length (r_buf r)"
  by (auto simp: u8_eq u16_eq u24_eq' rbytes_eq skip_def res_simps split: if_splits)

section \<open>Reading back what was written\<close>

text \<open>
  \<open>cursor done todo\<close> stands between the bytes already read and those still to read. The lemmas below turn a read into
  a step over a prefix, which is how the round trips of the parsers are proved.
\<close>

definition cursor :: "bytes \<Rightarrow> bytes \<Rightarrow> byteReader" where
  "cursor done todo = \<lparr>r_buf = done @ todo, r_pos = length done\<rparr>"

lemma u8_cursor [wire_simps]: "u8 (cursor d (b # bs)) = Inr (b, cursor (d @ [b]) bs)"
  by (simp add: u8_eq cursor_def)

lemma u16_cursor [wire_simps]:
  "length w = 2 \<Longrightarrow> u16 (cursor d (w @ bs)) = Inr (be_word w, cursor (d @ w) bs)"
  by (simp add: u16_eq cursor_def)

lemma u24_cursor [wire_simps]:
  "length w = 3 \<Longrightarrow> u24 (cursor d (w @ bs)) = Inr (be_word w, cursor (d @ w) bs)"
  by (simp add: u24_eq' cursor_def)

lemma rbytes_cursor [wire_simps]:
  "length w = n \<Longrightarrow> n \<le> maxReasonableHelloLength \<Longrightarrow>
     rbytes (cursor d (w @ bs)) n = Inr (w, cursor (d @ w) bs)"
  by (simp add: rbytes_eq cursor_def)

lemma skip_cursor [wire_simps]:
  "length w = n \<Longrightarrow> n \<le> maxReasonableHelloLength \<Longrightarrow>
     skip (cursor d (w @ bs)) n = Inr (length d + n, cursor (d @ w) bs)"
  by (simp add: skip_def rbytes_cursor) (simp add: cursor_def)

lemma cursor_sel [simp]:
  "r_buf (cursor d t) = d @ t" "r_pos (cursor d t) = length d"
  by (simp_all add: cursor_def)

lemma remaining_cursor [simp]: "remaining (cursor d t) = int (length t)"
  by (simp add: remaining_def)

end
