(* ===== verification/Quic_Varint.thy ===== *)
theory Quic_Varint
  imports Wire_Reader
begin

text \<open>
  QUIC variable-length integers, twice: the codec the client writes with
  (\<open>quic/quicvarint/varint.go\<close>: \<open>Len\<close>, \<open>Append\<close>, \<open>AppendWithLen\<close>, \<open>Parse\<close>) and the
  independent reader of the capture tool (\<open>readQUICVarint\<close> in
  \<open>stand/internal/wire/quicv1.go\<close>). Values are 64-bit words; the panics of the codec, an index out of range among them, and
  its two errors are the values of \<open>varint_failure\<close>.
\<close>

datatype varint_failure =
    EOF | UnexpectedEOF
  | PanicTooBig "64 word" | PanicInvalidLength | PanicCannotEncode "64 word" nat
  | PanicUnreachable | PanicOutOfRange panic

abbreviation maxVarInt1 :: "64 word" where "maxVarInt1 \<equiv> 63"
abbreviation maxVarInt2 :: "64 word" where "maxVarInt2 \<equiv> 16383"
abbreviation maxVarInt4 :: "64 word" where "maxVarInt4 \<equiv> 1073741823"
abbreviation maxVarInt8 :: "64 word" where "maxVarInt8 \<equiv> 4611686018427387903"

definition Len :: "64 word \<Rightarrow> varint_failure + nat" where
  "Len i =
     (if i \<le> maxVarInt1 then Inr 1
      else if i \<le> maxVarInt2 then Inr 2
      else if i \<le> maxVarInt4 then Inr 4
      else if i \<le> maxVarInt8 then Inr 8
      else Inl (PanicTooBig i))"

text \<open>\<open>uint8(i >> n)\<close>\<close>

abbreviation uint8_shr :: "64 word \<Rightarrow> nat \<Rightarrow> byte" where
  "uint8_shr i n \<equiv> ucast (drop_bit n i)"

definition Append :: "bytes \<Rightarrow> 64 word \<Rightarrow> varint_failure + bytes" where
  "Append b i =
     (if i \<le> maxVarInt1 then Inr (b @ [uint8_shr i 0])
      else if i \<le> maxVarInt2 then Inr (b @ [uint8_shr i 8 OR 0x40, uint8_shr i 0])
      else if i \<le> maxVarInt4 then
        Inr (b @ [uint8_shr i 24 OR 0x80, uint8_shr i 16, uint8_shr i 8, uint8_shr i 0])
      else if i \<le> maxVarInt8 then
        Inr (b @ [uint8_shr i 56 OR 0xc0, uint8_shr i 48, uint8_shr i 40, uint8_shr i 32,
                  uint8_shr i 24, uint8_shr i 16, uint8_shr i 8, uint8_shr i 0])
      else Inl (PanicTooBig i))"

definition AppendWithLen :: "bytes \<Rightarrow> 64 word \<Rightarrow> nat \<Rightarrow> varint_failure + bytes" where
  "AppendWithLen b i len =
     (if len \<noteq> 1 \<and> len \<noteq> 2 \<and> len \<noteq> 4 \<and> len \<noteq> 8 then Inl PanicInvalidLength
      else rbind (Len i) (\<lambda>l.
        if l = len then Append b i
        else if l > len then Inl (PanicCannotEncode i len)
        else
          let b = (if len = 2 then b @ [0x40] else if len = 4 then b @ [0x80]
                   else if len = 8 then b @ [0xc0] else b);
              b = b @ replicate (len - l - 1) 0
          in Inr (b @ map (\<lambda>j. uint8_shr i (8 * (l - 1 - j))) [0..<l])))"

definition Parse :: "bytes \<Rightarrow> varint_failure + (64 word \<times> nat)" where
  "Parse b =
     (if length b = 0 then Inl EOF
      else
        rbind (at PanicOutOfRange b 0) (\<lambda>first.
        let tag = drop_bit 6 first; low = ucast (first AND 0x3f) :: 64 word in
        if tag = 0 then Inr (low, 1)
        else if tag = 1 then
          (if length b < 2 then Inl UnexpectedEOF
           else rbind (at PanicOutOfRange b 1) (\<lambda>b1. Inr (ucast b1 OR push_bit 8 low, 2)))
        else if tag = 2 then
          (if length b < 4 then Inl UnexpectedEOF
           else
             rbind (at PanicOutOfRange b 3) (\<lambda>b3. rbind (at PanicOutOfRange b 2) (\<lambda>b2. rbind (at PanicOutOfRange b 1) (\<lambda>b1.
             Inr (ucast b3 OR push_bit 8 (ucast b2) OR push_bit 16 (ucast b1) OR push_bit 24 low, 4)))))
        else if tag = 3 then
          (if length b < 8 then Inl UnexpectedEOF
           else rbind (slice PanicOutOfRange b 0 8) (\<lambda>b8. Inr (be_word b8 AND 0x3fffffffffffffff, 8)))
        else Inl PanicUnreachable))"

fun readQUICVarint_loop :: "nat \<Rightarrow> byteReader \<Rightarrow> 64 word \<Rightarrow> (64 word \<times> byteReader) res" where
  "readQUICVarint_loop 0 r value = Inr (value, r)"
| "readQUICVarint_loop (Suc extra) r value =
     rbind (u8 r) (\<lambda>(next, r). readQUICVarint_loop extra r (push_bit 8 value OR ucast next))"

definition readQUICVarint :: "byteReader \<Rightarrow> (64 word \<times> byteReader) res" where
  "readQUICVarint r =
     rbind (u8 r) (\<lambda>(first, r).
       readQUICVarint_loop (2 ^ unat (drop_bit 6 first) - 1) r (ucast (first AND 0x3f)))"

section \<open>The value of a varint\<close>

text \<open>
  The specification both implementations are compared with: the two top bits of the first byte
  give the width, the other bits and the following bytes give the value.
\<close>

definition varint_width :: "byte \<Rightarrow> nat" where
  "varint_width first = 2 ^ (unat first div 64)"

definition varint_value :: "bytes \<Rightarrow> nat" where
  "varint_value bs = unat (hd bs) mod 64 * 256 ^ (length bs - 1) + be_nat (tl bs)"

definition varint_size :: "nat \<Rightarrow> nat" where
  "varint_size n = (if n < 64 then 1 else if n < 16384 then 2 else if n < 1073741824 then 4 else 8)"

lemma ucast_or_push_bit:
  fixes v :: "64 word" and b :: byte
  shows "push_bit 8 v OR ucast b = v * 256 + ucast b"
proof -
  have "push_bit 8 v + ucast b = push_bit 8 v OR ucast b"
    by (rule disjunctive_add) (auto simp: bit_simps dest: bit_imp_le_length)
  then show ?thesis by (simp add: push_bit_eq_mult mult.commute)
qed

lemma unat_and_3f: "unat (first AND 0x3f :: byte) = unat first mod 64"
proof -
  have "first AND 0x3f = take_bit 6 first"
    by (simp add: take_bit_eq_mask mask_eq_exp_minus_1)
  then show ?thesis by (simp add: take_bit_eq_mod unat_mod_distrib)
qed

lemma unat_drop_bit_6: "unat (drop_bit 6 first :: byte) = unat first div 64"
  by (simp add: drop_bit_eq_div unat_div_distrib)

lemma drop_bit_6_eq: "drop_bit 6 (first :: byte) = word_of_nat (unat first div 64)"
  by (metis of_nat_unat unat_drop_bit_6 ucast_id)

section \<open>The reader of the capture tool\<close>

lemma readQUICVarint_loop_cursor:
  "readQUICVarint_loop n (cursor d t) v =
     (if n \<le> length t
      then Inr (v * 256 ^ n + word_of_nat (be_nat (take n t)), cursor (d @ take n t) (drop n t))
      else Inl ErrTruncated)"
proof (induction n arbitrary: d t v)
  case 0
  then show ?case by simp
next
  case (Suc n)
  show ?case
  proof (cases t)
    case Nil
    then show ?thesis by (simp add: u8_eq)
  next
    case (Cons b bs)
    then show ?thesis
      by (simp add: u8_cursor Suc ucast_or_push_bit be_nat_Cons algebra_simps)
  qed
qed


lemma varint_width_pos [simp]: "0 < varint_width b"
  by (simp add: varint_width_def)

lemma readQUICVarint_Cons:
  "readQUICVarint (cursor d (b # bs)) =
     (let n = varint_width b; t = b # bs in
      if n \<le> length t then Inr (word_of_nat (varint_value (take n t)), cursor (d @ take n t) (drop n t))
      else Inl ErrTruncated)"
proof -
  have low: "(ucast (b AND 0x3f) :: 64 word) = word_of_nat (unat b mod 64)"
    by (metis of_nat_unat unat_and_3f)
  obtain m where m: "varint_width b = Suc m"
    using varint_width_pos [of b] gr0_conv_Suc by blast
  then have "2 ^ unat (drop_bit 6 b) - 1 = m"
    by (simp add: varint_width_def unat_drop_bit_6)
  then show ?thesis
    by (auto simp: readQUICVarint_def u8_cursor readQUICVarint_loop_cursor m low varint_value_def
        Let_def min_def)
qed

section \<open>The codec of the client\<close>

lemma unat_or_tag:
  fixes x c :: byte
  assumes "unat x < 64" and "c AND 0x3f = 0" and "unat c \<le> 192"
  shows "unat (x OR c) = unat x + unat c"
proof -
  have "x AND 0x3f = x"
    using assms(1) by (simp add: word_unat_eq_iff unat_and_3f)
  then have "x AND c = (x AND 0x3f) AND c" by (simp only:)
  also have "\<dots> = x AND (0x3f AND c)" by (simp only: and.assoc)
  also have "\<dots> = 0" using assms(2) by (simp add: and.commute)
  finally have "x OR c = x + c" by (rule disjunctive_add_eq_or [symmetric])
  then show ?thesis using assms by (simp add: unat_word_ariths)
qed

lemma unat_uint8_shr: "unat (uint8_shr i n) = unat i div 2 ^ n mod 256"
  by (simp add: unsigned_ucast_eq unat_drop_bit_eq take_bit_nat_def drop_bit_nat_def)

lemma unat_uint8: "unat (ucast (i :: 64 word) :: byte) = unat i mod 256"
  by (simp add: unsigned_ucast_eq take_bit_nat_def)

lemma Len_eq: "Len i = (if unat i < 2 ^ 62 then Inr (varint_size (unat i)) else Inl (PanicTooBig i))"
  by (auto simp: Len_def varint_size_def word_le_nat_alt)

lemma uint8_shr_eq: "uint8_shr i n = word_of_nat (unat i div 2 ^ n)"
proof -
  have "unat (uint8_shr i n) = unat (word_of_nat (unat i div 2 ^ n) :: byte)"
    unfolding unat_uint8_shr by (simp add: unat_of_nat)
  then show ?thesis by (simp only: word_unat_eq_iff [symmetric])
qed

lemma uint8_shr_be_bytes:
  "[uint8_shr i 16, uint8_shr i 8, uint8_shr i 0] = be_bytes 3 (unat i)"
  "[uint8_shr i 48, uint8_shr i 40, uint8_shr i 32, uint8_shr i 24, uint8_shr i 16, uint8_shr i 8,
    uint8_shr i 0] = be_bytes 7 (unat i)"
  by (simp_all add: be_bytes_numeral uint8_shr_eq div_mult2_eq [symmetric])

lemma varint_encoding:
  assumes "unat tag = unat i div 256 ^ n + 64 * k" "n = 2 ^ k - 1" "unat i div 256 ^ n < 64"
  shows "varint_width (hd (tag # be_bytes n (unat i))) = length (tag # be_bytes n (unat i))"
    and "varint_value (tag # be_bytes n (unat i)) = unat i"
proof -
  have "unat tag div 64 = k" using assms by simp
  then show "varint_width (hd (tag # be_bytes n (unat i))) = length (tag # be_bytes n (unat i))"
    using assms(2) by (simp add: varint_width_def)
  have "unat tag mod 64 = unat i div 256 ^ n" using assms by simp
  then show "varint_value (tag # be_bytes n (unat i)) = unat i"
    by (simp add: varint_value_def be_nat_be_bytes div_mult_mod_eq)
qed

lemma Append_eq:
  assumes "unat i < 2 ^ 62"
  obtains e where "\<And>b. Append b i = Inr (b @ e)" "length e = varint_size (unat i)"
    "varint_width (hd e) = length e" "varint_value e = unat i"
proof -
  let ?v = "unat i"
  consider (1) "?v < 64" | (2) "64 \<le> ?v" "?v < 16384" | (4) "16384 \<le> ?v" "?v < 1073741824"
    | (8) "1073741824 \<le> ?v" by linarith
  then show ?thesis
  proof cases
    case 1
    then show ?thesis
      by (intro that [of "[uint8_shr i 0]"])
        (simp_all add: Append_def word_le_nat_alt varint_size_def varint_width_def varint_value_def
          unat_uint8)
  next
    case 2
    have tag: "unat (uint8_shr i 8 OR 0x40) = ?v div 256 ^ 1 + 64 * 1"
      using 2 by (subst unat_or_tag) (simp_all add: unat_uint8_shr less_mult_imp_div_less)
    have low: "[uint8_shr i 0] = be_bytes 1 ?v" by simp
    show ?thesis using 2 varint_encoding [OF tag] low
      by (intro that [of "(uint8_shr i 8 OR 0x40) # be_bytes 1 ?v"])
        (simp_all add: Append_def word_le_nat_alt varint_size_def)
  next
    case 4
    have tag: "unat (uint8_shr i 24 OR 0x80) = ?v div 256 ^ 3 + 64 * 2"
      using 4 by (subst unat_or_tag) (simp_all add: unat_uint8_shr less_mult_imp_div_less)
    show ?thesis using 4 varint_encoding [OF tag]
      by (intro that [of "(uint8_shr i 24 OR 0x80) # be_bytes 3 ?v"])
        (simp_all add: Append_def word_le_nat_alt varint_size_def
          uint8_shr_be_bytes(1) [symmetric] del: be_bytes.simps)
  next
    case 8
    have tag: "unat (uint8_shr i 56 OR 0xc0) = ?v div 256 ^ 7 + 64 * 3"
      using 8 assms by (subst unat_or_tag) (simp_all add: unat_uint8_shr less_mult_imp_div_less)
    show ?thesis using 8 assms varint_encoding [OF tag]
      by (intro that [of "(uint8_shr i 56 OR 0xc0) # be_bytes 7 ?v"])
        (simp_all add: Append_def word_le_nat_alt varint_size_def
          uint8_shr_be_bytes(2) [symmetric] del: be_bytes.simps)
  qed
qed

lemma or_be_word4:
  fixes low :: "64 word"
  shows "ucast (b3 :: byte) OR push_bit 8 (ucast (b2 :: byte)) OR push_bit 16 (ucast (b1 :: byte)) OR push_bit 24 low
    = ((low * 256 + ucast b1) * 256 + ucast b2) * 256 + ucast b3"
proof -
  have "push_bit 8 (push_bit 8 (push_bit 8 low OR ucast b1) OR ucast b2) OR ucast b3
    = ucast b3 OR push_bit 8 (ucast b2) OR push_bit 16 (ucast b1) OR push_bit 24 low"
    by (simp add: push_bit_or or.commute or.left_commute or.assoc)
  then show ?thesis by (simp only: ucast_or_push_bit)
qed

lemma and_mask62: "unat (x AND 0x3fffffffffffffff :: 64 word) = unat x mod 2 ^ 62"
proof -
  have "x AND 0x3fffffffffffffff = take_bit 62 x"
    by (simp add: take_bit_eq_mask mask_eq_exp_minus_1)
  then show ?thesis by (simp add: take_bit_eq_mod unat_mod_distrib)
qed

lemma be_nat_mod62:
  assumes "length r = 7"
  shows "be_nat (b # r) mod 2 ^ 62 = unat b mod 64 * 256 ^ 7 + be_nat r"
proof -
  have "be_nat r < 256 ^ 7" using be_nat_less [of r] assms by simp
  then have "(unat b mod 64) * 256 ^ 7 + be_nat r < 2 ^ 62"
    using mod_less_divisor [of 64 "unat b"] by simp
  moreover have "be_nat (b # r) = (unat b div 64) * 2 ^ 62 + ((unat b mod 64) * 256 ^ 7 + be_nat r)"
  proof -
    have "unat b * 256 ^ 7 = (unat b div 64 * 64 + unat b mod 64) * 256 ^ 7"
      by (simp only: div_mult_mod_eq)
    also have "\<dots> = (unat b div 64) * 2 ^ 62 + (unat b mod 64) * 256 ^ 7"
      by (simp only: distrib_right) simp
    finally show ?thesis using assms by (simp only: be_nat_Cons add.assoc)
  qed
  ultimately show ?thesis by simp
qed

lemma varint_width_cases:
  obtains "unat b div 64 = 0" "varint_width b = 1" | "unat b div 64 = 1" "varint_width b = 2"
    | "unat b div 64 = 2" "varint_width b = 4" | "unat b div 64 = 3" "varint_width b = 8"
proof -
  have "unat b div 64 < 4" using unat_byte_less [of b] by (simp add: less_mult_imp_div_less)
  then consider "unat b div 64 = 0" | "unat b div 64 = 1" | "unat b div 64 = 2" | "unat b div 64 = 3"
    by linarith
  then show ?thesis using that by cases (simp_all add: varint_width_def)
qed

lemma tag_eq_iff: "drop_bit 6 (b :: byte) = k \<longleftrightarrow> unat b div 64 = unat k"
  by (simp only: word_unat_eq_iff unat_drop_bit_6)

lemma low_eq: "(ucast (b AND 0x3f :: byte) :: 64 word) = word_of_nat (unat b mod 64)"
  by (metis of_nat_unat unat_and_3f)

lemma Parse_Cons:
  "Parse (b # bs) =
     (let n = varint_width b; t = b # bs in
      if n \<le> length t then Inr (word_of_nat (varint_value (take n t)), n) else Inl UnexpectedEOF)"
proof (cases b rule: varint_width_cases)
  case 1
  then show ?thesis by (simp add: Parse_def tag_eq_iff low_eq varint_value_def)
next
  case 2
  show ?thesis
  proof (cases bs)
    case (Cons b1 r)
    have "ucast b1 OR push_bit 8 (word_of_nat (unat b mod 64)) =
        (word_of_nat (varint_value [b, b1]) :: 64 word)"
      using ucast_or_push_bit [of "word_of_nat (unat b mod 64)" b1]
      by (simp add: or.commute varint_value_def be_nat_Cons)
    with Cons 2 show ?thesis by (simp add: Parse_def tag_eq_iff low_eq)
  qed (simp add: Parse_def tag_eq_iff 2)
next
  case 3
  show ?thesis
  proof (cases "3 \<le> length bs")
    case True
    then obtain b1 b2 b3 r where r: "bs = b1 # b2 # b3 # r"
      by (auto simp: Suc_le_length_iff numeral_3_eq_3)
    have "varint_value [b, b1, b2, b3] =
        ((unat b mod 64 * 256 + unat b1) * 256 + unat b2) * 256 + unat b3"
      by (simp add: varint_value_def be_nat_Cons)
    with r 3 show ?thesis by (simp add: Parse_def tag_eq_iff low_eq or_be_word4)
  qed (simp add: Parse_def tag_eq_iff 3)
next
  case 4
  show ?thesis
  proof (cases "7 \<le> length bs")
    case True
    let ?w = "be_word (take 8 (b # bs)) :: 64 word"
    have "unat (?w AND 0x3fffffffffffffff) = be_nat (b # take 7 bs) mod 2 ^ 62"
      using True by (simp only: and_mask62) (simp add: unat_be_word)
    also have "\<dots> = varint_value (b # take 7 bs)"
      using True by (subst be_nat_mod62) (simp_all add: varint_value_def)
    finally have "?w AND 0x3fffffffffffffff = word_of_nat (varint_value (b # take 7 bs))"
      by (metis of_nat_unat ucast_id)
    with True 4 show ?thesis by (simp add: Parse_def tag_eq_iff)
  qed (simp add: Parse_def tag_eq_iff 4)
qed

lemma varint_value_less:
  assumes "0 < length bs" "length bs \<le> 8"
  shows "varint_value bs < 2 ^ 62"
proof -
  obtain b r where bs: "bs = b # r" using assms by (cases bs) auto
  have "varint_value bs < 64 * 256 ^ length r"
  proof -
    have "unat b mod 64 * 256 ^ length r \<le> 63 * 256 ^ length r"
      using mod_less_divisor [of 64 "unat b"] by (intro mult_le_mono1) linarith
    with be_nat_less [of r] show ?thesis
      unfolding varint_value_def bs list.sel length_Cons diff_Suc_1 by linarith
  qed
  also have "\<dots> \<le> 64 * 256 ^ 7"
    using assms bs by (intro mult_le_mono power_increasing) simp_all
  finally show ?thesis by simp
qed

section \<open>Padding a varint to a wider encoding\<close>

lemma be_bytes_map:
  "be_bytes n v = map (\<lambda>j. word_of_nat (v div 256 ^ (n - 1 - j))) [0..<n]"
proof (induction n arbitrary: v)
  case (Suc n)
  have "map (\<lambda>j. word_of_nat (v div 256 div 256 ^ (n - 1 - j)) :: byte) [0..<n]
      = map (\<lambda>j. word_of_nat (v div 256 ^ (n - j))) [0..<n]"
  proof (rule map_cong)
    fix j assume "j \<in> set [0..<n]"
    then have "256 ^ (n - j) = (256 * 256 ^ (n - 1 - j) :: nat)"
      by (simp flip: power_Suc add: Suc_diff_Suc)
    then show "(word_of_nat (v div 256 div 256 ^ (n - 1 - j)) :: byte) = word_of_nat (v div 256 ^ (n - j))"
      by (simp add: div_mult2_eq)
  qed simp
  then show ?case using Suc [of "v div 256"] by simp
qed simp

lemma be_bytes_add: "be_bytes (m + n) v = be_bytes m (v div 256 ^ n) @ be_bytes n v"
  by (induction n arbitrary: v) (simp_all add: div_mult2_eq)

lemma be_bytes_zero: "be_bytes n 0 = replicate n 0"
  by (induction n) (simp_all add: replicate_append_same)

lemma be_bytes_pad: "v < 256 ^ n \<Longrightarrow> replicate m 0 @ be_bytes n v = be_bytes (m + n) v"
  by (simp add: be_bytes_add be_bytes_zero)

lemma uint8_shr_map: "map (\<lambda>j. uint8_shr i (8 * (l - 1 - j))) [0..<l] = be_bytes l (unat i)"
proof -
  have "(2 :: nat) ^ (8 * k) = 256 ^ k" for k by (simp add: power_mult)
  then show ?thesis by (simp add: be_bytes_map uint8_shr_eq)
qed

lemma varint_size_fits: "v < 2 ^ 62 \<Longrightarrow> v < 64 * 256 ^ (varint_size v - 1)"
  by (simp add: varint_size_def)

lemma varint_size_width: "varint_size v \<in> {1, 2, 4, 8}"
  by (simp add: varint_size_def)

lemma AppendWithLen_eq:
  assumes "unat i < 2 ^ 62" "len \<in> {1, 2, 4, 8}" "varint_size (unat i) \<le> len"
  obtains e where "\<And>b. AppendWithLen b i len = Inr (b @ e)" "length e = len"
    "varint_width (hd e) = len" "varint_value e = unat i"
proof (cases "varint_size (unat i) = len")
  case True
  have Len: "Len i = Inr (varint_size (unat i))" using assms(1) by (simp add: Len_eq)
  obtain e where e: "\<And>b. Append b i = Inr (b @ e)" "length e = varint_size (unat i)"
    "varint_width (hd e) = length e" "varint_value e = unat i"
    using Append_eq [OF assms(1)] by blast
  have "AppendWithLen b i len = Inr (b @ e)" for b
    using assms(2) True e(1) by (auto simp: AppendWithLen_def Len)
  with e True that show ?thesis by simp
next
  case False
  let ?l = "varint_size (unat i)"
  have Len: "Len i = Inr ?l" using assms(1) by (simp add: Len_eq)
  define tag :: byte where "tag = (if len = 2 then 0x40 else if len = 4 then 0x80 else 0xc0)"
  have l: "0 < ?l" "?l < len" "len \<noteq> 1"
    using False assms(2,3) varint_size_width [of "unat i"] by auto
  have fits: "unat i < 256 ^ ?l" "unat i < 256 ^ (len - 1)"
  proof -
    have "unat i < 64 * 256 ^ (?l - 1)" by (rule varint_size_fits [OF assms(1)])
    also have "\<dots> \<le> 256 * 256 ^ (?l - 1)" by simp
    also have "\<dots> = 256 ^ ?l" using l(1) by (simp flip: power_Suc)
    finally show "unat i < 256 ^ ?l" .
    also have "\<dots> \<le> (256 :: nat) ^ (len - 1)" using l(2) by (intro power_increasing) simp_all
    finally show "unat i < 256 ^ (len - 1)" .
  qed
  let ?e = "tag # be_bytes (len - 1) (unat i)"
  have "len - ?l - 1 + ?l = len - 1" using l by simp
  then have "AppendWithLen b i len = Inr (b @ ?e)" for b
    using assms(2) l be_bytes_pad [OF fits(1), of "len - ?l - 1"]
    unfolding AppendWithLen_def Len rbind_Inr Let_def uint8_shr_map tag_def by auto
  moreover have "unat tag = 64 * (unat tag div 64)" "len - 1 = 2 ^ (unat tag div 64) - 1"
    using assms(2) l(3) by (auto simp: tag_def)
  then have "varint_width (hd ?e) = length ?e" "varint_value ?e = unat i"
    using fits(2) varint_encoding [of tag i "len - 1" "unat tag div 64"] by simp_all
  ultimately show ?thesis using that [of ?e] l by simp
qed

section \<open>Properties\<close>

text \<open>A decoder that follows the specification reads an encoding back and stops right after it.\<close>

lemma Parse_encoding:
  assumes "varint_width (hd e) = length e" "varint_value e = unat i"
  shows "Parse (e @ rest) = Inr (i, length e)"
proof -
  obtain b bs where e: "e = b # bs"
    using assms(1) varint_width_pos [of "hd e"] by (cases e) auto
  then have "varint_width b = length (b # bs)" using assms(1) by simp
  then show ?thesis using assms(2) e by (simp add: Parse_Cons Let_def)
qed

lemma readQUICVarint_encoding:
  assumes "varint_width (hd e) = length e" "varint_value e = unat i"
  shows "readQUICVarint (cursor d (e @ rest)) = Inr (i, cursor (d @ e) rest)"
proof -
  obtain b bs where e: "e = b # bs"
    using assms(1) varint_width_pos [of "hd e"] by (cases e) auto
  then have "varint_width b = length (b # bs)" using assms(1) by simp
  then show ?thesis using assms(2) e by (simp add: readQUICVarint_Cons Let_def)
qed

lemma Append_encoding:
  assumes "unat i < 2 ^ 62"
  obtains e where "\<And>b. Append b i = Inr (b @ e)" "Len i = Inr (length e)" "length e = varint_size (unat i)"
    "\<And>rest. Parse (e @ rest) = Inr (i, length e)"
    "\<And>d rest. readQUICVarint (cursor d (e @ rest)) = Inr (i, cursor (d @ e) rest)"
proof -
  obtain e where "\<And>b. Append b i = Inr (b @ e)" "length e = varint_size (unat i)"
    "varint_width (hd e) = length e" "varint_value e = unat i"
    using Append_eq [OF assms] by blast
  with assms that show ?thesis
    by (simp add: Len_eq Parse_encoding readQUICVarint_encoding)
qed

text \<open>C29: What the client's \<open>quicvarint.Append\<close> writes for any value below \<open>2 ^ 62\<close> has the length
  \<open>quicvarint.Len\<close> promises, and is read back, with nothing consumed beyond it, both by the client's
  \<open>quicvarint.Parse\<close> and by the capture tool's own \<open>readQUICVarint\<close>.\<close>

theorem varint_roundtrip:
  assumes "unat i < 2 ^ 62"
  shows "\<exists>e. Append b i = Inr (b @ e) \<and> Len i = Inr (length e)
    \<and> Parse (e @ rest) = Inr (i, length e)
    \<and> readQUICVarint (cursor d (e @ rest)) = Inr (i, cursor (d @ e) rest)"
  using Append_encoding [OF assms] by metis

theorem varint_roundtrip_witness:
  "\<exists>e. Append [7] 15293 = Inr ([7] @ e) \<and> Len 15293 = Inr (length e)
    \<and> Parse (e @ [1, 2]) = Inr (15293, length e)
    \<and> readQUICVarint (cursor [9] (e @ [1, 2])) = Inr (15293, cursor ([9] @ e) [1, 2])"
  by (rule varint_roundtrip) simp


text \<open>\<open>AppendWithLen\<close> pads a value to the requested width: for a width of 1, 2, 4 or 8 bytes that
  is large enough it appends exactly that many bytes and \<open>Parse\<close> reads the value back; every other
  width, a width that is too small and a value of \<open>2 ^ 62\<close> or more panic.\<close>

theorem AppendWithLen_spec:
  "(len \<notin> {1, 2, 4, 8} \<longrightarrow> AppendWithLen b i len = Inl PanicInvalidLength)
   \<and> (len \<in> {1, 2, 4, 8} \<and> 2 ^ 62 \<le> unat i \<longrightarrow> AppendWithLen b i len = Inl (PanicTooBig i))
   \<and> (len \<in> {1, 2, 4, 8} \<and> unat i < 2 ^ 62 \<and> len < varint_size (unat i) \<longrightarrow>
        AppendWithLen b i len = Inl (PanicCannotEncode i len))
   \<and> (len \<in> {1, 2, 4, 8} \<and> unat i < 2 ^ 62 \<and> varint_size (unat i) \<le> len \<longrightarrow>
        (\<exists>e. AppendWithLen b i len = Inr (b @ e) \<and> length e = len \<and> Parse (e @ rest) = Inr (i, len)))"
proof (intro conjI impI)
  assume "len \<in> {1, 2, 4, 8} \<and> unat i < 2 ^ 62 \<and> varint_size (unat i) \<le> len"
  then obtain e where "AppendWithLen b i len = Inr (b @ e)" "length e = len"
    "varint_width (hd e) = len" "varint_value e = unat i"
    using AppendWithLen_eq [of i len] by metis
  then show "\<exists>e. AppendWithLen b i len = Inr (b @ e) \<and> length e = len \<and> Parse (e @ rest) = Inr (i, len)"
    using Parse_encoding [of e i rest] by auto
qed (auto simp: AppendWithLen_def Len_eq)

theorem AppendWithLen_spec_witness:
  "AppendWithLen [] 37 3 = Inl PanicInvalidLength
   \<and> AppendWithLen [] 16384 2 = Inl (PanicCannotEncode 16384 2)
   \<and> (\<exists>e. AppendWithLen [] 37 4 = Inr ([] @ e) \<and> length e = 4 \<and> Parse (e @ [5]) = Inr (37, 4))"
  using AppendWithLen_spec [of 3 "[]" 37 "[]"] AppendWithLen_spec [of 2 "[]" 16384 "[]"]
    AppendWithLen_spec [of 4 "[]" 37 "[5]"]
  by (simp add: varint_size_def)

end
