(* ===== verification/Wire_Hello.thy ===== *)
theory Wire_Hello
  imports Quic_Varint
begin

text \<open>
  The hello parser of the capture tool, \<open>stand/internal/wire/clienthello.go\<close>: TLS and DTLS
  records, DTLS handshake fragments, ClientHello and ServerHello bodies and the extensions the
  fingerprints read, with \<open>ParseQUICTransportParams\<close> of \<open>quicv1.go\<close>, which it calls.

  Each function is written with the order of its reads and the early returns of the source. A loop
  over a byte string is a function with the position as an argument; its termination proof is that
  the position grows. The unused results of the source (the handshake length of a TLS record) are
  read and dropped as the source does.
\<close>

section \<open>Data\<close>

datatype HelloKind = HelloTLSClient | HelloTLSServer | HelloDTLSClient | HelloDTLSServer

record Extension =
  ext_Type :: "16 word"
  ext_Length :: "16 word"
  ext_Offset :: nat

record QUICTransportParam =
  tp_ID :: "64 word"
  tp_Value :: string

record Hello =
  h_Kind :: HelloKind
  h_RecordVersion :: "16 word"
  h_HelloVersion :: "16 word"
  h_MessageSeq :: "16 word"
  h_Random :: bytes
  h_SessionIDLen :: nat
  h_CookieLen :: nat
  h_CipherSuites :: "16 word list"
  h_CompressionMethods :: bytes
  h_Extensions :: "Extension list"
  h_ServerName :: string
  h_SupportedGroups :: "16 word list"
  h_SupportedVersions :: "16 word list"
  h_KeyShareGroups :: "16 word list"
  h_KeyShareLengths :: "nat list"
  h_PointFormats :: bytes
  h_SignatureAlgorithms :: "16 word list"
  h_ALPN :: "string list"
  h_QUICTransportParams :: "QUICTransportParam list"
  h_UseSRTPProfiles :: "16 word list"
  h_Raw :: bytes

definition IsDTLS :: "Hello \<Rightarrow> bool" where
  "IsDTLS h = (h_Kind h = HelloDTLSClient \<or> h_Kind h = HelloDTLSServer)"

fun ExtensionOffset_in :: "Extension list \<Rightarrow> 16 word \<Rightarrow> int" where
  "ExtensionOffset_in [] t = -1"
| "ExtensionOffset_in (e # es) t = (if ext_Type e = t then int (ext_Offset e) else ExtensionOffset_in es t)"

definition ExtensionOffset :: "Hello \<Rightarrow> 16 word \<Rightarrow> int" where
  "ExtensionOffset h t = ExtensionOffset_in (h_Extensions h) t"

definition ExtensionTypes :: "Hello \<Rightarrow> 16 word list" where
  "ExtensionTypes h = map ext_Type (h_Extensions h)"

abbreviation contentTypeHandshake :: byte where "contentTypeHandshake \<equiv> 22"
abbreviation handshakeClientHello :: byte where "handshakeClientHello \<equiv> 1"
abbreviation handshakeServerHello :: byte where "handshakeServerHello \<equiv> 2"
abbreviation versionDTLS10 :: "16 word" where "versionDTLS10 \<equiv> 0xfeff"
abbreviation versionDTLS12 :: "16 word" where "versionDTLS12 \<equiv> 0xfefd"
abbreviation extServerName :: "16 word" where "extServerName \<equiv> 0x0000"
abbreviation extSupportedGroups :: "16 word" where "extSupportedGroups \<equiv> 0x000a"
abbreviation extQUICTransportParams :: "16 word" where "extQUICTransportParams \<equiv> 0x0039"
abbreviation extECPointFormats :: "16 word" where "extECPointFormats \<equiv> 0x000b"
abbreviation extSignatureAlgorithms :: "16 word" where "extSignatureAlgorithms \<equiv> 0x000d"
abbreviation extALPN :: "16 word" where "extALPN \<equiv> 0x0010"
abbreviation extUseSRTP :: "16 word" where "extUseSRTP \<equiv> 0x000e"
abbreviation extSupportedVersions :: "16 word" where "extSupportedVersions \<equiv> 0x002b"
abbreviation extKeyShare :: "16 word" where "extKeyShare \<equiv> 0x0033"
abbreviation tlsRecordHeaderLen :: nat where "tlsRecordHeaderLen \<equiv> 5"
abbreviation dtlsRecordHeaderLen :: nat where "dtlsRecordHeaderLen \<equiv> 13"
abbreviation dtlsHandshakeHeaderLen :: nat where "dtlsHandshakeHeaderLen \<equiv> 12"
abbreviation helloRandomLen :: nat where "helloRandomLen \<equiv> 32"

section \<open>Extension bodies\<close>

function uint16List_loop :: "bytes \<Rightarrow> nat \<Rightarrow> 16 word list \<Rightarrow> 16 word list res" where
  "uint16List_loop buf i values =
     (if i + 1 < length buf then
        rbind (slice Panic buf i (i + 2)) (\<lambda>v. uint16List_loop buf (i + 2) (values @ [be_word v]))
      else Inr values)"
  by pat_completeness auto
termination
  by (relation "measure (\<lambda>(buf, i, _). length buf - i)") auto

definition uint16List :: "bytes \<Rightarrow> 16 word list res" where
  "uint16List buf = uint16List_loop buf 0 []"

function parseServerName_loop :: "bytes \<Rightarrow> nat \<Rightarrow> string res" where
  "parseServerName_loop body pos =
     (if pos + 3 \<le> length body then
        rbind (at Panic body pos) (\<lambda>nameType.
        rbind (slice Panic body (pos + 1) (pos + 3)) (\<lambda>len.
        let n = be_nat len; pos = pos + 3 in
        if pos + n > length body then Inr []
        else if nameType = 0 then rbind (slice Panic body pos (pos + n)) (\<lambda>s. Inr (bytes_to_string s))
        else parseServerName_loop body (pos + n)))
      else Inr [])"
  by pat_completeness auto
termination
  by (relation "measure (\<lambda>(body, pos). length body - pos)") auto

definition parseServerName :: "bytes \<Rightarrow> string res" where
  "parseServerName body = parseServerName_loop body 2"

function parseKeyShare_loop ::
  "bytes \<Rightarrow> nat \<Rightarrow> 16 word list \<Rightarrow> nat list \<Rightarrow> (16 word list \<times> nat list) res" where
  "parseKeyShare_loop body pos groups lengths =
     (if pos + 4 \<le> length body then
        rbind (slice Panic body pos (pos + 2)) (\<lambda>group.
        rbind (slice Panic body (pos + 2) (pos + 4)) (\<lambda>len.
        let n = be_nat len; pos = pos + 4 in
        if pos + n > length body then Inr (groups, lengths)
        else parseKeyShare_loop body (pos + n) (groups @ [be_word group]) (lengths @ [n])))
      else Inr (groups, lengths))"
  by pat_completeness auto
termination
  by (relation "measure (\<lambda>(body, pos, _). length body - pos)") auto

definition parseKeyShare :: "bytes \<Rightarrow> (16 word list \<times> nat list) res" where
  "parseKeyShare body = parseKeyShare_loop body 2 [] []"

function parseALPN_loop :: "bytes \<Rightarrow> nat \<Rightarrow> string list \<Rightarrow> string list res" where
  "parseALPN_loop body pos protocols =
     (if pos < length body then
        rbind (at Panic body pos) (\<lambda>len.
        let n = unat len; pos = pos + 1 in
        if pos + n > length body then Inr protocols
        else rbind (slice Panic body pos (pos + n)) (\<lambda>s.
             parseALPN_loop body (pos + n) (protocols @ [bytes_to_string s])))
      else Inr protocols)"
  by pat_completeness auto
termination
  by (relation "measure (\<lambda>(body, pos, _). length body - pos)") auto

definition parseALPN :: "bytes \<Rightarrow> string list res" where
  "parseALPN body = (if length body < 2 then Inr [] else parseALPN_loop body 2 [])"

declare parseServerName_loop.simps [simp del] parseKeyShare_loop.simps [simp del]
  parseALPN_loop.simps [simp del] uint16List_loop.simps [simp del]

lemma readQUICVarint_moves:
  assumes "readQUICVarint r = Inr (v, r')"
  shows "r_buf r' = r_buf r" "r_pos r < r_pos r'" "r_pos r' \<le> length (r_buf r)"
proof -
  have loop: "readQUICVarint_loop n r v = Inr (v', r') \<Longrightarrow> r_pos r \<le> length (r_buf r) \<Longrightarrow>
      r_buf r' = r_buf r \<and> r_pos r' = r_pos r + n \<and> r_pos r' \<le> length (r_buf r)" for n r v v' r'
    by (induction n arbitrary: r v) (fastforce simp: res_simps dest: read_moves)+
  from assms show "r_buf r' = r_buf r" "r_pos r < r_pos r'" "r_pos r' \<le> length (r_buf r)"
    by (auto simp: readQUICVarint_def res_simps dest!: read_moves loop)
qed

lemma no_panic_readQUICVarint [simp, intro]: "no_panic (readQUICVarint r)"
proof -
  have "no_panic (readQUICVarint_loop n r v)" for n r v
    by (induction n arbitrary: r v) auto
  then show ?thesis by (auto simp: readQUICVarint_def)
qed

text \<open>
  \<open>ParseQUICTransportParams\<close> stops without an error at the first parameter that does not fit and
  returns what it has read so far.
\<close>

function ParseQUICTransportParams_loop ::
  "byteReader \<Rightarrow> QUICTransportParam list \<Rightarrow> QUICTransportParam list res" where
  "ParseQUICTransportParams_loop r params =
     (if remaining r > 0 then
        on_error (readQUICVarint r) (Inr params) (\<lambda>(i, r).
        on_error (readQUICVarint r) (Inr params) (\<lambda>(len, r).
        on_error (rbytes r (unat len)) (Inr params) (\<lambda>(value, r).
        ParseQUICTransportParams_loop r (params @ [\<lparr>tp_ID = i, tp_Value = hex_EncodeToString value\<rparr>]))))
      else Inr params)"
  by pat_completeness auto
termination
proof (relation "measure (\<lambda>(r, _). length (r_buf r) - r_pos r)", goal_cases)
  case (2 r params x1 i r1 x2 len r2 x3 bs r3)
  then show ?case
    using readQUICVarint_moves [of r i r1] readQUICVarint_moves [of r1 len r2]
      read_moves(4) [of r2 "unat len" bs r3] by auto
qed simp

declare ParseQUICTransportParams_loop.simps [simp del]

definition ParseQUICTransportParams :: "bytes \<Rightarrow> QUICTransportParam list res" where
  "ParseQUICTransportParams body = ParseQUICTransportParams_loop \<lparr>r_buf = body, r_pos = 0\<rparr> []"

definition applyKnownExtension :: "Hello \<Rightarrow> 16 word \<Rightarrow> bytes \<Rightarrow> Hello res" where
  "applyKnownExtension hello extensionType body =
     (if extensionType = extSupportedGroups then
        (if length body \<ge> 2 then
           rbind (slice Panic body 2 (length body)) (\<lambda>b.
           rbind (uint16List b) (\<lambda>l. Inr (hello\<lparr>h_SupportedGroups := l\<rparr>)))
         else Inr hello)
      else if extensionType = extSignatureAlgorithms then
        (if length body \<ge> 2 then
           rbind (slice Panic body 2 (length body)) (\<lambda>b.
           rbind (uint16List b) (\<lambda>l. Inr (hello\<lparr>h_SignatureAlgorithms := l\<rparr>)))
         else Inr hello)
      else if extensionType = extECPointFormats then
        (if length body \<ge> 1 then
           rbind (slice Panic body 1 (length body)) (\<lambda>b. Inr (hello\<lparr>h_PointFormats := b\<rparr>))
         else Inr hello)
      else if extensionType = extUseSRTP then
        (if length body \<ge> 2 then
           rbind (slice Panic body 0 2) (\<lambda>lb.
           let listLen = be_nat lb in
           if int listLen \<le> int (length body) - 2 then
             rbind (slice Panic body 2 (2 + listLen)) (\<lambda>b.
           rbind (uint16List b) (\<lambda>l. Inr (hello\<lparr>h_UseSRTPProfiles := l\<rparr>)))
           else Inr hello)
         else Inr hello)
      else if extensionType = extALPN then
        rbind (parseALPN body) (\<lambda>p. Inr (hello\<lparr>h_ALPN := p\<rparr>))
      else if extensionType = extQUICTransportParams then
        rbind (ParseQUICTransportParams body) (\<lambda>p. Inr (hello\<lparr>h_QUICTransportParams := p\<rparr>))
      else if extensionType = extServerName then
        rbind (parseServerName body) (\<lambda>s. Inr (hello\<lparr>h_ServerName := s\<rparr>))
      else if extensionType = extSupportedVersions then
        (if length body \<ge> 1 then
           rbind (slice Panic body 1 (length body)) (\<lambda>b.
           rbind (uint16List b) (\<lambda>l. Inr (hello\<lparr>h_SupportedVersions := l\<rparr>)))
         else Inr hello)
      else if extensionType = extKeyShare then
        rbind (parseKeyShare body) (\<lambda>(g, l). Inr (hello\<lparr>h_KeyShareGroups := g, h_KeyShareLengths := l\<rparr>))
      else Inr hello)"

section \<open>The hello itself\<close>

function parseExtensions_loop :: "byteReader \<Rightarrow> nat \<Rightarrow> Hello \<Rightarrow> Hello res" where
  "parseExtensions_loop r end hello =
     (if r_pos r < end then
        rbind (u16 r) (\<lambda>(extensionType, r1).
        rbind (u16 r1) (\<lambda>(extensionLen, r2).
        rbind (rbytes r2 (unat extensionLen)) (\<lambda>(body, r3).
        rbind (applyKnownExtension
                 (hello\<lparr>h_Extensions := h_Extensions hello
                    @ [\<lparr>ext_Type = extensionType, ext_Length = extensionLen, ext_Offset = r_pos r\<rparr>]\<rparr>)
                 extensionType body) (\<lambda>hello.
        parseExtensions_loop r3 end hello))))
      else Inr hello)"
  by pat_completeness auto
termination
proof (relation "measure (\<lambda>(r, _, _). length (r_buf r) - r_pos r)", goal_cases)
  case (2 r e hello x1 t r1 x2 n r2 x3 body r3 h)
  then show ?case
    using read_moves(2) [of r t r1] read_moves(2) [of r1 n r2] read_moves(4) [of r2 "unat n" body r3]
    by auto
qed simp

declare parseExtensions_loop.simps [simp del]

definition parseExtensions :: "byteReader \<Rightarrow> Hello \<Rightarrow> Hello res" where
  "parseExtensions r hello =
     (if remaining r = 0 then Inr hello
      else rbind (u16 r) (\<lambda>(totalLen, r).
        let end = r_pos r + unat totalLen in
        if end > length (r_buf r) then Inl ErrTruncated
        else parseExtensions_loop r end hello))"

definition parseHelloBody :: "byteReader \<Rightarrow> Hello \<Rightarrow> bool \<Rightarrow> bool \<Rightarrow> Hello res" where
  "parseHelloBody r hello isDTLS isClient =
     rbind (u16 r) (\<lambda>(helloVersion, r).
     let hello = hello\<lparr>h_HelloVersion := helloVersion\<rparr> in
     rbind (rbytes r helloRandomLen) (\<lambda>(random, r).
     let hello = hello\<lparr>h_Random := random\<rparr> in
     rbind (u8 r) (\<lambda>(sessionIDLen, r).
     let hello = hello\<lparr>h_SessionIDLen := unat sessionIDLen\<rparr> in
     rbind (skip r (unat sessionIDLen)) (\<lambda>(_, r).
     rbind (if isDTLS \<and> isClient then
              rbind (u8 r) (\<lambda>(cookieLen, r).
              let hello = hello\<lparr>h_CookieLen := unat cookieLen\<rparr> in
              rbind (skip r (unat cookieLen)) (\<lambda>(_, r). Inr (hello, r)))
            else Inr (hello, r)) (\<lambda>(hello, r).
     rbind (if isClient then
              rbind (u16 r) (\<lambda>(suitesLen, r).
              rbind (rbytes r (unat suitesLen)) (\<lambda>(suites, r).
              rbind (uint16List suites) (\<lambda>l.
              let hello = hello\<lparr>h_CipherSuites := l\<rparr> in
              rbind (u8 r) (\<lambda>(compressionLen, r).
              rbind (rbytes r (unat compressionLen)) (\<lambda>(compression, r).
              Inr (hello\<lparr>h_CompressionMethods := compression\<rparr>, r))))))
            else
              rbind (u16 r) (\<lambda>(suite, r).
              let hello = hello\<lparr>h_CipherSuites := [suite]\<rparr> in
              rbind (u8 r) (\<lambda>(method, r).
              Inr (hello\<lparr>h_CompressionMethods := [method]\<rparr>, r)))) (\<lambda>(hello, r).
     parseExtensions r hello))))))"

definition new_Hello :: "16 word \<Rightarrow> bytes \<Rightarrow> Hello" where
  "new_Hello version record =
     \<lparr>h_Kind = HelloTLSServer, h_RecordVersion = version, h_HelloVersion = 0, h_MessageSeq = 0,
      h_Random = [], h_SessionIDLen = 0, h_CookieLen = 0, h_CipherSuites = [],
      h_CompressionMethods = [], h_Extensions = [], h_ServerName = [], h_SupportedGroups = [],
      h_SupportedVersions = [], h_KeyShareGroups = [], h_KeyShareLengths = [], h_PointFormats = [],
      h_SignatureAlgorithms = [], h_ALPN = [], h_QUICTransportParams = [], h_UseSRTPProfiles = [],
      h_Raw = record\<rparr>"

definition ParseHello :: "bytes \<Rightarrow> Hello res" where
  "ParseHello record =
     (if length record < tlsRecordHeaderLen then Inl ErrTruncated
      else rbind (at Panic record 0) (\<lambda>contentType.
      if contentType \<noteq> contentTypeHandshake then Inl ErrNotHandshake
      else rbind (slice Panic record 1 3) (\<lambda>v.
      let version = be_word v;
          isDTLS = (version = versionDTLS10 \<or> version = versionDTLS12);
          headerLen = (if isDTLS then dtlsRecordHeaderLen else tlsRecordHeaderLen) in
      if length record < headerLen + 1 then Inl ErrTruncated
      else
        let hello = new_Hello version record; r = \<lparr>r_buf = record, r_pos = headerLen\<rparr> in
        rbind (u8 r) (\<lambda>(messageType, r).
        if messageType \<noteq> handshakeClientHello \<and> messageType \<noteq> handshakeServerHello then Inl ErrNotHello
        else rbind (u24 r) (\<lambda>(messageLen, r).
        rbind (if isDTLS then
                 rbind (u16 r) (\<lambda>(messageSeq, r).
                 let hello = hello\<lparr>h_MessageSeq := messageSeq\<rparr> in
                 rbind (u24 r) (\<lambda>(fragmentOffset, r).
                 rbind (u24 r) (\<lambda>(fragmentLen, r).
                 if fragmentOffset \<noteq> 0 \<or> fragmentLen \<noteq> messageLen then Inl ErrFragmented
                 else Inr (hello, r))))
               else Inr (hello, r)) (\<lambda>(hello, r).
        let isClient = (messageType = handshakeClientHello);
            hello = hello\<lparr>h_Kind :=
              (if isDTLS \<and> isClient then HelloDTLSClient else if isDTLS then HelloDTLSServer
               else if isClient then HelloTLSClient else HelloTLSServer)\<rparr> in
        parseHelloBody r hello isDTLS isClient))))))"

section \<open>DTLS handshake fragments\<close>

record DTLSFragment =
  f_MessageType :: byte
  f_MessageSeq :: "16 word"
  f_Length :: "32 word"
  f_Offset :: "32 word"
  f_FragmentLen :: "32 word"
  f_Body :: bytes

definition IsHello :: "DTLSFragment \<Rightarrow> bool" where
  "IsHello f = (f_MessageType f = handshakeClientHello \<or> f_MessageType f = handshakeServerHello)"

definition appendUint24 :: "bytes \<Rightarrow> 32 word \<Rightarrow> bytes" where
  "appendUint24 dst value = dst @ [ucast (drop_bit 16 value), ucast (drop_bit 8 value), ucast value]"

definition appendUint16 :: "bytes \<Rightarrow> 16 word \<Rightarrow> bytes" where
  "appendUint16 dst value = dst @ [ucast (drop_bit 8 value), ucast value]"

definition Reassemble :: "DTLSFragment \<Rightarrow> bytes \<Rightarrow> bytes" where
  "Reassemble f body =
     (let record = [contentTypeHandshake, 0xfe, 0xfd, 0, 0, 0, 0, 0, 0, 0, 0];
          record = appendUint16 record (word_of_nat (dtlsHandshakeHeaderLen + length body));
          record = record @ [f_MessageType f];
          record = appendUint24 record (word_of_nat (length body));
          record = appendUint16 record (f_MessageSeq f);
          record = appendUint24 record 0;
          record = appendUint24 record (word_of_nat (length body))
      in record @ body)"

definition ParseDTLSFragment :: "bytes \<Rightarrow> DTLSFragment res" where
  "ParseDTLSFragment record =
     (if length record < dtlsRecordHeaderLen + dtlsHandshakeHeaderLen then Inl ErrTruncated
      else rbind (at Panic record 0) (\<lambda>contentType.
      if contentType \<noteq> contentTypeHandshake then Inl ErrNotHandshake
      else rbind (slice Panic record 1 3) (\<lambda>v.
      let version = be_word v in
      if version \<noteq> versionDTLS10 \<and> version \<noteq> versionDTLS12 then Inl ErrNotHandshake
      else
        let r = \<lparr>r_buf = record, r_pos = dtlsRecordHeaderLen\<rparr> in
        rbind (u8 r) (\<lambda>(messageType, r).
        rbind (u24 r) (\<lambda>(len, r).
        rbind (u16 r) (\<lambda>(messageSeq, r).
        rbind (u24 r) (\<lambda>(offset, r).
        rbind (u24 r) (\<lambda>(fragmentLen, r).
        rbind (rbytes r (unat fragmentLen)) (\<lambda>(body, r).
        if offset + fragmentLen > len then Inl ErrTruncated
        else Inr \<lparr>f_MessageType = messageType, f_MessageSeq = messageSeq, f_Length = len,
                  f_Offset = offset, f_FragmentLen = fragmentLen, f_Body = body\<rparr>)))))))))"

section \<open>No parser indexes out of range\<close>

lemma no_panic_parseServerName_loop: "no_panic (parseServerName_loop body pos)"
proof (induction body pos rule: parseServerName_loop.induct)
  case (1 body pos)
  then show ?case by (subst parseServerName_loop.simps) (auto simp: Let_def)
qed

lemma no_panic_parseKeyShare_loop: "no_panic (parseKeyShare_loop body pos gs ls)"
proof (induction body pos gs ls rule: parseKeyShare_loop.induct)
  case (1 body pos gs ls)
  then show ?case by (subst parseKeyShare_loop.simps) (auto simp: Let_def)
qed

lemma no_panic_parseALPN_loop: "no_panic (parseALPN_loop body pos ps)"
proof (induction body pos ps rule: parseALPN_loop.induct)
  case (1 body pos ps)
  then show ?case by (subst parseALPN_loop.simps) (auto simp: Let_def)
qed

lemma no_panic_uint16List_loop: "no_panic (uint16List_loop buf i vs)"
proof (induction buf i vs rule: uint16List_loop.induct)
  case (1 buf i vs)
  then show ?case by (subst uint16List_loop.simps) auto
qed

lemma no_panic_uint16List [simp, intro]: "no_panic (uint16List buf)"
  by (simp add: uint16List_def no_panic_uint16List_loop)

lemma no_panic_ParseQUICTransportParams_loop: "no_panic (ParseQUICTransportParams_loop r ps)"
proof (induction r ps rule: ParseQUICTransportParams_loop.induct)
  case (1 r ps)
  then show ?case by (subst ParseQUICTransportParams_loop.simps) (auto intro!: no_panic_on_error)
qed

lemma no_panic_applyKnownExtension [simp, intro]: "no_panic (applyKnownExtension h t body)"
  unfolding applyKnownExtension_def parseALPN_def parseServerName_def parseKeyShare_def ParseQUICTransportParams_def Let_def
  by (auto intro!: no_panic_rbind no_panic_parseServerName_loop no_panic_parseKeyShare_loop
      no_panic_parseALPN_loop no_panic_ParseQUICTransportParams_loop split: if_splits)

lemma no_panic_parseExtensions_loop: "no_panic (parseExtensions_loop r e h)"
proof (induction r e h rule: parseExtensions_loop.induct)
  case (1 r e h)
  then show ?case by (subst parseExtensions_loop.simps) (auto intro!: no_panic_rbind)
qed

lemma no_panic_parseExtensions [simp, intro]: "no_panic (parseExtensions r h)"
  by (auto simp: parseExtensions_def Let_def intro!: no_panic_rbind no_panic_parseExtensions_loop)

lemma no_panic_parseHelloBody [simp, intro]: "no_panic (parseHelloBody r h d c)"
  unfolding parseHelloBody_def Let_def by (auto intro!: no_panic_rbind)

lemma no_panic_ParseHello [simp, intro]: "no_panic (ParseHello record)"
  unfolding ParseHello_def Let_def by (auto intro!: no_panic_rbind)

lemma no_panic_ParseDTLSFragment [simp, intro]: "no_panic (ParseDTLSFragment record)"
  unfolding ParseDTLSFragment_def Let_def by (auto intro!: no_panic_rbind)

section \<open>Where the extensions are\<close>

text \<open>
  \<open>chained buf p es q\<close>: the extensions \<open>es\<close> lie in \<open>buf\<close> one after the other from offset \<open>p\<close> to
  offset \<open>q\<close>, each with its type and its length where its recorded offset says.
\<close>

fun chained :: "bytes \<Rightarrow> nat \<Rightarrow> Extension list \<Rightarrow> nat \<Rightarrow> bool" where
  "chained buf p [] q = (p = q)"
| "chained buf p (e # es) q =
     (ext_Offset e = p \<and> p + 4 + unat (ext_Length e) \<le> length buf
      \<and> be_word (take 2 (drop p buf)) = ext_Type e
      \<and> be_word (take 2 (drop (p + 2) buf)) = ext_Length e
      \<and> chained buf (p + 4 + unat (ext_Length e)) es q)"

lemma chained_le: "chained buf p es q \<Longrightarrow> p \<le> q"
  by (induction es arbitrary: p) fastforce+

lemma applyKnownExtension_frame:
  assumes "applyKnownExtension h t body = Inr h'"
  shows "h_Extensions h' = h_Extensions h" "h_Raw h' = h_Raw h" "h_Kind h' = h_Kind h"
    "h_Random h' = h_Random h" "h_CipherSuites h' = h_CipherSuites h"
    "h_RecordVersion h' = h_RecordVersion h" "h_HelloVersion h' = h_HelloVersion h"
    "h_MessageSeq h' = h_MessageSeq h" "h_SessionIDLen h' = h_SessionIDLen h"
    "h_CookieLen h' = h_CookieLen h" "h_CompressionMethods h' = h_CompressionMethods h"
  using assms unfolding applyKnownExtension_def
  by (auto simp: res_simps Let_def split: if_splits)

lemma parseExtensions_loop_chained:
  assumes "parseExtensions_loop r e h = Inr h'" "r_pos r \<le> length (r_buf r)"
  shows "\<exists>es q. h_Extensions h' = h_Extensions h @ es \<and> chained (r_buf r) (r_pos r) es q
           \<and> q \<le> length (r_buf r) \<and> (r_pos r \<le> e \<longrightarrow> e \<le> q) \<and> h_Raw h' = h_Raw h \<and> h_Kind h' = h_Kind h"
  using assms
proof (induction r e h rule: parseExtensions_loop.induct)
  case (1 r e h)
  show ?case
  proof (cases "r_pos r < e")
    case False
    with "1.prems" show ?thesis by (auto simp: parseExtensions_loop.simps [of r e h])
  next
    case True
    with "1.prems"(1) obtain t r1 n r2 body r3 hk where
      t: "u16 r = Inr (t, r1)" and n: "u16 r1 = Inr (n, r2)" and
      body: "rbytes r2 (unat n) = Inr (body, r3)" and
      hk: "applyKnownExtension (h\<lparr>h_Extensions := h_Extensions h
        @ [\<lparr>ext_Type = t, ext_Length = n, ext_Offset = r_pos r\<rparr>]\<rparr>) t body = Inr hk" and
      rest: "parseExtensions_loop r3 e hk = Inr h'"
      by (auto simp: parseExtensions_loop.simps [of r e h] res_simps)
    note moves = read_moves(2) [OF t] read_moves(2) [OF n] read_moves(4) [OF body]
    from "1.IH" [OF True t refl n refl body refl hk rest] moves obtain es q where
      IH: "h_Extensions h' = h_Extensions hk @ es" "chained (r_buf r3) (r_pos r3) es q"
        "q \<le> length (r_buf r3)" "r_pos r3 \<le> e \<longrightarrow> e \<le> q" "h_Raw h' = h_Raw hk" "h_Kind h' = h_Kind hk"
      by auto
    have tn: "t = be_word (take 2 (drop (r_pos r) (r_buf r)))"
      "n = be_word (take 2 (drop (r_pos r + 2) (r_buf r)))"
      using t n by (auto simp: u16_eq split: if_splits)
    have q: "r_pos r3 \<le> q" using IH(2) by (rule chained_le)
    have "chained (r_buf r) (r_pos r) (\<lparr>ext_Type = t, ext_Length = n, ext_Offset = r_pos r\<rparr> # es) q"
    proof -
      have "r_buf r3 = r_buf r" "r_pos r3 = r_pos r + 4 + unat n" "r_pos r + 4 + unat n \<le> length (r_buf r)"
        using moves by auto
      then show ?thesis using IH(2) tn by (simp del: add_2_eq_Suc add_2_eq_Suc')
    qed
    with IH q moves applyKnownExtension_frame [OF hk] show ?thesis by auto
  qed
qed

lemma parseExtensions_chained:
  assumes "parseExtensions r h = Inr h'" "h_Extensions h = []"
  shows "\<exists>p q. chained (r_buf r) p (h_Extensions h') q \<and> q \<le> length (r_buf r)
           \<and> h_Raw h' = h_Raw h \<and> h_Kind h' = h_Kind h"
proof (cases "remaining r = 0")
  case True
  with assms have "h' = h" by (simp add: parseExtensions_def)
  with True assms(2) show ?thesis by (auto intro!: exI [of _ "r_pos r"] simp: remaining_def)
next
  case False
  with assms obtain n r' where n: "u16 r = Inr (n, r')"
    and loop: "parseExtensions_loop r' (r_pos r' + unat n) h = Inr h'"
    by (auto simp: parseExtensions_def res_simps Let_def split: if_splits)
  from read_moves(2) [OF n] parseExtensions_loop_chained [OF loop] assms(2) show ?thesis
    by auto
qed

lemma parseHelloBody_chained:
  assumes "parseHelloBody r h d c = Inr h'" "h_Extensions h = []"
  shows "\<exists>p q. chained (r_buf r) p (h_Extensions h') q \<and> q \<le> length (r_buf r)
           \<and> h_Raw h' = h_Raw h \<and> h_Kind h' = h_Kind h"
proof -
  from assms(1) obtain r1 h1 where "parseExtensions r1 h1 = Inr h'" "h_Extensions h1 = h_Extensions h"
    "h_Raw h1 = h_Raw h" "h_Kind h1 = h_Kind h" "r_buf r1 = r_buf r"
    unfolding parseHelloBody_def Let_def
    by (cases c; cases d) (fastforce simp: res_simps dest: read_moves)+
  with parseExtensions_chained [of r1 h1 h'] assms(2) show ?thesis by simp
qed

end
