(* ===== verification/Go_Rand.thy ===== *)
theory Go_Rand
  imports Go_Prelude
begin

text \<open>
  The random source of Go (\<open>math/rand\<close> and \<open>math/rand/v2\<close>). A source is the list of raw numbers it
  is going to deliver; a bounded draw reduces the next one, so a draw below \<open>n\<close> can have every value
  below \<open>n\<close> and a statement about all sources is a statement about all outcomes. An exhausted list
  delivers zeros.
\<close>

type_synonym rand = "nat list"

definition draw :: "nat \<Rightarrow> rand \<Rightarrow> nat \<times> rand" where
  "draw n rs = (case rs of [] \<Rightarrow> (0, []) | r # rs \<Rightarrow> (r mod n, rs))"

text \<open>\<open>IntN\<close>, \<open>Intn\<close> and \<open>Uint64N\<close>, which panic when the bound is not positive.\<close>

definition IntN :: "(panic \<Rightarrow> 'e) \<Rightarrow> nat \<Rightarrow> rand \<Rightarrow> 'e + (nat \<times> rand)" where
  "IntN p n rs = (if n = 0 then Inl (p (LibraryPanic ''invalid argument to IntN'')) else Inr (draw n rs))"

text \<open>\<open>Shuffle\<close>: the swaps run from the last position down to the second.\<close>

definition swap :: "'a list \<Rightarrow> nat \<Rightarrow> nat \<Rightarrow> 'a list" where
  "swap xs i j = xs[i := xs ! j, j := xs ! i]"

fun shuffle_from :: "nat \<Rightarrow> 'a list \<Rightarrow> rand \<Rightarrow> 'a list \<times> rand" where
  "shuffle_from 0 xs rs = (xs, rs)"
| "shuffle_from (Suc i) xs rs =
     (let (j, rs) = draw (Suc i + 1) rs in shuffle_from i (swap xs (Suc i) j) rs)"

definition Shuffle :: "'a list \<Rightarrow> rand \<Rightarrow> 'a list \<times> rand" where
  "Shuffle xs rs = shuffle_from (length xs - 1) xs rs"

lemma draw_less: "0 < n \<Longrightarrow> fst (draw n rs) < n"
  by (simp add: draw_def split: list.splits)

lemma draw_eq: "draw n rs = (j, rs') \<Longrightarrow> 0 < n \<Longrightarrow> j < n"
  using draw_less [of n rs] by simp

lemma draw_onto: "j < n \<Longrightarrow> draw n (j # rs) = (j, rs)"
  by (simp add: draw_def)

lemma IntN_pos: "0 < n \<Longrightarrow> \<exists>j rs'. IntN p n rs = Inr (j, rs') \<and> j < n"
  using draw_less [of n rs] by (cases "draw n rs") (simp add: IntN_def)

lemma length_swap [simp]: "length (swap xs i j) = length xs"
  by (simp add: swap_def)

lemma mset_swap_at: "i < length xs \<Longrightarrow> j < length xs \<Longrightarrow> mset (swap xs i j) = mset xs"
  using mset_swap [of j xs i] by (simp add: swap_def)

lemma mset_shuffle_from: "i < length xs \<Longrightarrow> mset (fst (shuffle_from i xs rs)) = mset xs"
proof (induction i arbitrary: xs rs)
  case (Suc i)
  obtain j rs' where d: "draw (Suc i + 1) rs = (j, rs')" by (cases "draw (Suc i + 1) rs")
  then have "j < length xs" using draw_eq [OF d] Suc.prems by simp
  then show ?case using d Suc by (simp add: mset_swap_at)
qed simp

lemma mset_Shuffle [simp]: "mset (fst (Shuffle xs rs)) = mset xs"
  by (cases xs) (simp_all add: Shuffle_def mset_shuffle_from)

lemma length_Shuffle [simp]: "length (fst (Shuffle xs rs)) = length xs"
  by (metis mset_Shuffle size_mset)

lemma set_Shuffle [simp]: "set (fst (Shuffle xs rs)) = set xs"
  by (metis mset_Shuffle set_mset_mset)

text \<open>Every permutation is the outcome of some draws.\<close>

lemma shuffle_from_onto:
  assumes "mset ys = mset xs" "i < length xs" "\<And>k. i < k \<Longrightarrow> k < length xs \<Longrightarrow> ys ! k = xs ! k"
  shows "\<exists>rs. fst (shuffle_from i xs rs) = ys"
  using assms
proof (induction i arbitrary: xs)
  case 0
  have len: "length ys = length xs" using 0 by (metis size_mset)
  obtain x xs' y ys' where xs: "xs = x # xs'" "ys = y # ys'"
    using 0 len by (cases xs; cases ys) auto
  have "ys' = xs'"
    using 0(3) len xs by (intro nth_equalityI) (force dest: spec [of _ "Suc _"])+
  then show ?case using 0(1) xs by simp
next
  case (Suc i)
  have len: "length ys = length xs" using Suc.prems(1) by (metis size_mset)
  have "\<exists>j \<le> Suc i. xs ! j = ys ! Suc i"
  proof -
    have drop: "drop (Suc (Suc i)) ys = drop (Suc (Suc i)) xs"
      using Suc.prems len by (intro nth_equalityI) simp_all
    have "mset (take (Suc (Suc i)) ys) = mset (take (Suc (Suc i)) xs)"
    proof -
      have "mset (take (Suc (Suc i)) zs) + mset (drop (Suc (Suc i)) zs) = mset zs" for zs :: "'a list"
        by (metis append_take_drop_id mset_append)
      then show ?thesis using drop Suc.prems(1) by (metis add_right_cancel)
    qed
    then have "ys ! Suc i \<in> set (take (Suc (Suc i)) xs)"
      using len Suc.prems(2) by (metis in_set_conv_nth length_take lessI min_less_iff_conj nth_take set_mset_mset)
    then show ?thesis by (auto simp: in_set_conv_nth less_Suc_eq_le)
  qed
  then obtain j where j: "j \<le> Suc i" "xs ! j = ys ! Suc i" by blast
  have "\<exists>rs. fst (shuffle_from i (swap xs (Suc i) j) rs) = ys"
  proof (rule Suc.IH)
    show "mset ys = mset (swap xs (Suc i) j)" using j Suc.prems by (simp add: mset_swap_at)
    show "ys ! k = swap xs (Suc i) j ! k" if "i < k" "k < length (swap xs (Suc i) j)" for k
      using that j Suc.prems by (cases "k = Suc i") (auto simp: swap_def nth_list_update)
  qed (use Suc.prems in simp)
  then obtain rs where "fst (shuffle_from i (swap xs (Suc i) j) rs) = ys" by blast
  then have "fst (shuffle_from (Suc i) xs (j # rs)) = ys" using j by (simp add: draw_onto)
  then show ?case by blast
qed

lemma Shuffle_onto: "mset ys = mset xs \<Longrightarrow> \<exists>rs. fst (Shuffle xs rs) = ys"
proof (cases "xs = []")
  case False
  assume "mset ys = mset xs"
  then show ?thesis unfolding Shuffle_def by (rule shuffle_from_onto) (use False in simp_all)
qed (simp add: Shuffle_def)

end
