(* ===== verification/Quic_Frames.thy ===== *)
theory Quic_Frames
  imports Quic_Varint Go_Rand
begin

text \<open>
  The frames the QUIC client packs into an Initial packet: \<open>CryptoFrame\<close> with all of its operations
  (\<open>quic/internal/wire/crypto_frame.go\<close>) and \<open>PingFrame\<close>
  (\<open>quic/internal/wire/ping_frame.go\<close>). A frame of any other type enters the packer only through the
  \<open>Frame\<close> interface and is represented by what its \<open>Append\<close> writes, \<open>None\<close> if it returns an
  error. \<open>ByteCount\<close> is a signed 64-bit count and is an \<open>int\<close> here.
\<close>

type_synonym ByteCount = int

datatype pack_error =
    FrameEOF | FrameMessage string | FrameAppendError
  | VarintPanic varint_failure | PackPanic panic
  | BugChaosPayloadSize ByteCount ByteCount | BugPayloadSize ByteCount ByteCount

record CryptoFrame =
  cf_Offset :: ByteCount
  cf_Data :: bytes

datatype frame = Crypto CryptoFrame | Ping | Other "bytes option"

abbreviation FrameTypePing :: byte where "FrameTypePing \<equiv> 0x01"
abbreviation FrameTypeCrypto :: byte where "FrameTypeCrypto \<equiv> 0x06"

abbreviation uint64 :: "int \<Rightarrow> 64 word" where "uint64 \<equiv> word_of_int"

definition varint :: "varint_failure + 'a \<Rightarrow> pack_error + 'a" where
  "varint m = (case m of Inl e \<Rightarrow> Inl (VarintPanic e) | Inr a \<Rightarrow> Inr a)"

text \<open>\<open>replaceUnexpectedEOF\<close>: both ends of input are \<open>io.EOF\<close>.\<close>

definition replaceUnexpectedEOF :: "varint_failure + 'a \<Rightarrow> pack_error + 'a" where
  "replaceUnexpectedEOF m =
     (case m of Inl EOF \<Rightarrow> Inl FrameEOF | Inl UnexpectedEOF \<Rightarrow> Inl FrameEOF
      | Inl e \<Rightarrow> Inl (VarintPanic e) | Inr a \<Rightarrow> Inr a)"

definition parseCryptoFrame :: "bytes \<Rightarrow> pack_error + (CryptoFrame \<times> nat)" where
  "parseCryptoFrame b =
     (let startLen = length b in
      rbind (replaceUnexpectedEOF (Parse b)) (\<lambda>(offset, l).
      let b = drop l b in
      rbind (replaceUnexpectedEOF (Parse b)) (\<lambda>(dataLen, l).
      let b = drop l b in
      if unat dataLen > length b then Inl FrameEOF
      else Inr (\<lparr>cf_Offset = sint offset,
                  cf_Data = (if dataLen \<noteq> 0 then take (unat dataLen) b else [])\<rparr>,
                startLen - length b + unat dataLen))))"

definition CryptoFrame_Append :: "CryptoFrame \<Rightarrow> bytes \<Rightarrow> pack_error + bytes" where
  "CryptoFrame_Append f b =
     (let b = b @ [FrameTypeCrypto] in
      rbind (varint (Append b (uint64 (cf_Offset f)))) (\<lambda>b.
      rbind (varint (Append b (word_of_nat (length (cf_Data f))))) (\<lambda>b.
      Inr (b @ cf_Data f))))"

definition CryptoFrame_Length :: "CryptoFrame \<Rightarrow> pack_error + ByteCount" where
  "CryptoFrame_Length f =
     rbind (varint (Len (uint64 (cf_Offset f)))) (\<lambda>lo.
     rbind (varint (Len (word_of_nat (length (cf_Data f))))) (\<lambda>ll.
     Inr (int (1 + lo + ll + length (cf_Data f)))))"

definition MaxDataLen :: "CryptoFrame \<Rightarrow> ByteCount \<Rightarrow> pack_error + ByteCount" where
  "MaxDataLen f maxSize =
     rbind (varint (Len (uint64 (cf_Offset f)))) (\<lambda>lo.
     let headerLen = int (1 + lo + 1) in
     if headerLen > maxSize then Inr 0
     else
       let maxDataLen = maxSize - headerLen in
       rbind (varint (Len (uint64 maxDataLen))) (\<lambda>l.
       Inr (if l \<noteq> 1 then maxDataLen - 1 else maxDataLen)))"

text \<open>The result is the frame split off, whether splitting was required, and the receiver as the call
  leaves it.\<close>

definition MaybeSplitOffFrame ::
  "CryptoFrame \<Rightarrow> ByteCount \<Rightarrow> pack_error + (CryptoFrame option \<times> bool \<times> CryptoFrame)" where
  "MaybeSplitOffFrame f maxSize =
     rbind (CryptoFrame_Length f) (\<lambda>len.
     if len \<le> maxSize then Inr (None, False, f)
     else rbind (MaxDataLen f maxSize) (\<lambda>n.
     if n = 0 then Inr (None, True, f)
     else
       let newLen = int (length (cf_Data f)) - n in
       if newLen < 0 then Inl (PackPanic (LibraryPanic ''makeslice: len out of range''))
       else rbind (slice PackPanic (cf_Data f) (nat n) (length (cf_Data f))) (\<lambda>tail.
            rbind (slice PackPanic (cf_Data f) 0 (nat n)) (\<lambda>init.
            Inr (Some \<lparr>cf_Offset = cf_Offset f, cf_Data = init\<rparr>, True,
                 \<lparr>cf_Offset = cf_Offset f + n, cf_Data = take (nat newLen) tail\<rparr>)))))"

definition PingFrame_Append :: "bytes \<Rightarrow> pack_error + bytes" where
  "PingFrame_Append b = Inr (b @ [FrameTypePing])"

definition PingFrame_Length :: ByteCount where "PingFrame_Length = 1"

definition frame_Append :: "frame \<Rightarrow> bytes \<Rightarrow> pack_error + bytes" where
  "frame_Append f b =
     (case f of Crypto c \<Rightarrow> CryptoFrame_Append c b | Ping \<Rightarrow> PingFrame_Append b
      | Other None \<Rightarrow> Inl FrameAppendError | Other (Some w) \<Rightarrow> Inr (b @ w))"

definition frame_Length :: "frame \<Rightarrow> pack_error + ByteCount" where
  "frame_Length f =
     (case f of Crypto c \<Rightarrow> CryptoFrame_Length c | Ping \<Rightarrow> Inr PingFrame_Length
      | Other None \<Rightarrow> Inl FrameAppendError | Other (Some w) \<Rightarrow> Inr (int (length w)))"

section \<open>Varints inside frames\<close>

text \<open>The bytes \<open>Append\<close> adds, as a total function. With it a frame writer and a frame parser evaluate by
  \<open>simp add: codec_simps\<close>.\<close>

definition venc :: "64 word \<Rightarrow> bytes" where
  "venc i = (case Append [] i of Inl _ \<Rightarrow> [] | Inr e \<Rightarrow> e)"

named_theorems codec_simps \<open>writing and reading the fields of a frame\<close>

lemma venc_encoding:
  assumes "unat i < 2 ^ 62"
  shows "Append b i = Inr (b @ venc i)" "Len i = Inr (length (venc i))" "length (venc i) = varint_size (unat i)"
    "Parse (venc i @ rest) = Inr (i, length (venc i))"
proof -
  obtain e where e: "\<And>b. Append b i = Inr (b @ e)" "Len i = Inr (length e)" "length e = varint_size (unat i)"
    "\<And>rest. Parse (e @ rest) = Inr (i, length e)" using Append_encoding [OF assms] by metis
  moreover from e(1) [of "[]"] have "venc i = e" by (simp add: venc_def)
  ultimately show "Append b i = Inr (b @ venc i)" "Len i = Inr (length (venc i))"
    "length (venc i) = varint_size (unat i)" "Parse (venc i @ rest) = Inr (i, length (venc i))" by simp_all
qed

section \<open>Well-formed frames and their encoding\<close>

text \<open>The whole frame lies below the largest stream offset QUIC allows.\<close>

definition crypto_ok :: "CryptoFrame \<Rightarrow> bool" where
  "crypto_ok f = (0 \<le> cf_Offset f \<and> cf_Offset f + int (length (cf_Data f)) < 2 ^ 62)"

definition crypto_size :: "CryptoFrame \<Rightarrow> nat" where
  "crypto_size f = 1 + varint_size (nat (cf_Offset f)) + varint_size (length (cf_Data f)) + length (cf_Data f)"

lemma unat_uint64: "0 \<le> i \<Longrightarrow> i < 2 ^ 62 \<Longrightarrow> unat (uint64 i) = nat i"
  by (simp add: unsigned_of_int take_bit_int_eq_self)

lemma unat_len64: "n < 2 ^ 62 \<Longrightarrow> unat (word_of_nat n :: 64 word) = n"
  by (simp add: unat_of_nat)

lemma crypto_ok_bounds:
  assumes "crypto_ok f"
  shows "0 \<le> cf_Offset f" "cf_Offset f < 2 ^ 62" "length (cf_Data f) < 2 ^ 62"
    "unat (uint64 (cf_Offset f)) = nat (cf_Offset f)" "unat (uint64 (cf_Offset f)) < 2 ^ 62"
    "unat (word_of_nat (length (cf_Data f)) :: 64 word) = length (cf_Data f)"
proof -
  show "0 \<le> cf_Offset f" "cf_Offset f < 2 ^ 62" "length (cf_Data f) < 2 ^ 62"
    using assms by (auto simp: crypto_ok_def)
  then show "unat (uint64 (cf_Offset f)) = nat (cf_Offset f)" "unat (uint64 (cf_Offset f)) < 2 ^ 62"
    "unat (word_of_nat (length (cf_Data f)) :: 64 word) = length (cf_Data f)"
    by (simp_all add: unat_uint64 unat_len64)
qed

lemma varint_Inr [simp]: "varint (Inr a) = Inr a" by (simp add: varint_def)

lemma replaceUnexpectedEOF_Inr [simp]: "replaceUnexpectedEOF (Inr a) = Inr a"
  by (simp add: replaceUnexpectedEOF_def)

lemma varint_Len: "unat i < 2 ^ 62 \<Longrightarrow> varint (Len i) = Inr (varint_size (unat i))"
  by (simp add: Len_eq)

lemma CryptoFrame_Length_eq: "crypto_ok f \<Longrightarrow> CryptoFrame_Length f = Inr (int (crypto_size f))"
  using crypto_ok_bounds [of f]
  by (simp add: CryptoFrame_Length_def varint_Len crypto_size_def)

lemma CryptoFrame_encoding:
  assumes "crypto_ok f"
  obtains eo el where
    "\<And>b. CryptoFrame_Append f b = Inr (b @ FrameTypeCrypto # eo @ el @ cf_Data f)"
    "1 + length eo + length el + length (cf_Data f) = crypto_size f"
    "\<And>rest. Parse (eo @ rest) = Inr (uint64 (cf_Offset f), length eo)"
    "\<And>rest. Parse (el @ rest) = Inr (word_of_nat (length (cf_Data f)), length el)"
    "\<And>d rest. readQUICVarint (cursor d (eo @ rest)) = Inr (uint64 (cf_Offset f), cursor (d @ eo) rest)"
    "\<And>d rest. readQUICVarint (cursor d (el @ rest)) = Inr (word_of_nat (length (cf_Data f)), cursor (d @ el) rest)"
proof -
  note b = crypto_ok_bounds [OF assms]
  obtain eo where eo: "\<And>b. Append b (uint64 (cf_Offset f)) = Inr (b @ eo)"
    "length eo = varint_size (unat (uint64 (cf_Offset f)))"
    "\<And>rest. Parse (eo @ rest) = Inr (uint64 (cf_Offset f), length eo)"
    "\<And>d rest. readQUICVarint (cursor d (eo @ rest)) = Inr (uint64 (cf_Offset f), cursor (d @ eo) rest)"
    using Append_encoding [OF b(5)] by metis
  obtain el where el: "\<And>b. Append b (word_of_nat (length (cf_Data f))) = Inr (b @ el)"
    "length el = varint_size (unat (word_of_nat (length (cf_Data f)) :: 64 word))"
    "\<And>rest. Parse (el @ rest) = Inr (word_of_nat (length (cf_Data f)), length el)"
    "\<And>d rest. readQUICVarint (cursor d (el @ rest)) = Inr (word_of_nat (length (cf_Data f)), cursor (d @ el) rest)"
    using Append_encoding [of "word_of_nat (length (cf_Data f))"] b by metis
  show ?thesis
    using eo el b by (intro that [of eo el]) (simp_all add: CryptoFrame_Append_def crypto_size_def)
qed

lemma varint_size_mono: "m \<le> n \<Longrightarrow> varint_size m \<le> varint_size n"
  by (simp add: varint_size_def)

section \<open>Properties\<close>

text \<open>CRYPTO frames survive the wire: what \<open>Append\<close> writes for a frame that ends below the largest
  QUIC offset has exactly the length \<open>Length\<close> announces, begins with the type byte, and
  \<open>parseCryptoFrame\<close> on the bytes after the type returns the same frame and consumes exactly them.\<close>

theorem CryptoFrame_roundtrip:
  assumes "crypto_ok f"
  shows "\<exists>w. CryptoFrame_Append f b = Inr (b @ FrameTypeCrypto # w)
    \<and> CryptoFrame_Length f = Inr (int (1 + length w))
    \<and> parseCryptoFrame (w @ rest) = Inr (f, length w)"
proof -
  obtain eo el where e: "CryptoFrame_Append f b = Inr (b @ FrameTypeCrypto # eo @ el @ cf_Data f)"
    "1 + length eo + length el + length (cf_Data f) = crypto_size f"
    "\<And>rest. Parse (eo @ rest) = Inr (uint64 (cf_Offset f), length eo)"
    "\<And>rest. Parse (el @ rest) = Inr (word_of_nat (length (cf_Data f)), length el)"
    using CryptoFrame_encoding [OF assms] by metis
  note b = crypto_ok_bounds [OF assms]
  have off: "sint (uint64 (cf_Offset f)) = cf_Offset f"
    using b(1,2) by (simp add: signed_of_int signed_take_bit_int_eq_self)
  have "parseCryptoFrame (eo @ el @ cf_Data f @ rest)
      = Inr (\<lparr>cf_Offset = cf_Offset f, cf_Data = cf_Data f\<rparr>, length (eo @ el @ cf_Data f))"
    using b(6) off by (auto simp: parseCryptoFrame_def e(3,4) Let_def word_unat_eq_iff)
  then show ?thesis
    using e(1,2) CryptoFrame_Length_eq [OF assms]
    by (intro exI [of _ "eo @ el @ cf_Data f"]) simp
qed

theorem CryptoFrame_roundtrip_witness:
  "\<exists>w. CryptoFrame_Append \<lparr>cf_Offset = 1200, cf_Data = [1, 2, 3]\<rparr> [9] = Inr ([9] @ FrameTypeCrypto # w)
    \<and> CryptoFrame_Length \<lparr>cf_Offset = 1200, cf_Data = [1, 2, 3]\<rparr> = Inr (int (1 + length w))
    \<and> parseCryptoFrame (w @ [0, 0]) = Inr (\<lparr>cf_Offset = 1200, cf_Data = [1, 2, 3]\<rparr>, length w)"
  by (rule CryptoFrame_roundtrip) (simp add: crypto_ok_def)

text \<open>\<open>MaxDataLen\<close> leaves room for the header: any amount of data up to it fits, and it is zero only when the limit leaves
  no room for data.\<close>

lemma MaxDataLen_fits:
  assumes "0 \<le> cf_Offset f" "cf_Offset f < 2 ^ 62" "0 \<le> maxSize" "maxSize \<le> 16384"
  shows "\<exists>n. MaxDataLen f maxSize = Inr (int n) \<and> (n = 0 \<longleftrightarrow> maxSize \<le> 2 + int (varint_size (nat (cf_Offset f))))
    \<and> (\<forall>k. 0 < k \<and> k \<le> n \<longrightarrow> int (1 + varint_size (nat (cf_Offset f)) + varint_size k + k) \<le> maxSize)"
proof -
  define lo where "lo = varint_size (nat (cf_Offset f))"
  define M where "M = maxSize - int (2 + lo)"
  have lo: "varint (Len (uint64 (cf_Offset f))) = Inr lo" using assms by (simp add: varint_Len unat_uint64 lo_def)
  have max: "maxSize = M + int (2 + lo)" by (simp add: M_def)
  show ?thesis
  proof (cases "M \<le> 0")
    case True
    have "varint (Len (uint64 0)) = Inr 1" by (simp add: Len_def)
    then have "MaxDataLen f maxSize = Inr (int 0)"
      using True by (cases "M = 0") (simp_all add: MaxDataLen_def lo Let_def max)
    then show ?thesis using True unfolding lo_def [symmetric] max by (intro exI [of _ 0]) simp
  next
    case M: False
    define n where "n = (if M < 64 then nat M else nat M - 1)"
    have uM: "unat (uint64 M) = nat M" using M assms(4) by (intro unat_uint64) (simp_all add: M_def)
    have "varint (Len (uint64 M)) = Inr (if M < 64 then 1 else 2)"
      using M uM assms(4) max by (subst varint_Len) (auto simp: varint_size_def)
    then have "MaxDataLen f maxSize = Inr (int n)" using M by (simp add: MaxDataLen_def lo Let_def max n_def)
    then show ?thesis using M assms(4) unfolding lo_def [symmetric] max
      by (intro exI [of _ n]) (auto simp: varint_size_def n_def split: if_splits)
  qed
qed

text \<open>C31: \<open>MaybeSplitOffFrame\<close> cuts a CRYPTO frame without losing or duplicating a byte, for every size
  limit up to 16384 (a packet is smaller): a frame that fits is left alone; of one that does not, either
  nothing is cut, exactly when the limit leaves no room for data, or the frame returned fits the limit, carries at least
  one byte, and the receiver continues right after it with at least one byte.\<close>

theorem MaybeSplitOffFrame_spec:
  assumes "crypto_ok f" and "0 \<le> maxSize" and "maxSize \<le> 16384"
  shows "(int (crypto_size f) \<le> maxSize \<and> MaybeSplitOffFrame f maxSize = Inr (None, False, f))
    \<or> (int (crypto_size f) > maxSize \<and> maxSize \<le> 2 + int (varint_size (nat (cf_Offset f)))
        \<and> MaybeSplitOffFrame f maxSize = Inr (None, True, f))
    \<or> (int (crypto_size f) > maxSize \<and> (\<exists>g h. MaybeSplitOffFrame f maxSize = Inr (Some g, True, h)
        \<and> CryptoFrame_Length g = Inr (int (crypto_size g)) \<and> int (crypto_size g) \<le> maxSize
        \<and> cf_Data g \<noteq> [] \<and> cf_Data h \<noteq> [] \<and> cf_Data g @ cf_Data h = cf_Data f
        \<and> cf_Offset g = cf_Offset f \<and> cf_Offset h = cf_Offset f + int (length (cf_Data g))))"
proof (cases "int (crypto_size f) \<le> maxSize")
  case True
  then show ?thesis by (simp add: MaybeSplitOffFrame_def CryptoFrame_Length_eq [OF assms(1)])
next
  case False
  have len: "CryptoFrame_Length f = Inr (int (crypto_size f))" by (rule CryptoFrame_Length_eq [OF assms(1)])
  obtain n where n: "MaxDataLen f maxSize = Inr (int n)" "n = 0 \<longleftrightarrow> maxSize \<le> 2 + int (varint_size (nat (cf_Offset f)))"
    "\<forall>k. 0 < k \<and> k \<le> n \<longrightarrow> int (1 + varint_size (nat (cf_Offset f)) + varint_size k + k) \<le> maxSize"
    using MaxDataLen_fits [of f maxSize] crypto_ok_bounds [OF assms(1)] assms(2,3) by auto
  show ?thesis
  proof (cases "n = 0")
    case True
    then show ?thesis using False len n by (simp add: MaybeSplitOffFrame_def)
  next
    case pos: False
    have less: "n < length (cf_Data f)"
      using False n(2,3) pos by (cases "cf_Data f = []") (auto simp: crypto_size_def varint_size_def not_less)
    let ?g = "\<lparr>cf_Offset = cf_Offset f, cf_Data = take n (cf_Data f)\<rparr>"
    have res: "MaybeSplitOffFrame f maxSize =
        Inr (Some ?g, True, \<lparr>cf_Offset = cf_Offset f + int n, cf_Data = drop n (cf_Data f)\<rparr>)"
      using False len n(1) less pos by (simp add: MaybeSplitOffFrame_def Let_def slice_def)
    have "crypto_ok ?g" using assms(1) less by (simp add: crypto_ok_def)
    moreover have "int (crypto_size ?g) \<le> maxSize" using n(3) pos less by (simp add: crypto_size_def)
    ultimately show ?thesis using False res less pos CryptoFrame_Length_eq [of ?g] by auto
  qed
qed

theorem MaybeSplitOffFrame_spec_witness:
  "\<exists>g h. MaybeSplitOffFrame \<lparr>cf_Offset = 100, cf_Data = replicate 90 7\<rparr> 60 = Inr (Some g, True, h)
     \<and> int (crypto_size g) \<le> 60 \<and> cf_Data g @ cf_Data h = replicate 90 7"
proof -
  let ?f = "\<lparr>cf_Offset = 100, cf_Data = replicate 90 7\<rparr>"
  have "crypto_ok ?f" "crypto_size ?f = 95"
    by (simp_all add: crypto_ok_def crypto_size_def varint_size_def)
  then show ?thesis
    using MaybeSplitOffFrame_spec [of ?f 60] by (auto simp: varint_size_def)
qed

end
