(* ===== verification/Wire_Hello_Spec.thy ===== *)
theory Wire_Hello_Spec
  imports Wire_Hello Quic_Frames
begin

text \<open>
  What the hello parser of \<open>Wire_Hello\<close> promises, stated against the wire format: an encoder of
  ClientHello messages and of the extensions the parser knows, written from the layout in RFC 8446, RFC 6347 and
  the RFCs of the extensions, the hello that has to come out (\<open>hello_of\<close>, every field of the result), and the theorems
  that \<open>ParseHello\<close> and \<open>ParseDTLSFragment\<close> read back exactly what was encoded.
\<close>

section \<open>The wire format\<close>

record hello_spec =
  s_version :: "16 word"
  s_random :: bytes
  s_session :: bytes
  s_cookie :: bytes
  s_suites :: "16 word list"
  s_compression :: bytes
  s_exts :: "(16 word \<times> bytes) list"

definition enc16 :: "16 word \<Rightarrow> bytes" where
  "enc16 w = be_bytes 2 (unat w)"

definition enc_vec8 :: "bytes \<Rightarrow> bytes" where
  "enc_vec8 bs = word_of_nat (length bs) # bs"

definition enc_vec16 :: "bytes \<Rightarrow> bytes" where
  "enc_vec16 bs = be_bytes 2 (length bs) @ bs"

definition encode_exts :: "(16 word \<times> bytes) list \<Rightarrow> bytes" where
  "encode_exts es = concat (map (\<lambda>(t, b). enc16 t @ be_bytes 2 (length b) @ b) es)"

definition hello_head :: "bool \<Rightarrow> hello_spec \<Rightarrow> bytes" where
  "hello_head dtls sp =
     enc16 (s_version sp) @ s_random sp @ enc_vec8 (s_session sp)
     @ (if dtls then enc_vec8 (s_cookie sp) else [])
     @ be_bytes 2 (2 * length (s_suites sp)) @ concat (map enc16 (s_suites sp))
     @ enc_vec8 (s_compression sp)"

definition client_hello_body :: "bool \<Rightarrow> hello_spec \<Rightarrow> bytes" where
  "client_hello_body dtls sp =
     hello_head dtls sp @ be_bytes 2 (length (encode_exts (s_exts sp))) @ encode_exts (s_exts sp)"

definition tls_header :: "byte \<Rightarrow> nat \<Rightarrow> bytes" where
  "tls_header minor n =
     [contentTypeHandshake, 3, minor] @ be_bytes 2 (4 + n) @ [handshakeClientHello] @ be_bytes 3 n"

definition tls_record :: "byte \<Rightarrow> bytes \<Rightarrow> bytes" where
  "tls_record minor body = tls_header minor (length body) @ body"

lemma length_tls_header [simp]: "length (tls_header minor n) = 9"
  by (simp add: tls_header_def)

definition well_formed :: "hello_spec \<Rightarrow> bool" where
  "well_formed sp =
     (length (s_random sp) = 32 \<and> length (s_session sp) < 256 \<and> length (s_cookie sp) < 256
      \<and> 2 * length (s_suites sp) < 65536 \<and> length (s_compression sp) < 256
      \<and> length (encode_exts (s_exts sp)) < 65536)"

fun place :: "nat \<Rightarrow> (16 word \<times> bytes) list \<Rightarrow> Extension list" where
  "place p [] = []"
| "place p ((t, b) # es) =
     \<lparr>ext_Type = t, ext_Length = word_of_nat (length b), ext_Offset = p\<rparr> # place (p + 4 + length b) es"

text \<open>
  The extensions whose contents the parser reports, with their contents, and any other. \<open>ext_wire\<close> is the type and the body on the wire,
  \<open>ext_ok\<close> what the format asks of the contents beyond the length of the body, and \<open>ext_effect\<close> what the parsed
  hello has to say about the extension; of two extensions of the same type the later one counts.
\<close>

datatype ext_spec =
    ServerName_ext "(byte \<times> bytes) list"
  | SupportedGroups_ext "16 word list"
  | ECPointFormats_ext bytes
  | SignatureAlgorithms_ext "16 word list"
  | UseSRTP_ext "16 word list" bytes
  | ALPN_ext "bytes list"
  | SupportedVersions_ext "16 word list"
  | KeyShare_ext "(16 word \<times> bytes) list"
  | QUICTransportParams_ext "(64 word \<times> bytes) list"
  | Other_ext "16 word" bytes

definition enc_names :: "(byte \<times> bytes) list \<Rightarrow> bytes" where
  "enc_names ns = concat (map (\<lambda>(t, n). t # enc_vec16 n) ns)"

definition enc_shares :: "(16 word \<times> bytes) list \<Rightarrow> bytes" where
  "enc_shares ks = concat (map (\<lambda>(g, k). enc16 g @ enc_vec16 k) ks)"

definition enc_params :: "(64 word \<times> bytes) list \<Rightarrow> bytes" where
  "enc_params ps = concat (map (\<lambda>(i, v). venc i @ venc (word_of_nat (length v)) @ v) ps)"

fun ext_wire :: "ext_spec \<Rightarrow> 16 word \<times> bytes" where
  "ext_wire (ServerName_ext ns) = (0, enc_vec16 (enc_names ns))"
| "ext_wire (SupportedGroups_ext gs) = (10, enc_vec16 (concat (map enc16 gs)))"
| "ext_wire (ECPointFormats_ext fs) = (11, enc_vec8 fs)"
| "ext_wire (SignatureAlgorithms_ext as) = (13, enc_vec16 (concat (map enc16 as)))"
| "ext_wire (UseSRTP_ext ps mki) = (14, enc_vec16 (concat (map enc16 ps)) @ enc_vec8 mki)"
| "ext_wire (ALPN_ext ps) = (16, enc_vec16 (concat (map enc_vec8 ps)))"
| "ext_wire (SupportedVersions_ext vs) = (43, enc_vec8 (concat (map enc16 vs)))"
| "ext_wire (KeyShare_ext ks) = (51, enc_vec16 (enc_shares ks))"
| "ext_wire (QUICTransportParams_ext ps) = (57, enc_params ps)"
| "ext_wire (Other_ext t b) = (t, b)"

fun ext_ok :: "ext_spec \<Rightarrow> bool" where
  "ext_ok (ALPN_ext ps) = list_all (\<lambda>p. length p < 256) ps"
| "ext_ok (QUICTransportParams_ext ps) = list_all (\<lambda>(i, v). unat i < 2 ^ 62) ps"
| "ext_ok (Other_ext t b) = (t \<notin> {0, 10, 11, 13, 14, 16, 43, 51, 57})"
| "ext_ok _ = True"

fun host_name :: "(byte \<times> bytes) list \<Rightarrow> bytes" where
  "host_name [] = []"
| "host_name ((t, n) # ns) = (if t = 0 then n else host_name ns)"

fun ext_effect :: "ext_spec \<Rightarrow> Hello \<Rightarrow> Hello" where
  "ext_effect (ServerName_ext ns) h = h\<lparr>h_ServerName := bytes_to_string (host_name ns)\<rparr>"
| "ext_effect (SupportedGroups_ext gs) h = h\<lparr>h_SupportedGroups := gs\<rparr>"
| "ext_effect (ECPointFormats_ext fs) h = h\<lparr>h_PointFormats := fs\<rparr>"
| "ext_effect (SignatureAlgorithms_ext as) h = h\<lparr>h_SignatureAlgorithms := as\<rparr>"
| "ext_effect (UseSRTP_ext ps mki) h = h\<lparr>h_UseSRTPProfiles := ps\<rparr>"
| "ext_effect (ALPN_ext ps) h = h\<lparr>h_ALPN := map bytes_to_string ps\<rparr>"
| "ext_effect (SupportedVersions_ext vs) h = h\<lparr>h_SupportedVersions := vs\<rparr>"
| "ext_effect (KeyShare_ext ks) h =
     h\<lparr>h_KeyShareGroups := map fst ks, h_KeyShareLengths := map (length \<circ> snd) ks\<rparr>"
| "ext_effect (QUICTransportParams_ext ps) h =
     h\<lparr>h_QUICTransportParams := map (\<lambda>(i, v). \<lparr>tp_ID = i, tp_Value = hex_EncodeToString v\<rparr>) ps\<rparr>"
| "ext_effect (Other_ext t b) h = h"

text \<open>The whole hello that has to be parsed from the message \<open>sp\<close> with the extensions \<open>es\<close>, of the given kind, record version
  and message sequence number, when its first extension is at offset \<open>p\<close> of the record \<open>raw\<close>.\<close>

definition hello_of ::
  "HelloKind \<Rightarrow> 16 word \<Rightarrow> 16 word \<Rightarrow> bytes \<Rightarrow> nat \<Rightarrow> hello_spec \<Rightarrow> ext_spec list \<Rightarrow> Hello" where
  "hello_of kind version seq raw p sp es = fold ext_effect es
     \<lparr>h_Kind = kind, h_RecordVersion = version, h_HelloVersion = s_version sp, h_MessageSeq = seq,
      h_Random = s_random sp, h_SessionIDLen = length (s_session sp),
      h_CookieLen = (if kind = HelloDTLSClient then length (s_cookie sp) else 0),
      h_CipherSuites = s_suites sp, h_CompressionMethods = s_compression sp,
      h_Extensions = place p (map ext_wire es), h_ServerName = [], h_SupportedGroups = [],
      h_SupportedVersions = [], h_KeyShareGroups = [], h_KeyShareLengths = [], h_PointFormats = [],
      h_SignatureAlgorithms = [], h_ALPN = [], h_QUICTransportParams = [], h_UseSRTPProfiles = [],
      h_Raw = raw\<rparr>"

section \<open>Reading the pieces back\<close>

lemma length_enc16 [simp]: "length (enc16 w) = 2"
  by (simp add: enc16_def)

lemma be_word_enc16 [simp]: "be_word (enc16 w) = w"
proof -
  have "unat w < 256 ^ 2" using unsigned_less [of w] by simp
  then show ?thesis by (simp add: enc16_def be_word_be_bytes)
qed

lemma uint16List_loop_enc16:
  "uint16List_loop (d @ concat (map enc16 ws)) (length d) vs = Inr (vs @ ws)"
proof (induction ws arbitrary: d vs)
  case Nil
  then show ?case by (simp add: uint16List_loop.simps)
next
  case (Cons w ws)
  have "uint16List_loop (d @ concat (map enc16 (w # ws))) (length d) vs
      = uint16List_loop ((d @ enc16 w) @ concat (map enc16 ws)) (length (d @ enc16 w)) (vs @ [w])"
    by (subst uint16List_loop.simps) simp
  then show ?case using Cons.IH [of "d @ enc16 w" "vs @ [w]"] by simp
qed

lemma uint16List_enc16 [simp]: "uint16List (concat (map enc16 ws)) = Inr ws"
  using uint16List_loop_enc16 [of "[]" ws "[]"] by (simp add: uint16List_def)

lemma unat_be_word16: "n < 65536 \<Longrightarrow> unat (be_word (be_bytes 2 n) :: 16 word) = n"
  by (simp add: unat_be_word be_nat_be_bytes)

lemma encode_exts_Cons [simp]:
  "encode_exts ((t, b) # es) = enc16 t @ be_bytes 2 (length b) @ b @ encode_exts es"
  by (simp add: encode_exts_def)

lemma encode_exts_Nil [simp]: "encode_exts [] = []"
  by (simp add: encode_exts_def)

lemma on_error_total:
  "no_panic m \<Longrightarrow> (\<And>a. m = Inr a \<Longrightarrow> \<exists>x. f a = Inr x) \<Longrightarrow> \<exists>x. on_error m (Inr v) f = Inr x"
  by (rule on_error_cases [of m "Inr v" f]) auto

lemma applyKnownExtension_total: "\<exists>h'. applyKnownExtension h t body = Inr h'"
proof -
  have "\<exists>x. parseServerName_loop body pos = Inr x" for body pos
  proof (induction body pos rule: parseServerName_loop.induct)
    case (1 body pos)
    then show ?case by (subst parseServerName_loop.simps) (auto simp: Let_def)
  qed
  moreover have "\<exists>x. parseKeyShare_loop body pos gs ls = Inr x" for body pos gs ls
  proof (induction body pos gs ls rule: parseKeyShare_loop.induct)
    case (1 body pos gs ls)
    then show ?case by (subst parseKeyShare_loop.simps) (auto simp: Let_def)
  qed
  moreover have "\<exists>x. parseALPN_loop body pos ps = Inr x" for body pos ps
  proof (induction body pos ps rule: parseALPN_loop.induct)
    case (1 body pos ps)
    then show ?case by (subst parseALPN_loop.simps) (auto simp: Let_def)
  qed
  moreover have "\<exists>x. uint16List_loop buf i vs = Inr x" for buf i vs
  proof (induction buf i vs rule: uint16List_loop.induct)
    case (1 buf i vs)
    then show ?case by (subst uint16List_loop.simps) auto
  qed
  moreover have "\<exists>x. ParseQUICTransportParams_loop r ps = Inr x" for r ps
  proof (induction r ps rule: ParseQUICTransportParams_loop.induct)
    case (1 r ps)
    then show ?case
      by (subst ParseQUICTransportParams_loop.simps) (auto intro!: on_error_total)
  qed
  ultimately show ?thesis
    unfolding applyKnownExtension_def parseALPN_def parseServerName_def parseKeyShare_def uint16List_def
      ParseQUICTransportParams_def Let_def
    by (auto simp: res_simps)
qed

text \<open>Whatever the extension bodies are, the extensions are found where they were written.\<close>

lemma parseExtensions_loop_encode:
  assumes "length d + length (encode_exts es) = e" "length (encode_exts es) < 65536"
  shows "\<exists>h'. parseExtensions_loop (cursor d (encode_exts es)) e h = Inr h'
     \<and> h_Extensions h' = h_Extensions h @ place (length d) es"
  using assms
proof (induction es arbitrary: d h)
  case Nil
  then show ?case by (simp add: parseExtensions_loop.simps)
next
  case (Cons x es)
  obtain t b where x: "x = (t, b)" by (cases x)
  have len: "length b < 65536" using Cons.prems(2) x by simp
  then have n: "be_word (be_bytes 2 (length b)) = (word_of_nat (length b) :: 16 word)"
    and un: "unat (word_of_nat (length b) :: 16 word) = length b"
    by (simp_all add: be_word_be_bytes unat_of_nat)
  let ?d = "d @ enc16 t @ be_bytes 2 (length b) @ b"
  obtain hk where hk: "applyKnownExtension (h\<lparr>h_Extensions := h_Extensions h
      @ [\<lparr>ext_Type = t, ext_Length = word_of_nat (length b), ext_Offset = length d\<rparr>]\<rparr>) t b = Inr hk"
    using applyKnownExtension_total by blast
  have "parseExtensions_loop (cursor d (encode_exts (x # es))) e h
      = parseExtensions_loop (cursor ?d (encode_exts es)) e hk"
    using Cons.prems x len hk
    by (subst parseExtensions_loop.simps)
      (simp add: u16_cursor rbytes_cursor n un maxReasonableHelloLength_def)
  moreover have "length ?d + length (encode_exts es) = e" "length (encode_exts es) < 65536"
    using Cons.prems x by simp_all
  moreover have "length ?d = length d + 4 + length b" by simp
  ultimately show ?case
    using Cons.IH [of ?d hk] applyKnownExtension_frame [OF hk] x by (simp only:) auto
qed

lemma parseExtensions_start:
  assumes "length x < 65536"
  shows "parseExtensions (cursor d (be_bytes 2 (length x) @ x)) h
    = parseExtensions_loop (cursor (d @ be_bytes 2 (length x)) x) (length d + 2 + length x) h"
proof -
  have "be_word (be_bytes 2 (length x)) = (word_of_nat (length x) :: 16 word)"
    "unat (word_of_nat (length x) :: 16 word) = length x"
    using assms by (simp_all add: be_word_be_bytes unat_of_nat)
  then show ?thesis by (simp add: parseExtensions_def u16_cursor Let_def)
qed

lemma parseExtensions_encode:
  assumes "length (encode_exts es) < 65536"
  shows "\<exists>h'. parseExtensions (cursor d (be_bytes 2 (length (encode_exts es)) @ encode_exts es)) h = Inr h'
     \<and> h_Extensions h' = h_Extensions h @ place (length d + 2) es"
  unfolding parseExtensions_start [OF assms]
  using parseExtensions_loop_encode [of "d @ be_bytes 2 (length (encode_exts es))" es _ h] assms by simp

text \<open>Each extension body is read back to its contents.\<close>

lemma slice_mid: "length a = i \<Longrightarrow> i + length m = j \<Longrightarrow> slice p (a @ m @ c) i j = Inr m"
  by (simp add: slice_def)

lemma be_nat_2: "n < 65536 \<Longrightarrow> be_nat (be_bytes 2 n) = n"
  by (simp add: be_nat_be_bytes)

lemma parseServerName_loop_encode:
  "length (enc_names ns) < 65536 \<Longrightarrow>
     parseServerName_loop (d @ enc_names ns) (length d) = Inr (bytes_to_string (host_name ns))"
proof (induction ns arbitrary: d)
  case Nil
  then show ?case by (simp add: enc_names_def parseServerName_loop.simps bytes_to_string_def)
next
  case (Cons x ns)
  obtain t n where x: "x = (t, n)" by (cases x)
  have len: "length n < 65536" "length (enc_names ns) < 65536"
    using Cons.prems x by (simp_all add: enc_names_def enc_vec16_def)
  let ?d = "d @ t # be_bytes 2 (length n)"
  define B where "B = d @ enc_names (x # ns)"
  have b: "B = ?d @ n @ enc_names ns"
    by (simp add: B_def x enc_names_def enc_vec16_def)
  have l: "length (?d @ n) = length d + 3 + length n" by simp
  have "slice Panic B (length d + 1) (length d + 3) = Inr (be_bytes 2 (length n))"
    using slice_mid [of "d @ [t]" "length d + 1" "be_bytes 2 (length n)" "length d + 3" Panic "n @ enc_names ns"] by (simp add: b)
  moreover have "slice Panic B (length d + 3) (length d + 3 + length n) = Inr n"
    unfolding b by (rule slice_mid) simp_all
  moreover have "parseServerName_loop B (length d + 3 + length n)
      = Inr (bytes_to_string (host_name ns))"
    using Cons.IH [OF len(2), of "?d @ n"] unfolding l by (simp only: b append_assoc)
  moreover have "at Panic B (length d) = Inr t" by (simp add: b nth_append)
  moreover have "length d + 3 + length n \<le> length B" by (simp add: b)
  ultimately have "parseServerName_loop B (length d) = Inr (bytes_to_string (host_name (x # ns)))"
    by (subst parseServerName_loop.simps) (simp add: be_nat_2 len(1) Let_def x)
  then show ?case by (simp add: B_def)
qed

lemma parseKeyShare_loop_encode:
  "length (enc_shares ks) < 65536 \<Longrightarrow>
     parseKeyShare_loop (d @ enc_shares ks) (length d) gs ls = Inr (gs @ map fst ks, ls @ map (length \<circ> snd) ks)"
proof (induction ks arbitrary: d gs ls)
  case Nil
  then show ?case by (simp add: enc_shares_def parseKeyShare_loop.simps)
next
  case (Cons x ks)
  obtain g k where x: "x = (g, k)" by (cases x)
  have len: "length k < 65536" "length (enc_shares ks) < 65536"
    using Cons.prems x by (simp_all add: enc_shares_def enc_vec16_def)
  let ?d = "d @ enc16 g @ be_bytes 2 (length k) @ k"
  have b: "d @ enc_shares (x # ks) = ?d @ enc_shares ks"
    by (simp add: x enc_shares_def enc_vec16_def)
  have l: "length ?d = length d + 4 + length k" by simp
  have "slice Panic (d @ enc_shares (x # ks)) (length d) (length d + 2) = Inr (enc16 g)"
    unfolding b append_assoc by (rule slice_mid) simp_all
  moreover have "slice Panic (d @ enc_shares (x # ks)) (length d + 2) (length d + 4) = Inr (be_bytes 2 (length k))"
    using slice_mid [of "d @ enc16 g" "length d + 2" "be_bytes 2 (length k)" "length d + 4" Panic "k @ enc_shares ks"] by (simp add: b)
  moreover have "parseKeyShare_loop (d @ enc_shares (x # ks)) (length d + 4 + length k) (gs @ [g]) (ls @ [length k])
      = Inr (gs @ g # map fst ks, ls @ length k # map (length \<circ> snd) ks)"
    using Cons.IH [OF len(2), of ?d "gs @ [g]" "ls @ [length k]"] unfolding l by (simp add: b)
  moreover have "length d + 4 + length k \<le> length (d @ enc_shares (x # ks))" by (simp add: b)
  ultimately show ?case
    by (subst parseKeyShare_loop.simps) (simp add: be_nat_2 len(1) Let_def x)
qed

lemma parseALPN_loop_encode:
  "list_all (\<lambda>p. length p < 256) ps \<Longrightarrow>
     parseALPN_loop (d @ concat (map enc_vec8 ps)) (length d) qs = Inr (qs @ map bytes_to_string ps)"
proof (induction ps arbitrary: d qs)
  case Nil
  then show ?case by (simp add: parseALPN_loop.simps)
next
  case (Cons p ps)
  have n: "unat (word_of_nat (length p) :: byte) = length p" using Cons.prems by (simp add: unat_of_nat)
  let ?d = "d @ [word_of_nat (length p)]"
  have b: "d @ concat (map enc_vec8 (p # ps)) = ?d @ p @ concat (map enc_vec8 ps)"
    by (simp add: enc_vec8_def)
  have "slice Panic (d @ concat (map enc_vec8 (p # ps))) (length d + 1) (length d + 1 + length p) = Inr p"
    unfolding b by (rule slice_mid) simp_all
  moreover have "parseALPN_loop (d @ concat (map enc_vec8 (p # ps))) (length d + 1 + length p) (qs @ [bytes_to_string p])
      = Inr (qs @ bytes_to_string p # map bytes_to_string ps)"
    unfolding b using Cons.IH [of "?d @ p" "qs @ [bytes_to_string p]"] Cons.prems by simp
  moreover have "at Panic (d @ concat (map enc_vec8 (p # ps))) (length d) = Inr (word_of_nat (length p))"
    unfolding b by (simp add: nth_append)
  moreover have "length d + 1 + length p \<le> length (d @ concat (map enc_vec8 (p # ps)))" "length d < length (d @ concat (map enc_vec8 (p # ps)))"
    by (simp_all add: enc_vec8_def)
  ultimately show ?case
    by (subst parseALPN_loop.simps) (simp add: n Let_def)
qed

lemma readQUICVarint_venc:
  assumes "unat i < 2 ^ 62"
  shows "readQUICVarint (cursor d (venc i @ rest)) = Inr (i, cursor (d @ venc i) rest)"
proof -
  obtain e where "\<And>b. Append b i = Inr (b @ e)" "\<And>d rest. readQUICVarint (cursor d (e @ rest)) = Inr (i, cursor (d @ e) rest)"
    using Append_encoding [OF assms] by metis
  then show ?thesis by (simp add: venc_def)
qed

lemma venc_not_Nil: "unat i < 2 ^ 62 \<Longrightarrow> venc i \<noteq> []"
  using venc_encoding(3) [of i] varint_size_width [of "unat i"] by auto

lemma ParseQUICTransportParams_loop_encode:
  "list_all (\<lambda>(i, v). unat i < 2 ^ 62) ps \<Longrightarrow> length (enc_params ps) < 65536 \<Longrightarrow>
     ParseQUICTransportParams_loop (cursor d (enc_params ps)) qs
       = Inr (qs @ map (\<lambda>(i, v). \<lparr>tp_ID = i, tp_Value = hex_EncodeToString v\<rparr>) ps)"
proof (induction ps arbitrary: d qs)
  case Nil
  then show ?case by (simp add: enc_params_def ParseQUICTransportParams_loop.simps)
next
  case (Cons x ps)
  obtain i v where x: "x = (i, v)" by (cases x)
  have e: "enc_params (x # ps) = venc i @ venc (word_of_nat (length v)) @ v @ enc_params ps"
    by (simp add: x enc_params_def)
  have len: "length v < 65536" "length (enc_params ps) < 65536" using Cons.prems(2) unfolding e by simp_all
  have n: "unat (word_of_nat (length v) :: 64 word) = length v" using len(1) by (simp add: unat_of_nat)
  have ok: "unat i < 2 ^ 62" "unat (word_of_nat (length v) :: 64 word) < 2 ^ 62"
    using Cons.prems(1) x len(1) n by simp_all
  have pos: "0 < remaining (cursor d (venc i @ rest))" for rest using venc_not_Nil [OF ok(1)] by (cases "venc i") simp_all
  let ?d = "d @ venc i @ venc (word_of_nat (length v)) @ v"
  have "ParseQUICTransportParams_loop (cursor d (enc_params (x # ps))) qs
      = ParseQUICTransportParams_loop (cursor ?d (enc_params ps)) (qs @ [\<lparr>tp_ID = i, tp_Value = hex_EncodeToString v\<rparr>])"
    unfolding e using pos [of "venc (word_of_nat (length v)) @ v @ enc_params ps"] len(1)
    by (subst ParseQUICTransportParams_loop.simps)
      (simp add: readQUICVarint_venc [OF ok(1)] readQUICVarint_venc [OF ok(2)] n rbytes_cursor maxReasonableHelloLength_def)
  then show ?case using Cons.IH [of ?d] Cons.prems(1) len(2) by (simp add: x)
qed

lemma applyKnownExtension_ext:
  assumes "ext_ok e" "length (snd (ext_wire e)) < 65536"
  shows "applyKnownExtension h (fst (ext_wire e)) (snd (ext_wire e)) = Inr (ext_effect e h)"
proof (cases e)
  case (ServerName_ext ns)
  then show ?thesis using assms(2) parseServerName_loop_encode [of ns "be_bytes 2 (length (enc_names ns))"]
    by (simp add: applyKnownExtension_def parseServerName_def enc_vec16_def)
next
  case (KeyShare_ext ks)
  then show ?thesis using assms(2) parseKeyShare_loop_encode [of ks "be_bytes 2 (length (enc_shares ks))" "[]" "[]"]
    by (simp add: applyKnownExtension_def parseKeyShare_def enc_vec16_def)
next
  case (ALPN_ext ps)
  then show ?thesis
    using assms parseALPN_loop_encode [of ps "be_bytes 2 (length (concat (map enc_vec8 ps)))" "[]"]
    by (simp add: applyKnownExtension_def parseALPN_def enc_vec16_def)
next
  case (QUICTransportParams_ext ps)
  then show ?thesis using assms ParseQUICTransportParams_loop_encode [of ps "[]" "[]"]
    by (simp add: applyKnownExtension_def ParseQUICTransportParams_def cursor_def)
next
  case (UseSRTP_ext ps mki)
  then show ?thesis using assms(2)
    by (simp add: applyKnownExtension_def enc_vec16_def be_nat_2)
next
  case (ECPointFormats_ext fs)
  then show ?thesis by (simp add: applyKnownExtension_def enc_vec8_def)
next
  case (SupportedVersions_ext vs)
  then show ?thesis by (simp add: applyKnownExtension_def enc_vec8_def)
next
  case (SupportedGroups_ext gs)
  then show ?thesis by (simp add: applyKnownExtension_def enc_vec16_def)
next
  case (SignatureAlgorithms_ext as)
  then show ?thesis by (simp add: applyKnownExtension_def enc_vec16_def)
next
  case (Other_ext t b)
  then show ?thesis using assms(1) by (simp add: applyKnownExtension_def)
qed

lemma ext_effect_Extensions:
  "ext_effect e (h\<lparr>h_Extensions := xs\<rparr>) = (ext_effect e h)\<lparr>h_Extensions := xs\<rparr>"
  "h_Extensions (ext_effect e h) = h_Extensions h"
  by (cases e; simp)+

lemma fold_ext_effect_Extensions:
  "fold ext_effect es (h\<lparr>h_Extensions := xs\<rparr>) = (fold ext_effect es h)\<lparr>h_Extensions := xs\<rparr>"
  by (induction es arbitrary: h) (simp_all add: ext_effect_Extensions)

lemma parseExtensions_loop_exts:
  assumes "length d + length (encode_exts (map ext_wire es)) = e" "length (encode_exts (map ext_wire es)) < 65536"
    and "list_all ext_ok es"
  shows "parseExtensions_loop (cursor d (encode_exts (map ext_wire es))) e h
    = Inr (fold ext_effect es (h\<lparr>h_Extensions := h_Extensions h @ place (length d) (map ext_wire es)\<rparr>))"
  using assms
proof (induction es arbitrary: d h)
  case Nil
  then show ?case by (simp add: parseExtensions_loop.simps)
next
  case (Cons x es)
  obtain t b where x: "ext_wire x = (t, b)" by (cases "ext_wire x")
  have len: "length b < 65536" using Cons.prems(2) x by simp
  then have n: "be_word (be_bytes 2 (length b)) = (word_of_nat (length b) :: 16 word)"
    and un: "unat (word_of_nat (length b) :: 16 word) = length b"
    by (simp_all add: be_word_be_bytes unat_of_nat)
  have known: "applyKnownExtension h t b = Inr (ext_effect x h)" for h
    using applyKnownExtension_ext [of x h] Cons.prems(3) x len by simp
  let ?d = "d @ enc16 t @ be_bytes 2 (length b) @ b"
  have l: "length ?d = length d + 4 + length b" by simp
  let ?e = "\<lparr>ext_Type = t, ext_Length = word_of_nat (length b), ext_Offset = length d\<rparr>"
  have "parseExtensions_loop (cursor d (encode_exts (map ext_wire (x # es)))) e h
      = parseExtensions_loop (cursor ?d (encode_exts (map ext_wire es))) e (ext_effect x (h\<lparr>h_Extensions := h_Extensions h @ [?e]\<rparr>))"
    using Cons.prems x len known
    by (subst parseExtensions_loop.simps)
      (simp add: u16_cursor rbytes_cursor n un maxReasonableHelloLength_def)
  also have "\<dots> = Inr (fold ext_effect es ((ext_effect x (h\<lparr>h_Extensions := h_Extensions h @ [?e]\<rparr>))
      \<lparr>h_Extensions := (h_Extensions h @ [?e]) @ place (length ?d) (map ext_wire es)\<rparr>))"
    using Cons.IH [of ?d "ext_effect x (h\<lparr>h_Extensions := h_Extensions h @ [?e]\<rparr>)"] Cons.prems x
    by (simp add: ext_effect_Extensions)
  also have "\<dots> = Inr (fold ext_effect (x # es) (h\<lparr>h_Extensions := h_Extensions h @ place (length d) (map ext_wire (x # es))\<rparr>))"
    unfolding l by (simp add: ext_effect_Extensions x)
  finally show ?case .
qed

lemma parseExtensions_exts:
  assumes "length (encode_exts (map ext_wire es)) < 65536" "list_all ext_ok es"
  shows "parseExtensions (cursor d (be_bytes 2 (length (encode_exts (map ext_wire es))) @ encode_exts (map ext_wire es))) h
    = Inr (fold ext_effect es (h\<lparr>h_Extensions := h_Extensions h @ place (length d + 2) (map ext_wire es)\<rparr>))"
  unfolding parseExtensions_start [OF assms(1)]
  using parseExtensions_loop_exts [of "d @ be_bytes 2 (length (encode_exts (map ext_wire es)))" es _ h] assms by simp

text \<open>Everything up to the compression methods is read back, whatever follows.\<close>

definition head_fields :: "Hello \<Rightarrow> bool \<Rightarrow> hello_spec \<Rightarrow> Hello" where
  "head_fields h dtls sp =
     h\<lparr>h_HelloVersion := s_version sp, h_Random := s_random sp, h_SessionIDLen := length (s_session sp),
       h_CookieLen := (if dtls then length (s_cookie sp) else h_CookieLen h),
       h_CipherSuites := s_suites sp, h_CompressionMethods := s_compression sp\<rparr>"

lemma parseHelloBody_head:
  assumes "well_formed sp"
  shows "parseHelloBody (cursor d (hello_head dtls sp @ rest)) h dtls True
    = parseExtensions (cursor (d @ hello_head dtls sp) rest) (head_fields h dtls sp)"
proof -
  have len8: "length b < 256 \<Longrightarrow> unat (word_of_nat (length b) :: byte) = length b" for b :: bytes
    by (simp add: unat_of_nat)
  have small: "n < 65536 \<Longrightarrow> n \<le> maxReasonableHelloLength" for n
    by (simp add: maxReasonableHelloLength_def)
  have suites: "unat (be_word (be_bytes 2 (2 * length (s_suites sp))) :: 16 word) = 2 * length (s_suites sp)"
    using assms by (intro unat_be_word16) (simp add: well_formed_def)
  have slen: "length (concat (map enc16 ws)) = 2 * length ws" for ws
    by (induction ws) simp_all
  note wf = assms [unfolded well_formed_def]
  have lens: "length (s_random sp) = helloRandomLen" "helloRandomLen \<le> maxReasonableHelloLength"
    "length (s_session sp) \<le> maxReasonableHelloLength" "length (s_cookie sp) \<le> maxReasonableHelloLength"
    "2 * length (s_suites sp) \<le> maxReasonableHelloLength" "length (s_compression sp) \<le> maxReasonableHelloLength"
    using wf by (simp_all add: small)
  show ?thesis
  proof (cases dtls)
    case True
    then show ?thesis using wf lens
      by (simp add: parseHelloBody_def hello_head_def enc_vec8_def head_fields_def u8_cursor u16_cursor
          rbytes_cursor skip_cursor len8 slen suites)
  next
    case False
    then show ?thesis using wf lens
      by (simp add: parseHelloBody_def hello_head_def enc_vec8_def head_fields_def u8_cursor u16_cursor
          rbytes_cursor skip_cursor len8 slen suites)
  qed
qed

section \<open>Whole records\<close>

lemma ParseHello_tls:
  "ParseHello (tls_header minor n @ body) =
     parseHelloBody (cursor (tls_header minor n) body)
       (new_Hello (be_word [3, minor]) (tls_header minor n @ body)\<lparr>h_Kind := HelloTLSClient\<rparr>) False True"
proof -
  let ?rec = "tls_header minor n @ body"
  have "unat (be_word [3, minor] :: 16 word) < 1024"
    by (simp add: unat_be_word be_nat_Cons)
  then have v: "be_word [3, minor] \<noteq> versionDTLS10" "be_word [3, minor] \<noteq> versionDTLS12"
    by auto
  have r0: "\<lparr>r_buf = ?rec, r_pos = tlsRecordHeaderLen\<rparr> =
      cursor ([contentTypeHandshake, 3, minor] @ be_bytes 2 (4 + n))
        (handshakeClientHello # be_bytes 3 n @ body)"
    by (simp add: cursor_def tls_header_def)
  have "at Panic ?rec 0 = Inr contentTypeHandshake" "slice Panic ?rec 1 3 = Inr [3, minor]"
    "tlsRecordHeaderLen + 1 \<le> length ?rec"
    by (simp_all add: tls_header_def)
  then show ?thesis
    by (simp add: ParseHello_def v r0 u8_cursor u24_cursor Let_def) (simp add: tls_header_def)
qed

lemma appendUint24_bytes:
  assumes "n < 2 ^ 24"
  shows "appendUint24 dst (word_of_nat n) = dst @ be_bytes 3 n"
  using assms
  by (simp add: appendUint24_def be_bytes_numeral word_unat_eq_iff unsigned_ucast_eq unat_drop_bit_eq
      take_bit_nat_def drop_bit_nat_def unat_of_nat div_mult2_eq [symmetric])

lemma appendUint16_bytes: "appendUint16 dst w = dst @ enc16 w"
  by (simp add: appendUint16_def enc16_def be_bytes_numeral word_unat_eq_iff unsigned_ucast_eq
      unat_drop_bit_eq take_bit_nat_def drop_bit_nat_def unat_of_nat)

definition dtls_head :: "DTLSFragment \<Rightarrow> bytes \<Rightarrow> bytes" where
  "dtls_head f body =
     [contentTypeHandshake, 0xfe, 0xfd, 0, 0, 0, 0, 0, 0, 0, 0]
     @ enc16 (word_of_nat (dtlsHandshakeHeaderLen + length body))"

lemma Reassemble_bytes:
  assumes "length body < 2 ^ 24"
  shows "Reassemble f body = dtls_head f body @ f_MessageType f # be_bytes 3 (length body)
    @ enc16 (f_MessageSeq f) @ be_bytes 3 0 @ be_bytes 3 (length body) @ body"
  using appendUint24_bytes [OF assms] appendUint24_bytes [of 0]
  by (simp add: Reassemble_def Let_def appendUint16_bytes dtls_head_def)

lemma be_word24: "n < 2 ^ 24 \<Longrightarrow> be_word (be_bytes 3 n) = (word_of_nat n :: 32 word)"
  by (simp add: be_word_be_bytes)

lemma ParseHello_dtls:
  assumes "length body < 2 ^ 24" "f_MessageType f = handshakeClientHello"
  shows "ParseHello (Reassemble f body) =
     parseHelloBody (cursor (take 25 (Reassemble f body)) body)
       (new_Hello versionDTLS12 (Reassemble f body)\<lparr>h_MessageSeq := f_MessageSeq f, h_Kind := HelloDTLSClient\<rparr>)
       True True"
proof -
  let ?rec = "Reassemble f body"
  have len: "length (dtls_head f body) = dtlsRecordHeaderLen" by (simp add: dtls_head_def)
  note R = Reassemble_bytes [OF assms(1), of f]
  have "at Panic ?rec 0 = Inr contentTypeHandshake" "slice Panic ?rec 1 3 = Inr [0xfe, 0xfd]"
    "dtlsRecordHeaderLen + 1 \<le> length ?rec"
    by (simp_all add: R dtls_head_def)
  moreover have "be_word [0xfe, 0xfd] = versionDTLS12"
    by (simp add: word_unat_eq_iff unat_be_word be_nat_Cons)
  moreover have "\<lparr>r_buf = ?rec, r_pos = dtlsRecordHeaderLen\<rparr> =
      cursor (dtls_head f body) (f_MessageType f # be_bytes 3 (length body)
    @ enc16 (f_MessageSeq f) @ be_bytes 3 0 @ be_bytes 3 (length body) @ body)"
    by (simp add: cursor_def R len)
  moreover have "take 25 ?rec = dtls_head f body @ f_MessageType f # be_bytes 3 (length body)
    @ enc16 (f_MessageSeq f) @ be_bytes 3 0 @ be_bytes 3 (length body)"
    by (simp add: R len)
  ultimately show ?thesis
    using assms be_word24 [of 0]
    by (simp add: ParseHello_def u8_cursor u16_cursor u24_cursor Let_def be_word24)
qed

lemma ParseHello_tls_extensions:
  assumes "well_formed sp"
  shows "ParseHello (tls_record minor (client_hello_body False sp)) =
    parseExtensions (cursor (tls_header minor (length (client_hello_body False sp)) @ hello_head False sp)
        (be_bytes 2 (length (encode_exts (s_exts sp))) @ encode_exts (s_exts sp)))
      (head_fields (new_Hello (be_word [3, minor]) (tls_record minor (client_hello_body False sp))
         \<lparr>h_Kind := HelloTLSClient\<rparr>) False sp)"
  unfolding tls_record_def ParseHello_tls
  by (simp add: client_hello_body_def parseHelloBody_head assms)

lemma tls_client_hello_parses:
  assumes "well_formed sp"
  shows "\<exists>h. ParseHello (tls_record minor (client_hello_body False sp)) = Inr h"
  unfolding ParseHello_tls_extensions [OF assms]
  using parseExtensions_encode [of "s_exts sp"] assms by (auto simp: well_formed_def)

definition sample_exts :: "ext_spec list" where
  "sample_exts = [Other_ext 0x0017 [], ServerName_ext [(0, [97, 46, 98])], SupportedGroups_ext [29], ALPN_ext [[104, 50]],
     KeyShare_ext [(29, [1, 2])], SupportedVersions_ext [0x0304]]"

definition sample_spec :: hello_spec where
  "sample_spec = \<lparr>s_version = 0x0303, s_random = replicate 32 7, s_session = [1, 2], s_cookie = [],
     s_suites = [0x1301, 0x1302], s_compression = [0], s_exts = map ext_wire sample_exts\<rparr>"

lemma sample_spec_well_formed: "well_formed sample_spec"
  by (simp add: sample_spec_def sample_exts_def well_formed_def enc_vec16_def enc_vec8_def enc_names_def enc_shares_def)

lemma sample_exts_ok: "s_exts sample_spec = map ext_wire sample_exts" "list_all ext_ok sample_exts"
  by (simp_all add: sample_spec_def sample_exts_def)

section \<open>Properties\<close>

text \<open>C23: No input makes the hello parser panic. For every byte string, \<open>ParseHello\<close> and
  \<open>ParseDTLSFragment\<close> either succeed or return one of the package's error values: no index and no
  slice expression of the record, the body or any extension parser is ever out of range.\<close>

theorem hello_parsers_never_panic:
  "ParseHello record \<noteq> Inl (Panic p) \<and> ParseDTLSFragment record \<noteq> Inl (Panic p)"
  using no_panic_ParseHello [of "record"] no_panic_ParseDTLSFragment [of "record"]
  unfolding no_panic_iff by blast

text \<open>C25: The recorded offsets are true. Whenever \<open>ParseHello\<close> succeeds, the extensions it reports lie
  back to back inside the record: at each reported offset the record holds the reported type and
  length, and the body that follows is inside the record.\<close>

theorem ParseHello_offsets:
  assumes "ParseHello record = Inr h"
  shows "h_Raw h = record \<and> (\<exists>p q. chained record p (h_Extensions h) q \<and> q \<le> length record)"
proof -
  from assms obtain r h0 d c where body: "parseHelloBody r h0 d c = Inr h"
    and "h_Extensions h0 = []" "h_Raw h0 = record" "r_buf r = record"
    unfolding ParseHello_def Let_def
    by (fastforce simp: res_simps new_Hello_def dest: read_moves split: if_splits)
  with parseHelloBody_chained [OF body] show ?thesis by auto
qed

theorem ParseHello_offsets_witness:
  "\<exists>h. ParseHello (tls_record 1 (client_hello_body False sample_spec)) = Inr h
    \<and> h_Raw h = tls_record 1 (client_hello_body False sample_spec)
    \<and> (\<exists>p q. chained (tls_record 1 (client_hello_body False sample_spec)) p (h_Extensions h) q
         \<and> q \<le> length (tls_record 1 (client_hello_body False sample_spec)))"
proof -
  obtain h where "ParseHello (tls_record 1 (client_hello_body False sample_spec)) = Inr h"
    using tls_client_hello_parses [OF sample_spec_well_formed] by blast
  then show ?thesis using ParseHello_offsets by blast
qed

text \<open>C22: \<open>ParseHello\<close> reads a TLS ClientHello back. For every well-formed ClientHello, encoded as RFC 8446
  lays it out, the parse succeeds, and every field of the hello it returns is the right one: the kind, the record version, the
  version, the random, the length of the session identifier, the cipher suites, the compression methods, every extension with its type,
  its length and its offset from the start of the record, and the contents of the extensions the parser knows:
  the host name, the groups, the point formats, the signature algorithms, the SRTP profiles, the ALPN protocols, the
  versions, the groups and lengths of the key shares, and the QUIC transport parameters.\<close>

theorem ParseHello_tls_roundtrip:
  assumes "well_formed sp" "s_exts sp = map ext_wire es" "list_all ext_ok es"
  shows "ParseHello (tls_record minor (client_hello_body False sp)) =
    Inr (hello_of HelloTLSClient (be_word [3, minor]) 0 (tls_record minor (client_hello_body False sp))
      (length (hello_head False sp) + 11) sp es)"
proof -
  have "length (encode_exts (map ext_wire es)) < 65536" using assms(1,2) by (simp add: well_formed_def)
  from parseExtensions_exts [OF this assms(3)] show ?thesis
    unfolding ParseHello_tls_extensions [OF assms(1)] assms(2)
    by (simp add: hello_of_def head_fields_def new_Hello_def add.commute)
qed

theorem ParseHello_tls_roundtrip_witness:
  "\<exists>h. ParseHello (tls_record 1 (client_hello_body False sample_spec)) = Inr h
    \<and> h_ServerName h = ''a.b'' \<and> h_SupportedGroups h = [29] \<and> h_ALPN h = [''h2''] \<and> h_SupportedVersions h = [0x0304]
    \<and> h_KeyShareGroups h = [29] \<and> h_KeyShareLengths h = [2] \<and> h_CipherSuites h = [0x1301, 0x1302]"
  unfolding ParseHello_tls_roundtrip [OF sample_spec_well_formed sample_exts_ok, of 1]
  by (simp add: hello_of_def sample_exts_def sample_spec_def bytes_to_string_def char_of_def bit_0)

text \<open>C24: A DTLS ClientHello survives reassembly. The record that \<open>Reassemble\<close> builds around the body of a
  well-formed DTLS ClientHello is accepted by \<open>ParseHello\<close> as an unfragmented message, and every field of the parsed hello is
  the right one: those of the ClientHello, the length of its cookie and the contents of its known extensions included, and the
  message sequence number of the fragment.\<close>

theorem ParseHello_Reassemble:
  assumes "well_formed sp" "s_exts sp = map ext_wire es" "list_all ext_ok es" "f_MessageType f = handshakeClientHello"
  shows "ParseHello (Reassemble f (client_hello_body True sp)) =
    Inr (hello_of HelloDTLSClient versionDTLS12 (f_MessageSeq f) (Reassemble f (client_hello_body True sp))
      (length (hello_head True sp) + 27) sp es)"
proof -
  let ?body = "client_hello_body True sp" and ?rec = "Reassemble f (client_hello_body True sp)"
  let ?d = "take 25 ?rec @ hello_head True sp"
  let ?h = "new_Hello versionDTLS12 ?rec\<lparr>h_MessageSeq := f_MessageSeq f, h_Kind := HelloDTLSClient\<rparr>"
  have slen: "length (concat (map enc16 ws)) = 2 * length ws" for ws
    by (induction ws) simp_all
  have small: "length ?body < 2 ^ 24"
    using assms(1) by (simp add: client_hello_body_def hello_head_def well_formed_def enc_vec8_def slen)
  then have "25 \<le> length ?rec" by (simp add: Reassemble_bytes dtls_head_def)
  then have len: "length ?d + 2 = length (hello_head True sp) + 27" by simp
  have "ParseHello ?rec = parseHelloBody (cursor (take 25 ?rec) ?body) ?h True True"
    using small assms(4) by (rule ParseHello_dtls)
  also have "\<dots> = parseExtensions (cursor ?d (be_bytes 2 (length (encode_exts (s_exts sp)))
      @ encode_exts (s_exts sp))) (head_fields ?h True sp)"
    unfolding client_hello_body_def by (rule parseHelloBody_head [OF assms(1)])
  also have "\<dots> = Inr (hello_of HelloDTLSClient versionDTLS12 (f_MessageSeq f) ?rec (length ?d + 2) sp es)"
  proof -
    have "length (encode_exts (map ext_wire es)) < 65536" using assms(1,2) by (simp add: well_formed_def)
    from parseExtensions_exts [OF this assms(3)] show ?thesis
      unfolding assms(2) by (simp add: hello_of_def head_fields_def new_Hello_def)
  qed
  finally show ?thesis unfolding len .
qed

definition sample_fragment :: DTLSFragment where
  "sample_fragment = \<lparr>f_MessageType = handshakeClientHello, f_MessageSeq = 1, f_Length = 0, f_Offset = 0,
     f_FragmentLen = 0, f_Body = []\<rparr>"

lemma sample_fragment_type: "f_MessageType sample_fragment = handshakeClientHello"
  by (simp add: sample_fragment_def)

theorem ParseHello_Reassemble_witness:
  "\<exists>h. ParseHello (Reassemble sample_fragment (client_hello_body True sample_spec)) = Inr h
    \<and> h_MessageSeq h = 1 \<and> h_ServerName h = ''a.b'' \<and> h_KeyShareLengths h = [2] \<and> h_CipherSuites h = [0x1301, 0x1302]"
  unfolding ParseHello_Reassemble [OF sample_spec_well_formed sample_exts_ok sample_fragment_type]
  by (simp add: sample_fragment_def hello_of_def sample_exts_def sample_spec_def bytes_to_string_def char_of_def bit_0)

text \<open>\<open>Reassemble\<close> is inverse to \<open>ParseDTLSFragment\<close>: the record built around a complete body of at
  most 65536 bytes parses as one fragment that starts at offset 0, covers the whole message and carries
  exactly that body, with the message type and sequence number of the fragment it was built from.\<close>

theorem ParseDTLSFragment_Reassemble:
  assumes "length body \<le> 65536"
  shows "ParseDTLSFragment (Reassemble f body) =
    Inr \<lparr>f_MessageType = f_MessageType f, f_MessageSeq = f_MessageSeq f,
         f_Length = word_of_nat (length body), f_Offset = 0,
         f_FragmentLen = word_of_nat (length body), f_Body = body\<rparr>"
proof -
  let ?rec = "Reassemble f body"
  have small: "length body < 2 ^ 24" using assms by simp
  note R = Reassemble_bytes [OF small, of f]
  have len: "length (dtls_head f body) = dtlsRecordHeaderLen" by (simp add: dtls_head_def)
  have un: "unat (word_of_nat (length body) :: 32 word) = length body"
    using small by (simp add: unat_of_nat)
  have "at Panic ?rec 0 = Inr contentTypeHandshake" "slice Panic ?rec 1 3 = Inr [0xfe, 0xfd]"
    "dtlsRecordHeaderLen + dtlsHandshakeHeaderLen \<le> length ?rec"
    by (simp_all add: R dtls_head_def)
  moreover have "be_word [0xfe, 0xfd] = versionDTLS12"
    by (simp add: word_unat_eq_iff unat_be_word be_nat_Cons)
  moreover have "\<lparr>r_buf = ?rec, r_pos = dtlsRecordHeaderLen\<rparr> =
      cursor (dtls_head f body) (f_MessageType f # be_bytes 3 (length body)
    @ enc16 (f_MessageSeq f) @ be_bytes 3 0 @ be_bytes 3 (length body) @ body @ [])"
    by (simp add: cursor_def R len)
  ultimately show ?thesis
    using assms be_word24 [of 0] be_word24 [OF small]
    by (simp add: ParseDTLSFragment_def u8_cursor u16_cursor u24_cursor
        rbytes_cursor [where bs = "[]"] Let_def un maxReasonableHelloLength_def del: append_Nil2)
qed

theorem ParseDTLSFragment_Reassemble_witness:
  "ParseDTLSFragment (Reassemble sample_fragment [5, 6, 7]) =
    Inr \<lparr>f_MessageType = 1, f_MessageSeq = 1, f_Length = 3, f_Offset = 0, f_FragmentLen = 3,
         f_Body = [5, 6, 7]\<rparr>"
  using ParseDTLSFragment_Reassemble [of "[5, 6, 7]" sample_fragment]
  by (simp add: sample_fragment_def)

text \<open>C26: A cut ClientHello is accepted. \<open>ParseHello\<close> reads the handshake length of a TLS record and never
  compares it with the bytes it has: when the input stops exactly after the compression methods, the
  parse succeeds and reports a hello with no extensions, although the record announces more bytes.
  (\<open>AssembleTCP\<close> retries a parse only on an error, so a TCP segment boundary at that byte makes it
  report the cut hello for the flow.)\<close>

theorem ParseHello_accepts_cut_hello:
  assumes "well_formed sp"
  shows "\<exists>h. ParseHello (take (9 + length (hello_head False sp)) (tls_record minor (client_hello_body False sp))) = Inr h
    \<and> h_Extensions h = [] \<and> h_CipherSuites h = s_suites sp
    \<and> 9 + length (hello_head False sp) < length (tls_record minor (client_hello_body False sp))"
proof -
  let ?n = "length (client_hello_body False sp)"
  have "take (9 + length (hello_head False sp)) (tls_record minor (client_hello_body False sp))
      = tls_header minor ?n @ hello_head False sp @ []"
    by (simp add: tls_record_def client_hello_body_def)
  moreover have "\<exists>h. ParseHello (tls_header minor ?n @ hello_head False sp @ []) = Inr h
      \<and> h_Extensions h = [] \<and> h_CipherSuites h = s_suites sp"
    unfolding ParseHello_tls parseHelloBody_head [OF assms]
    by (simp add: parseExtensions_def) (simp add: head_fields_def new_Hello_def)
  ultimately show ?thesis by (simp add: tls_record_def client_hello_body_def)
qed

theorem ParseHello_accepts_cut_hello_witness:
  "\<exists>h. ParseHello (take (9 + length (hello_head False sample_spec))
        (tls_record 1 (client_hello_body False sample_spec))) = Inr h
    \<and> h_Extensions h = [] \<and> h_CipherSuites h = s_suites sample_spec
    \<and> 9 + length (hello_head False sample_spec) < length (tls_record 1 (client_hello_body False sample_spec))"
  by (rule ParseHello_accepts_cut_hello) (rule sample_spec_well_formed)

end
