(* ===== verification/Wire_Fingerprint.thy ===== *)
theory Wire_Fingerprint
  imports Wire_Hello_Spec
begin

text \<open>
  The JA3 and JA4 fingerprints the capture tool prints, \<open>stand/internal/wire/ja3.go\<close> and
  \<open>ja4.go\<close>. The hash functions are parameters (\<open>md5\<close>, \<open>sha256\<close>: a byte string to a byte
  string); nothing is assumed of them. \<open>JA4\<close> indexes the first ALPN name, so its result is an
  error result.
\<close>

section \<open>JA3\<close>

definition IsGREASE :: "16 word \<Rightarrow> bool" where
  "IsGREASE value = (value AND 0x0f0f = 0x0a0a \<and> drop_bit 8 value = value AND 0xff)"

fun WithoutGREASE :: "16 word list \<Rightarrow> 16 word list" where
  "WithoutGREASE [] = []"
| "WithoutGREASE (v # vs) = (if \<not> IsGREASE v then v # WithoutGREASE vs else WithoutGREASE vs)"

definition joinUint16 :: "16 word list \<Rightarrow> string" where
  "joinUint16 vs = strings_Join ''-'' (map (\<lambda>v. strconv_Itoa (unat v)) vs)"

definition joinUint8 :: "8 word list \<Rightarrow> string" where
  "joinUint8 vs = strings_Join ''-'' (map (\<lambda>v. strconv_Itoa (unat v)) vs)"

definition JA3 :: "Hello \<Rightarrow> string" where
  "JA3 h = strings_Join '',''
     [strconv_Itoa (unat (h_HelloVersion h)),
      joinUint16 (WithoutGREASE (h_CipherSuites h)),
      joinUint16 (WithoutGREASE (ExtensionTypes h)),
      joinUint16 (WithoutGREASE (h_SupportedGroups h)),
      joinUint8 (h_PointFormats h)]"

definition JA3Hash :: "(bytes \<Rightarrow> bytes) \<Rightarrow> Hello \<Rightarrow> string" where
  "JA3Hash md5 h = hex_EncodeToString (md5 (string_to_bytes (JA3 h)))"

section \<open>JA4\<close>

definition ja4Versions :: "16 word \<Rightarrow> string option" where
  "ja4Versions v =
     (if v = 0x0304 then Some ''13'' else if v = 0x0303 then Some ''12''
      else if v = 0x0302 then Some ''11'' else if v = 0x0301 then Some ''10'' else None)"

fun ja4_version :: "16 word \<Rightarrow> 16 word list \<Rightarrow> 16 word" where
  "ja4_version version [] = version"
| "ja4_version version (offered # vs) =
     ja4_version (if \<not> IsGREASE offered \<and> offered > version then offered else version) vs"

text \<open>\<open>fmt.Sprintf("%04x", value)\<close>\<close>

definition hex4 :: "16 word \<Rightarrow> string" where
  "hex4 w = (let n = unat w in
     [hex_char (n div 4096), hex_char (n div 256 mod 16), hex_char (n div 16 mod 16), hex_char (n mod 16)])"

definition hexList :: "16 word list \<Rightarrow> string list" where
  "hexList vs = map hex4 vs"

definition ja4Hash :: "(bytes \<Rightarrow> bytes) \<Rightarrow> string \<Rightarrow> string" where
  "ja4Hash sha256 v =
     (if v = [] \<or> v = ''_'' then replicate 12 (CHR ''0'')
      else take 12 (hex_EncodeToString (sha256 (string_to_bytes v))))"

text \<open>\<open>string(b)\<close> of a byte \<open>b\<close> is the UTF-8 encoding of the code point \<open>b\<close>.\<close>

definition byte_string :: "char \<Rightarrow> string" where
  "byte_string c = (let n = of_char c :: nat in
     if n < 128 then [c] else [char_of (192 + n div 64), char_of (128 + n mod 64)])"

text \<open>\<open>fmt.Sprintf("%02d", n)\<close> for \<open>n \<le> 99\<close>\<close>

definition dec2 :: "nat \<Rightarrow> string" where
  "dec2 n = (if n < 10 then ''0'' @ strconv_Itoa n else strconv_Itoa n)"

definition ja4_alpnCode :: "string list \<Rightarrow> string res" where
  "ja4_alpnCode alpn =
     (if length alpn > 0 then
        rbind (at Panic alpn 0) (\<lambda>first.
        rbind (at Panic first 0) (\<lambda>a.
        rbind (at Panic first (length first - 1)) (\<lambda>z. Inr (byte_string a @ byte_string z))))
      else Inr ''00'')"

definition JA4 :: "(bytes \<Rightarrow> bytes) \<Rightarrow> Hello \<Rightarrow> string res" where
  "JA4 sha256 h =
     (if IsDTLS h then Inr []
      else
        let transport = (if length (h_QUICTransportParams h) > 0 then ''q'' else ''t'');
            version = ja4_version (h_HelloVersion h) (h_SupportedVersions h);
            versionCode = (case ja4Versions version of None \<Rightarrow> ''00'' | Some c \<Rightarrow> c);
            serverNameCode = (if h_ServerName h \<noteq> [] then ''d'' else ''i'')
        in rbind (ja4_alpnCode (h_ALPN h)) (\<lambda>alpnCode.
        let suites = sort (hexList (WithoutGREASE (h_CipherSuites h)));
            extensions = hexList (WithoutGREASE (ExtensionTypes h));
            hashed = sort (filter (\<lambda>e. \<not> (e = ''0000'' \<or> e = ''0010'')) extensions);
            signatures = hexList (h_SignatureAlgorithms h)
        in Inr (transport @ versionCode @ serverNameCode
                @ dec2 (min (length suites) 99) @ dec2 (min (length extensions) 99) @ alpnCode
                @ ''_'' @ ja4Hash sha256 (strings_Join '','' suites)
                @ ''_'' @ ja4Hash sha256 (strings_Join '','' hashed @ ''_'' @ strings_Join '','' signatures))))"

section \<open>Lemmas\<close>

lemma WithoutGREASE_filter: "WithoutGREASE vs = filter (\<lambda>v. \<not> IsGREASE v) vs"
  by (induction vs) simp_all

lemma strconv_Itoa_no_sep:
  "CHR ''-'' \<notin> set (strconv_Itoa n)" "CHR '','' \<notin> set (strconv_Itoa n)"
  using strconv_Itoa_digits [of "CHR ''-''" n] strconv_Itoa_digits [of "CHR '',''" n] by auto

lemma join_decimals_inject:
  fixes f :: "'a \<Rightarrow> nat"
  assumes "inj f"
    and "strings_Join ''-'' (map (\<lambda>v. strconv_Itoa (f v)) vs) = strings_Join ''-'' (map (\<lambda>v. strconv_Itoa (f v)) ws)"
  shows "vs = ws"
proof -
  have "map (\<lambda>v. strconv_Itoa (f v)) vs = map (\<lambda>v. strconv_Itoa (f v)) ws"
    by (rule strings_Join_inject [OF _ _ _ assms(2)]) (auto simp: strconv_Itoa_no_sep)
  moreover have "inj (\<lambda>v. strconv_Itoa (f v))"
    using assms(1) by (auto simp: inj_on_def strconv_Itoa_inject)
  ultimately show ?thesis by (simp add: inj_map_eq_map)
qed

lemma inj_unat: "inj (unat :: 'a::len word \<Rightarrow> nat)"
  by (simp add: inj_on_def word_unat_eq_iff)

lemma joinUint16_inject: "joinUint16 vs = joinUint16 ws \<longleftrightarrow> vs = ws"
  using join_decimals_inject [OF inj_unat] by (auto simp: joinUint16_def)

lemma joinUint8_inject: "joinUint8 vs = joinUint8 ws \<longleftrightarrow> vs = ws"
  using join_decimals_inject [OF inj_unat] by (auto simp: joinUint8_def)

lemma join_no_comma:
  "CHR '','' \<notin> set (joinUint16 vs)" "CHR '','' \<notin> set (joinUint8 ws)"
  using set_strings_Join_subset [of "''-''" "map (\<lambda>v. strconv_Itoa (unat v)) vs"]
    set_strings_Join_subset [of "''-''" "map (\<lambda>v. strconv_Itoa (unat v)) ws"]
  by (auto simp: joinUint16_def joinUint8_def strconv_Itoa_no_sep)

lemma sort_cong_mset: "mset xs = mset ys \<Longrightarrow> sort xs = sort ys"
  by (rule properties_for_sort) simp_all

lemma mset_WithoutGREASE: "mset xs = mset ys \<Longrightarrow> mset (WithoutGREASE xs) = mset (WithoutGREASE ys)"
  by (simp add: WithoutGREASE_filter)

lemma mset_eq_length_hexList:
  "mset xs = mset ys \<Longrightarrow> length (hexList (WithoutGREASE xs)) = length (hexList (WithoutGREASE ys))"
  unfolding hexList_def length_map by (rule mset_eq_length [OF mset_WithoutGREASE])

section \<open>Properties\<close>

text \<open>C38: JA4 does not see order. Two hellos that differ only in the order of their cipher suites and of
  their extensions have the same JA4 fingerprint, for every hash function: this is why a client that
  permutes its extensions on every connection keeps one JA4.\<close>

theorem JA4_permutation_invariant:
  assumes "h_Kind h = h_Kind h'" "h_HelloVersion h = h_HelloVersion h'"
    "h_SupportedVersions h = h_SupportedVersions h'" "h_ServerName h = h_ServerName h'"
    "h_ALPN h = h_ALPN h'" "h_SignatureAlgorithms h = h_SignatureAlgorithms h'"
    "length (h_QUICTransportParams h) = length (h_QUICTransportParams h')"
    "mset (h_CipherSuites h) = mset (h_CipherSuites h')"
    "mset (ExtensionTypes h) = mset (ExtensionTypes h')"
  shows "JA4 sha256 h = JA4 sha256 h'"
proof -
  have hex: "mset (hexList (WithoutGREASE xs)) = mset (hexList (WithoutGREASE ys))"
    if "mset xs = mset ys" for xs ys
    using mset_WithoutGREASE [OF that] by (simp add: hexList_def)
  have "sort (hexList (WithoutGREASE (h_CipherSuites h))) = sort (hexList (WithoutGREASE (h_CipherSuites h')))"
    using hex [OF assms(8)] by (rule sort_cong_mset)
  moreover have "sort (filter P (hexList (WithoutGREASE (ExtensionTypes h))))
      = sort (filter P (hexList (WithoutGREASE (ExtensionTypes h'))))" for P
    using hex [OF assms(9)] by (intro sort_cong_mset) simp
  moreover have "length (hexList (WithoutGREASE (ExtensionTypes h))) = length (hexList (WithoutGREASE (ExtensionTypes h')))"
    using assms(9) by (rule mset_eq_length_hexList)
  moreover have "(0 < length (h_QUICTransportParams h)) = (0 < length (h_QUICTransportParams h'))"
    using assms(7) by simp
  ultimately show ?thesis
    unfolding JA4_def Let_def IsDTLS_def assms(1-6) by (simp only:)
qed

definition sample_hello :: "16 word list \<Rightarrow> 16 word list \<Rightarrow> Hello" where
  "sample_hello suites types = (new_Hello 0x0301 [])\<lparr>h_HelloVersion := 0x0303, h_CipherSuites := suites,
     h_Extensions := map (\<lambda>t. \<lparr>ext_Type = t, ext_Length = 0, ext_Offset = 0\<rparr>) types\<rparr>"

theorem JA4_permutation_invariant_witness:
  "JA4 (\<lambda>bs. bs) (sample_hello [0x1301, 0x1302] [0, 23, 43]) = JA4 (\<lambda>bs. bs) (sample_hello [0x1302, 0x1301] [43, 0, 23])"
  by (rule JA4_permutation_invariant) (simp_all add: sample_hello_def ExtensionTypes_def)

text \<open>C39: JA3 is faithful. The JA3 string determines, and is determined by, the hello version, the cipher
  suites, the extension types and the groups in their order with the GREASE values removed, and the
  point formats: two hellos have equal JA3 strings exactly when they agree on these.\<close>

theorem JA3_eq_iff:
  "JA3 h = JA3 h' \<longleftrightarrow>
     h_HelloVersion h = h_HelloVersion h'
     \<and> WithoutGREASE (h_CipherSuites h) = WithoutGREASE (h_CipherSuites h')
     \<and> WithoutGREASE (ExtensionTypes h) = WithoutGREASE (ExtensionTypes h')
     \<and> WithoutGREASE (h_SupportedGroups h) = WithoutGREASE (h_SupportedGroups h')
     \<and> h_PointFormats h = h_PointFormats h'"
proof -
  let ?f = "\<lambda>h. [strconv_Itoa (unat (h_HelloVersion h)), joinUint16 (WithoutGREASE (h_CipherSuites h)),
      joinUint16 (WithoutGREASE (ExtensionTypes h)), joinUint16 (WithoutGREASE (h_SupportedGroups h)),
      joinUint8 (h_PointFormats h)]"
  have split: "strings_Split '','' (JA3 h) = ?f h" for h
    unfolding JA3_def
    by (rule strings_Split_Join [where x = "CHR '',''" and xs = "[]"])
      (simp_all add: strconv_Itoa_no_sep join_no_comma)
  have "JA3 h = JA3 h' \<longleftrightarrow> ?f h = ?f h'"
  proof
    assume "JA3 h = JA3 h'"
    then have "strings_Split '','' (JA3 h) = strings_Split '','' (JA3 h')" by (simp only:)
    then show "?f h = ?f h'" unfolding split .
  next
    assume "?f h = ?f h'"
    then show "JA3 h = JA3 h'" unfolding JA3_def by (simp only:)
  qed
  then show ?thesis
    by (simp add: joinUint16_inject joinUint8_inject strconv_Itoa_inject word_unat_eq_iff)
qed

text \<open>\<open>JA4\<close> panics exactly on a TLS or QUIC hello whose first ALPN name is empty: it indexes the
  first and the last byte of that name without looking at its length. On every other hello it returns.\<close>

theorem JA4_panic_iff:
  "JA4 sha256 h = Inl (Panic IndexOutOfRange)
     \<longleftrightarrow> (\<not> IsDTLS h \<and> h_ALPN h \<noteq> [] \<and> hd (h_ALPN h) = [])"
proof (cases "h_ALPN h")
  case (Cons a as)
  then show ?thesis
    by (cases a) (auto simp: JA4_def Let_def ja4_alpnCode_def at_def)
qed (simp add: JA4_def Let_def ja4_alpnCode_def)

text \<open>A TLS ClientHello whose ALPN extension holds one name of length zero.\<close>

definition empty_alpn_spec :: hello_spec where
  "empty_alpn_spec = \<lparr>s_version = 0x0303, s_random = replicate 32 7, s_session = [], s_cookie = [],
      s_suites = [0x1301], s_compression = [0], s_exts = [(0x0010, [0, 1, 0])]\<rparr>"

definition empty_alpn_record :: bytes where
  "empty_alpn_record = tls_record 1 (client_hello_body False empty_alpn_spec)"

lemma parseALPN_empty_name: "parseALPN [0, 1, 0] = Inr ['''']"
  by (simp add: parseALPN_def parseALPN_loop.simps bytes_to_string_def)

lemma parseExtensions_one:
  assumes "length b + 4 < 65536"
  shows "parseExtensions (cursor d (be_bytes 2 (length b + 4) @ encode_exts [(t, b)])) h =
    applyKnownExtension (h\<lparr>h_Extensions := h_Extensions h
      @ [\<lparr>ext_Type = t, ext_Length = be_word (be_bytes 2 (length b)), ext_Offset = length d + 2\<rparr>]\<rparr>) t b"
proof -
  let ?d = "d @ be_bytes 2 (length b + 4)"
  have n: "unat (be_word (be_bytes 2 (length b)) :: 16 word) = length b"
    "unat (be_word (be_bytes 2 (length b + 4)) :: 16 word) = length b + 4"
    using assms by (simp_all add: unat_be_word16)
  obtain hk where hk: "applyKnownExtension (h\<lparr>h_Extensions := h_Extensions h
      @ [\<lparr>ext_Type = t, ext_Length = be_word (be_bytes 2 (length b)), ext_Offset = length d + 2\<rparr>]\<rparr>) t b = Inr hk"
    using applyKnownExtension_total by blast
  have "parseExtensions (cursor d (be_bytes 2 (length b + 4) @ encode_exts [(t, b)])) h
      = parseExtensions_loop (cursor ?d (enc16 t @ be_bytes 2 (length b) @ b @ [])) (length ?d + (length b + 4)) h"
    by (simp add: parseExtensions_def u16_cursor n Let_def)
  also have "\<dots> = Inr hk"
    using hk assms
    by (subst parseExtensions_loop.simps)
      (simp add: u16_cursor rbytes_cursor [where bs = "[]"] n maxReasonableHelloLength_def
        parseExtensions_loop.simps [of "cursor _ []"] del: append_Nil2)
  finally show ?thesis using hk by simp
qed

lemma empty_alpn_parsed:
  "\<exists>h. ParseHello empty_alpn_record = Inr h \<and> h_Kind h = HelloTLSClient \<and> h_ALPN h = ['''']"
proof -
  have wf: "well_formed empty_alpn_spec"
    by (simp add: empty_alpn_spec_def well_formed_def)
  have "client_hello_body False empty_alpn_spec =
      hello_head False empty_alpn_spec @ be_bytes 2 (length [0, 1, 0 :: byte] + 4) @ encode_exts [(0x0010, [0, 1, 0])]"
    by (simp add: client_hello_body_def empty_alpn_spec_def)
  then have "\<exists>d h. h_Kind h = HelloTLSClient \<and> ParseHello empty_alpn_record =
      parseExtensions (cursor d (be_bytes 2 (length [0, 1, 0 :: byte] + 4) @ encode_exts [(0x0010, [0, 1, 0])])) h"
    unfolding empty_alpn_record_def tls_record_def ParseHello_tls
    by (simp only: parseHelloBody_head [OF wf]) (force simp: head_fields_def)
  then obtain d h where "h_Kind h = HelloTLSClient" and p: "ParseHello empty_alpn_record =
      parseExtensions (cursor d (be_bytes 2 (length [0, 1, 0 :: byte] + 4) @ encode_exts [(0x0010, [0, 1, 0])])) h"
    by blast
  then show ?thesis
    by (subst p, subst parseExtensions_one) (simp_all add: applyKnownExtension_def parseALPN_empty_name)
qed

text \<open>C40: The panic is reachable from the network: there is a TLS ClientHello record that \<open>ParseHello\<close>
  accepts and on whose result \<open>JA4\<close> panics.\<close>

theorem JA4_panic_reachable:
  "\<exists>h. ParseHello empty_alpn_record = Inr h \<and> JA4 sha256 h = Inl (Panic IndexOutOfRange)"
proof -
  obtain h where "ParseHello empty_alpn_record = Inr h" "h_Kind h = HelloTLSClient" "h_ALPN h = ['''']"
    using empty_alpn_parsed by blast
  then show ?thesis by (auto simp: JA4_def Let_def ja4_alpnCode_def at_def IsDTLS_def)
qed

end
