(* ===== verification/Wire_Quic.thy ===== *)
theory Wire_Quic
  imports Wire_Hello
begin

text \<open>
  The QUIC part of the capture tool, \<open>stand/internal/wire/quicv1.go\<close>: removing the protection of
  an Initial packet, collecting its CRYPTO frames and laying them out.

  Hashes, HKDF, AES and AES-GCM are Go's \<open>crypto\<close> packages; they are the fields of \<open>crypto_lib\<close>,
  a parameter. What the code relies on of them (the length of a derived key and of an AES block) is
  \<open>crypto_lengths\<close>, a named hypothesis of the theorems that need it.
\<close>

section \<open>The cryptographic library\<close>

datatype hash_alg = SHA256 | SHA384

type_synonym aead_open = "bytes \<Rightarrow> bytes \<Rightarrow> bytes \<Rightarrow> bytes option"
  \<comment> \<open>nonce, ciphertext, additional data\<close>

record crypto_lib =
  hkdf_Extract :: "hash_alg \<Rightarrow> bytes \<Rightarrow> bytes \<Rightarrow> bytes option"
  hkdf_Expand :: "hash_alg \<Rightarrow> bytes \<Rightarrow> string \<Rightarrow> nat \<Rightarrow> bytes option"
  aes_Encrypt :: "bytes \<Rightarrow> (bytes \<Rightarrow> bytes) option"
  aes_gcm_Open :: "bytes \<Rightarrow> aead_open option"
  chacha_Open :: "bytes \<Rightarrow> aead_open option"
  hmac_Sum :: "hash_alg \<Rightarrow> bytes \<Rightarrow> bytes \<Rightarrow> bytes"

definition crypto_lengths :: "crypto_lib \<Rightarrow> bool" where
  "crypto_lengths cl =
     ((\<forall>h secret info n out. hkdf_Expand cl h secret info n = Some out \<longrightarrow> length out = n)
      \<and> (\<forall>key f block. aes_Encrypt cl key = Some f \<longrightarrow> length (f block) = 16))"

definition crypt :: "string \<Rightarrow> 'a option \<Rightarrow> 'a res" where
  "crypt what r = (case r of None \<Rightarrow> Inl (ErrCrypto what) | Some a \<Rightarrow> Inr a)"

lemma crypt_simps [simp]: "crypt w None = Inl (ErrCrypto w)" "crypt w (Some a) = Inr a"
  by (simp_all add: crypt_def)

lemma crypt_eq_Inr [res_simps]: "crypt w r = Inr a \<longleftrightarrow> r = Some a"
  by (simp add: crypt_def split: option.splits)

lemma no_panic_crypt [simp, intro]: "no_panic (crypt w r)"
  by (simp add: crypt_def split: option.splits)

text \<open>\<open>cipher.AEAD.Open\<close> panics unless the nonce has \<open>NonceSize()\<close> bytes, 12 for both AEADs used.\<close>

definition aead_Open :: "aead_open \<Rightarrow> bytes \<Rightarrow> bytes \<Rightarrow> bytes \<Rightarrow> bytes res" where
  "aead_Open open nonce ciphertext ad =
     (if length nonce \<noteq> 12 then Inl (Panic (LibraryPanic ''incorrect nonce length''))
      else crypt ''aead.Open'' (open nonce ciphertext ad))"

section \<open>Keys and nonces\<close>

definition quicInitialSaltV1 :: bytes where
  "quicInitialSaltV1 =
     [0x38, 0x76, 0x2c, 0xf7, 0xf5, 0x59, 0x34, 0xb3, 0x4d, 0x17,
      0x9a, 0xe6, 0xa4, 0xc8, 0x0c, 0xad, 0xcc, 0xbb, 0x7f, 0x0a]"

definition expandLabelHash :: "crypto_lib \<Rightarrow> hash_alg \<Rightarrow> bytes \<Rightarrow> string \<Rightarrow> nat \<Rightarrow> bytes res" where
  "expandLabelHash cl newHash secret label len =
     (let full = ''tls13 '' @ label;
          info = be_bytes 2 len @ [word_of_nat (length full)] @ string_to_bytes full @ [0]
      in crypt ''hkdf.Expand'' (hkdf_Expand cl newHash secret (bytes_to_string info) len))"

definition expandLabel :: "crypto_lib \<Rightarrow> bytes \<Rightarrow> string \<Rightarrow> nat \<Rightarrow> bytes res" where
  "expandLabel cl secret label len = expandLabelHash cl SHA256 secret label len"

definition quicClientInitialKeys :: "crypto_lib \<Rightarrow> bytes \<Rightarrow> (bytes \<times> bytes \<times> bytes) res" where
  "quicClientInitialKeys cl destConnID =
     rbind (crypt ''hkdf.Extract'' (hkdf_Extract cl SHA256 destConnID quicInitialSaltV1)) (\<lambda>initialSecret.
     rbind (expandLabel cl initialSecret ''client in'' 32) (\<lambda>clientSecret.
     rbind (expandLabel cl clientSecret ''quic key'' 16) (\<lambda>key.
     rbind (expandLabel cl clientSecret ''quic iv'' 12) (\<lambda>iv.
     rbind (expandLabel cl clientSecret ''quic hp'' 16) (\<lambda>headerKey.
     Inr (key, iv, headerKey))))))"

definition xorNonce :: "bytes \<Rightarrow> 64 word \<Rightarrow> bytes res" where
  "xorNonce iv sequence =
     (if length iv < 8 then Inl (Panic IndexOutOfRange)
      else Inr (take (length iv - 8) iv
                @ map2 (XOR) (drop (length iv - 8) iv) (be_bytes 8 (unat sequence))))"

definition quicHeaderMask :: "crypto_lib \<Rightarrow> bytes \<Rightarrow> bytes \<Rightarrow> bytes res" where
  "quicHeaderMask cl headerKey sample =
     rbind (crypt ''aes.NewCipher'' (aes_Encrypt cl headerKey)) (\<lambda>encrypt.
     if length sample < 16 then Inl ErrQUICUnprotected else Inr (encrypt sample))"

definition quicDecrypt :: "crypto_lib \<Rightarrow> bytes \<Rightarrow> bytes \<Rightarrow> 64 word \<Rightarrow> bytes \<Rightarrow> bytes \<Rightarrow> bytes res" where
  "quicDecrypt cl key iv packetNum header ciphertext =
     rbind (crypt ''aes.NewCipher'' (aes_gcm_Open cl key)) (\<lambda>open.
     rbind (xorNonce iv packetNum) (\<lambda>nonce.
     aead_Open open nonce ciphertext header))"

section \<open>CRYPTO frames\<close>

record QUICCryptoChunk =
  ch_Offset :: "64 word"
  ch_Data :: bytes

record QUICInitial =
  qi_Version :: "32 word"
  qi_DestConnID :: bytes
  qi_SrcConnID :: bytes
  qi_PacketNum :: "64 word"
  qi_Crypto :: "QUICCryptoChunk list"
  qi_Rest :: bytes

abbreviation quicVersion1 :: "32 word" where "quicVersion1 \<equiv> 1"
abbreviation quicSampleLen :: nat where "quicSampleLen \<equiv> 16"
abbreviation quicMaxCryptoLen :: nat where "quicMaxCryptoLen \<equiv> 65536"

definition readQUICConnID :: "byteReader \<Rightarrow> (bytes \<times> byteReader) res" where
  "readQUICConnID r =
     rbind (u8 r) (\<lambda>(len, r).
     if len > 20 then Inl ErrNotQUICInitial else rbytes r (unat len))"

fun skip_varints :: "nat \<Rightarrow> byteReader \<Rightarrow> byteReader res" where
  "skip_varints 0 r = Inr r"
| "skip_varints (Suc n) r = rbind (readQUICVarint r) (\<lambda>(_, r). skip_varints n r)"

fun skip_ranges :: "nat \<Rightarrow> byteReader \<Rightarrow> byteReader res" where
  "skip_ranges 0 r = Inr r"
| "skip_ranges (Suc n) r =
     rbind (readQUICVarint r) (\<lambda>(_, r). rbind (readQUICVarint r) (\<lambda>(_, r). skip_ranges n r))"

definition skipQUICAck :: "byteReader \<Rightarrow> byte \<Rightarrow> byteReader res" where
  "skipQUICAck r frameType =
     rbind (skip_varints 2 r) (\<lambda>r.
     rbind (readQUICVarint r) (\<lambda>(rangeCount, r).
     rbind (readQUICVarint r) (\<lambda>(_, r).
     rbind (skip_ranges (unat rangeCount) r) (\<lambda>r.
     if frameType = 0x03 then skip_varints 3 r else Inr r))))"

lemma skip_varints_moves:
  "skip_varints n r = Inr r' \<Longrightarrow> r_buf r' = r_buf r \<and> r_pos r \<le> r_pos r'"
  by (induction n arbitrary: r) (fastforce simp: res_simps dest: readQUICVarint_moves)+

lemma skip_ranges_moves:
  "skip_ranges n r = Inr r' \<Longrightarrow> r_buf r' = r_buf r \<and> r_pos r \<le> r_pos r'"
  by (induction n arbitrary: r) (fastforce simp: res_simps dest: readQUICVarint_moves)+

lemma skipQUICAck_moves:
  "skipQUICAck r t = Inr r' \<Longrightarrow> r_buf r' = r_buf r \<and> r_pos r \<le> r_pos r'"
  unfolding skipQUICAck_def
  by (fastforce simp: res_simps dest: readQUICVarint_moves skip_varints_moves skip_ranges_moves
      split: if_splits)

text \<open>One turn of the loop of \<open>quicCryptoFrames\<close>: the chunks of the frame read. The loop returns what
  it has collected, and a nil error, on every error of a turn and on a frame type it does not know; a panic is not an
  error of a turn and goes through (\<open>on_error\<close>).\<close>

definition quicFrame :: "byteReader \<Rightarrow> (byteReader \<times> QUICCryptoChunk list) res" where
  "quicFrame r =
     rbind (u8 r) (\<lambda>(frameType, r).
     if frameType = 0x00 \<or> frameType = 0x01 then Inr (r, [])
     else if frameType = 0x02 \<or> frameType = 0x03 then rbind (skipQUICAck r frameType) (\<lambda>r. Inr (r, []))
     else if frameType = 0x06 then
       rbind (readQUICVarint r) (\<lambda>(offset, r).
       rbind (readQUICVarint r) (\<lambda>(len, r).
       if unat len > quicMaxCryptoLen then Inl ErrTruncated
       else rbind (rbytes r (unat len)) (\<lambda>(data, r).
       Inr (r, [\<lparr>ch_Offset = offset, ch_Data = data\<rparr>]))))
     else Inl ErrNotQUICInitial)"

lemma quicFrame_moves: "quicFrame r = Inr (r', cs) \<Longrightarrow> r_buf r' = r_buf r \<and> r_pos r < r_pos r'"
  unfolding quicFrame_def
  by (fastforce simp: res_simps dest: read_moves readQUICVarint_moves skipQUICAck_moves split: if_splits)

lemma remaining_pos: "remaining r > 0 \<longleftrightarrow> r_pos r < length (r_buf r)"
  by (auto simp: remaining_def)

function quicCryptoFrames_loop :: "byteReader \<Rightarrow> QUICCryptoChunk list \<Rightarrow> QUICCryptoChunk list res" where
  "quicCryptoFrames_loop r chunks =
     (if remaining r > 0 then
        on_error (quicFrame r) (Inr chunks) (\<lambda>(r, new). quicCryptoFrames_loop r (chunks @ new))
      else Inr chunks)"
  by pat_completeness auto
termination
  by (relation "measure (\<lambda>(r, _). length (r_buf r) - r_pos r)")
    (auto simp: remaining_pos dest!: quicFrame_moves intro: diff_less_mono2)

declare quicCryptoFrames_loop.simps [simp del]

definition quicCryptoFrames :: "bytes \<Rightarrow> QUICCryptoChunk list res" where
  "quicCryptoFrames plaintext = quicCryptoFrames_loop \<lparr>r_buf = plaintext, r_pos = 0\<rparr> []"

section \<open>Laying the chunks out\<close>

definition copy_at :: "'a list \<Rightarrow> nat \<Rightarrow> 'a list \<Rightarrow> 'a list res" where
  "copy_at dst off src =
     (if off \<le> length dst
      then Inr (take off dst @ take (length dst - off) src @ drop (off + length src) dst)
      else Inl (Panic SliceOutOfRange))"

definition fill_at :: "bool list \<Rightarrow> nat \<Rightarrow> nat \<Rightarrow> bool list res" where
  "fill_at filled off n =
     (if n = 0 \<or> off + n \<le> length filled
      then Inr (take off filled @ replicate n True @ drop (off + n) filled)
      else Inl (Panic IndexOutOfRange))"

fun crypto_end :: "64 word \<Rightarrow> QUICCryptoChunk list \<Rightarrow> 64 word" where
  "crypto_end end [] = end"
| "crypto_end end (c # cs) =
     (let finish = ch_Offset c + word_of_nat (length (ch_Data c))
      in crypto_end (if finish > end then finish else end) cs)"

fun place_chunks :: "bytes \<Rightarrow> bool list \<Rightarrow> QUICCryptoChunk list \<Rightarrow> (bytes \<times> bool list) res" where
  "place_chunks stream filled [] = Inr (stream, filled)"
| "place_chunks stream filled (c # cs) =
     rbind (copy_at stream (unat (ch_Offset c)) (ch_Data c)) (\<lambda>stream.
     rbind (fill_at filled (unat (ch_Offset c)) (length (ch_Data c))) (\<lambda>filled.
     place_chunks stream filled cs))"

definition AssembleCrypto :: "QUICCryptoChunk list \<Rightarrow> bytes res" where
  "AssembleCrypto chunks =
     (let end = crypto_end 0 chunks in
      if end = 0 \<or> unat end > quicMaxCryptoLen then Inr []
      else rbind (place_chunks (replicate (unat end) 0) (replicate (unat end) False) chunks)
             (\<lambda>(stream, filled). slice Panic stream 0 (length (takeWhile id filled))))"

section \<open>An Initial packet\<close>

definition CryptoRecord :: "bytes \<Rightarrow> bytes res" where
  "CryptoRecord handshake =
     (if length handshake > 2 ^ 16 - 1 then Inl ErrTruncated
      else Inr ([contentTypeHandshake, 0x03, 0x01] @ be_bytes 2 (length handshake) @ handshake))"

text \<open>\<open>IsGREASE\<close> of a transport parameter: reserved identifiers are \<open>31 * N + 27\<close>.\<close>

definition tp_IsGREASE :: "QUICTransportParam \<Rightarrow> bool" where
  "tp_IsGREASE p = (tp_ID p \<ge> 27 \<and> (tp_ID p - 27) mod 31 = 0)"

fun unmask_pn :: "bytes \<Rightarrow> bytes \<Rightarrow> nat \<Rightarrow> nat \<Rightarrow> nat \<Rightarrow> 64 word \<Rightarrow> (bytes \<times> 64 word) res" where
  "unmask_pn packet hmask pnOffset i 0 packetNum = Inr (packet, packetNum)"
| "unmask_pn packet hmask pnOffset i (Suc n) packetNum =
     rbind (at Panic packet (pnOffset + i)) (\<lambda>b.
     rbind (at Panic hmask (1 + i)) (\<lambda>m.
     let b = b XOR m in
     unmask_pn (packet[pnOffset + i := b]) hmask pnOffset (i + 1) n (push_bit 8 packetNum OR ucast b)))"

text \<open>The middle of \<open>ParseQUICInitial\<close>: from the packet-number offset to the plaintext.\<close>

definition unprotectInitial :: "crypto_lib \<Rightarrow> bytes \<Rightarrow> bytes \<Rightarrow> nat \<Rightarrow> nat \<Rightarrow> (64 word \<times> bytes) res" where
  "unprotectInitial cl datagram destConnID pnOffset rest =
     rbind (quicClientInitialKeys cl destConnID) (\<lambda>(key, iv, headerKey).
     rbind (slice Panic datagram 0 (pnOffset + rest)) (\<lambda>packet.
     rbind (slice Panic packet (pnOffset + 4) (pnOffset + 4 + quicSampleLen)) (\<lambda>sample.
     rbind (quicHeaderMask cl headerKey sample) (\<lambda>hmask.
     rbind (at Panic hmask 0) (\<lambda>m0.
     rbind (at Panic packet 0) (\<lambda>p0.
     let p0 = p0 XOR (m0 AND 0x0f);
         packet = packet[0 := p0];
         pnLen = unat (p0 AND 0x03) + 1 in
     rbind (unmask_pn packet hmask pnOffset 0 pnLen 0) (\<lambda>(packet, packetNum).
     rbind (slice Panic packet 0 (pnOffset + pnLen)) (\<lambda>header.
     rbind (slice Panic packet (pnOffset + pnLen) (length packet)) (\<lambda>ciphertext.
     rbind (quicDecrypt cl key iv packetNum header ciphertext) (\<lambda>plaintext.
     Inr (packetNum, plaintext)))))))))))"

definition ParseQUICInitial :: "crypto_lib \<Rightarrow> bytes \<Rightarrow> QUICInitial res" where
  "ParseQUICInitial cl datagram =
     (if length datagram < 7 then Inl ErrNotQUICInitial
      else rbind (at Panic datagram 0) (\<lambda>first.
      if first AND 0x80 = 0 then Inl ErrNotQUICInitial
      else if drop_bit 4 (first AND 0x30) \<noteq> 0 then Inl ErrNotQUICInitial
      else rbind (slice Panic datagram 1 5) (\<lambda>vb.
      let version = be_word vb in
      if version \<noteq> quicVersion1 then Inl (ErrQUICVersion version)
      else
        let r = \<lparr>r_buf = datagram, r_pos = 5\<rparr> in
        rbind (readQUICConnID r) (\<lambda>(destConnID, r).
        rbind (readQUICConnID r) (\<lambda>(srcConnID, r).
        rbind (readQUICVarint r) (\<lambda>(tokenLen, r).
        rbind (rbytes r (unat tokenLen)) (\<lambda>(_, r).
        rbind (readQUICVarint r) (\<lambda>(remainder, r).
        let pnOffset = r_pos r; rest = unat remainder in
        if pnOffset + rest > length datagram \<or> rest < quicSampleLen + 4 then Inl ErrNotQUICInitial
        else
        rbind (unprotectInitial cl datagram destConnID pnOffset rest) (\<lambda>(packetNum, plaintext).
        rbind (slice Panic datagram (pnOffset + rest) (length datagram)) (\<lambda>tail.
        rbind (quicCryptoFrames plaintext) (\<lambda>chunks.
        Inr \<lparr>qi_Version = version, qi_DestConnID = destConnID, qi_SrcConnID = srcConnID,
             qi_PacketNum = packetNum, qi_Crypto = chunks, qi_Rest = tail\<rparr>)))))))))))"

section \<open>No packet makes the parser panic\<close>

lemma no_panic_readQUICConnID [simp, intro]: "no_panic (readQUICConnID r)"
  by (auto simp: readQUICConnID_def intro!: no_panic_rbind split: if_splits)

lemma no_panic_skip_varints [simp, intro]: "no_panic (skip_varints n r)"
  by (induction n arbitrary: r) auto

lemma no_panic_skip_ranges [simp, intro]: "no_panic (skip_ranges n r)"
  by (induction n arbitrary: r) (auto intro!: no_panic_rbind)

lemma no_panic_quicFrame [simp, intro]: "no_panic (quicFrame r)"
  unfolding quicFrame_def skipQUICAck_def by (auto intro!: no_panic_rbind)

lemma no_panic_quicCryptoFrames [simp, intro]: "no_panic (quicCryptoFrames plaintext)"
proof -
  have "no_panic (quicCryptoFrames_loop r chunks)" for r chunks
  proof (induction r chunks rule: quicCryptoFrames_loop.induct)
    case (1 r chunks)
    then show ?case by (subst quicCryptoFrames_loop.simps) (auto intro!: no_panic_on_error)
  qed
  then show ?thesis by (simp add: quicCryptoFrames_def)
qed

lemma no_panic_expandLabel [simp, intro]: "no_panic (expandLabel cl s l n)"
  by (simp add: expandLabel_def expandLabelHash_def Let_def)

lemma expandLabel_length:
  "crypto_lengths cl \<Longrightarrow> expandLabel cl s l n = Inr out \<Longrightarrow> length out = n"
  by (auto simp: crypto_lengths_def expandLabel_def expandLabelHash_def Let_def res_simps)

lemma no_panic_quicClientInitialKeys [simp, intro]: "no_panic (quicClientInitialKeys cl d)"
  by (auto simp: quicClientInitialKeys_def intro!: no_panic_rbind)

lemma quicClientInitialKeys_lengths:
  "crypto_lengths cl \<Longrightarrow> quicClientInitialKeys cl d = Inr (key, iv, hk) \<Longrightarrow>
     length key = 16 \<and> length iv = 12 \<and> length hk = 16"
  by (auto simp: quicClientInitialKeys_def res_simps dest: expandLabel_length)

lemma xor_left_cancel: "(x :: byte) XOR a = x XOR b \<longleftrightarrow> a = b"
proof
  assume "x XOR a = x XOR b"
  then have "x XOR (x XOR a) = x XOR (x XOR b)" by (rule arg_cong)
  then show "a = b" by (simp flip: xor.assoc)
qed simp

lemma map2_xor_inject:
  "length a = length w \<Longrightarrow> length b = length w \<Longrightarrow>
   map2 (XOR) w a = map2 (XOR) w b \<longleftrightarrow> a = (b :: bytes)"
  by (induction w arbitrary: a b) (auto simp: length_Suc_conv xor_left_cancel)

lemma xorNonce_length: "8 \<le> length iv \<Longrightarrow> \<exists>nonce. xorNonce iv q = Inr nonce \<and> length nonce = length iv"
  by (simp add: xorNonce_def)

lemma no_panic_quicDecrypt:
  assumes "length iv = 12"
  shows "no_panic (quicDecrypt cl key iv pn header ct)"
proof -
  obtain nonce where "xorNonce iv pn = Inr nonce" "length nonce = 12"
    using xorNonce_length [of iv pn] assms by auto
  then show ?thesis
    by (auto simp: quicDecrypt_def aead_Open_def intro!: no_panic_rbind)
qed

lemma no_panic_quicHeaderMask [simp, intro]: "no_panic (quicHeaderMask cl k s)"
  by (auto simp: quicHeaderMask_def intro!: no_panic_rbind)

lemma quicHeaderMask_length:
  "crypto_lengths cl \<Longrightarrow> quicHeaderMask cl k s = Inr m \<Longrightarrow> length m = 16"
  by (auto simp: crypto_lengths_def quicHeaderMask_def res_simps split: if_splits)

lemma unmask_pn_total:
  assumes "pnOffset + i + n \<le> length packet" "i + n < length m"
  shows "\<exists>packet' pn'. unmask_pn packet m pnOffset i n pn = Inr (packet', pn') \<and> length packet' = length packet"
  using assms
proof (induction n arbitrary: packet i pn)
  case (Suc n)
  then show ?case
    using Suc.IH [of "i + 1" "packet[pnOffset + i := packet ! (pnOffset + i) XOR m ! Suc i]"]
    by (simp add: at_def Let_def)
qed simp

lemma pnLen_le: "unat (b AND 0x03 :: byte) + 1 \<le> 4"
proof -
  have "b AND 0x03 \<le> 0x03" by (rule word_and_le1)
  then show ?thesis by (simp add: word_le_nat_alt)
qed

lemma no_panic_unprotectInitial:
  assumes "crypto_lengths cl" "pnOffset + rest \<le> length datagram" "20 \<le> rest"
  shows "no_panic (unprotectInitial cl datagram d pnOffset rest)"
  unfolding unprotectInitial_def
proof (intro no_panic_rbind, goal_cases)
  case (2 keys)
  obtain key iv hk where keys: "keys = (key, iv, hk)" by (cases keys)
  have iv: "length iv = 12" using quicClientInitialKeys_lengths assms(1) 2 keys by blast
  show ?case unfolding keys prod.case
  proof (intro no_panic_rbind, goal_cases)
    case (6 packet sample hmask m0 p0)
    let ?p0 = "p0 XOR (m0 AND 0x0f)"
    have len: "length packet = pnOffset + rest" using 6(1) assms(2) by (auto simp: slice_def split: if_splits)
    have m: "length hmask = 16" using quicHeaderMask_length assms(1) 6(3) by blast
    let ?n = "unat (?p0 AND 0x03) + 1"
    have n: "?n \<le> 4" by (rule pnLen_le)
    obtain packet' pn where u: "unmask_pn (packet[0 := ?p0]) hmask pnOffset 0 ?n 0 = Inr (packet', pn)"
      "length packet' = pnOffset + rest"
      using unmask_pn_total [of pnOffset 0 ?n "packet[0 := ?p0]" hmask 0] len m n assms(3) by auto
    show ?case unfolding Let_def u(1) rbind_Inr prod.case
      using u(2) n assms iv by (intro no_panic_rbind no_panic_quicDecrypt) auto
  qed (use assms in \<open>auto simp: slice_def dest: quicHeaderMask_length split: if_splits\<close>)
qed auto

lemma no_panic_ParseQUICInitial:
  assumes "crypto_lengths cl"
  shows "no_panic (ParseQUICInitial cl datagram)"
  unfolding ParseQUICInitial_def Let_def
  by (auto intro!: no_panic_rbind no_panic_unprotectInitial assms split: prod.splits)

section \<open>What the laid-out chunks amount to\<close>

definition chunk_end :: "QUICCryptoChunk \<Rightarrow> nat" where
  "chunk_end c = unat (ch_Offset c) + length (ch_Data c)"

definition covered :: "QUICCryptoChunk list \<Rightarrow> nat \<Rightarrow> bool" where
  "covered cs i = (\<exists>c\<in>set cs. unat (ch_Offset c) \<le> i \<and> i < chunk_end c)"

definition chunk_of :: "bytes \<Rightarrow> QUICCryptoChunk \<Rightarrow> bool" where
  "chunk_of s c = (chunk_end c \<le> length s
     \<and> ch_Data c = take (length (ch_Data c)) (drop (unat (ch_Offset c)) s))"

lemma covered_simps [simp]:
  "covered [] i = False"
  "covered (c # cs) i \<longleftrightarrow> (unat (ch_Offset c) \<le> i \<and> i < chunk_end c) \<or> covered cs i"
  by (auto simp: covered_def)

lemma crypto_end_eq:
  assumes "\<And>c. c \<in> set cs \<Longrightarrow> chunk_end c < 2 ^ 64"
  shows "unat (crypto_end e cs) = fold max (map chunk_end cs) (unat e)"
  using assms
proof (induction cs arbitrary: e)
  case (Cons c cs)
  have "chunk_end c < 2 ^ 64" using Cons.prems by simp
  then have "unat (ch_Offset c + word_of_nat (length (ch_Data c))) = chunk_end c"
    by (simp add: chunk_end_def unat_word_ariths unat_of_nat)
  then show ?case
    using Cons by (simp add: Let_def word_less_nat_alt max_def)
qed simp

lemma fold_max_ge: "a \<le> fold max xs (a :: nat)" "x \<in> set xs \<Longrightarrow> x \<le> fold max xs a"
proof (induction xs arbitrary: a)
  case (Cons y ys)
  { case 1 show ?case using Cons(1) [of "max y a"] by simp }
  { case 2 then show ?case using Cons(1) [of "max y a"] Cons(2) [of "max y a"] by auto }
qed auto

lemma fold_max_le: "(\<And>x. x \<in> set xs \<Longrightarrow> x \<le> b) \<Longrightarrow> a \<le> b \<Longrightarrow> fold max xs (a :: nat) \<le> b"
  by (induction xs arbitrary: a) auto

lemma place_chunks_total:
  assumes "\<And>c. c \<in> set cs \<Longrightarrow> chunk_end c \<le> length st" "length fl = length st"
  shows "\<exists>st' fl'. place_chunks st fl cs = Inr (st', fl') \<and> length st' = length st \<and> length fl' = length st
    \<and> (\<forall>i<length st. fl' ! i = (fl ! i \<or> covered cs i))"
  using assms
proof (induction cs arbitrary: st fl)
  case (Cons c cs)
  let ?o = "unat (ch_Offset c)" and ?n = "length (ch_Data c)"
  let ?st = "take ?o st @ ch_Data c @ drop (?o + ?n) st"
  let ?fl = "take ?o fl @ replicate ?n True @ drop (?o + ?n) fl"
  have le: "?o + ?n \<le> length st" using Cons.prems(1) [of c] by (simp add: chunk_end_def)
  have steps: "copy_at st ?o (ch_Data c) = Inr ?st" "fill_at fl ?o ?n = Inr ?fl"
    using le Cons.prems(2) by (auto simp: copy_at_def fill_at_def)
  obtain st' fl' where "place_chunks ?st ?fl cs = Inr (st', fl')" "length st' = length st"
    "length fl' = length st" "\<forall>i<length st. fl' ! i = (?fl ! i \<or> covered cs i)"
    using Cons.IH [of ?st ?fl] Cons.prems le by force
  moreover have "?fl ! i = (fl ! i \<or> ?o \<le> i \<and> i < chunk_end c)" if "i < length st" for i
    using that le Cons.prems(2) by (auto simp: nth_append chunk_end_def min_def)
  ultimately show ?case using steps by auto
qed simp

lemma place_chunks_stream:
  assumes "place_chunks st fl cs = Inr (st', fl')" "\<And>c. c \<in> set cs \<Longrightarrow> chunk_of s c"
    "length st = N" "\<And>c. c \<in> set cs \<Longrightarrow> chunk_end c \<le> N" "i < N" "covered cs i \<or> st ! i = s ! i"
  shows "st' ! i = s ! i"
  using assms
proof (induction cs arbitrary: st fl)
  case (Cons c cs)
  let ?o = "unat (ch_Offset c)" and ?n = "length (ch_Data c)"
  let ?st = "take ?o st @ ch_Data c @ drop (?o + ?n) st"
  have le: "?o + ?n \<le> N" using Cons.prems(4) [of c] by (simp add: chunk_end_def)
  have st: "copy_at st ?o (ch_Data c) = Inr ?st"
    using le Cons.prems(3) by (auto simp: copy_at_def)
  then obtain fl1 where rest: "place_chunks ?st fl1 cs = Inr (st', fl')"
    using Cons.prems(1) by (auto simp: res_simps)
  have c: "ch_Data c = take ?n (drop ?o s)" "?o + ?n \<le> length s"
    using Cons.prems(2) [of c] by (simp_all add: chunk_of_def chunk_end_def)
  have "ch_Data c ! (i - ?o) = s ! i" if "?o \<le> i" "i < ?o + ?n"
  proof -
    have "ch_Data c ! (i - ?o) = take ?n (drop ?o s) ! (i - ?o)" using c(1) by (rule arg_cong)
    then show ?thesis using that c(2) by simp
  qed
  then have "covered cs i \<or> ?st ! i = s ! i"
    using Cons.prems(3,5,6) le by (auto simp: nth_append chunk_end_def)
  then show ?case using Cons.IH [OF rest] Cons.prems le by simp
qed simp

lemma AssembleCrypto_covered:
  assumes "\<And>c. c \<in> set cs \<Longrightarrow> chunk_end c \<le> quicMaxCryptoLen"
  shows "\<exists>out N. AssembleCrypto cs = Inr out \<and> N = fold max (map chunk_end cs) 0 \<and> length out \<le> N
    \<and> (\<forall>i<length out. covered cs i) \<and> \<not> covered cs (length out)
    \<and> ((\<forall>c\<in>set cs. chunk_of s c) \<longrightarrow> (\<forall>i<length out. out ! i = s ! i))"
proof -
  let ?e = "crypto_end 0 cs" and ?N = "fold max (map chunk_end cs) 0"
  have e: "unat ?e = ?N" using crypto_end_eq [of cs 0] assms by fastforce
  have N: "?N \<le> quicMaxCryptoLen" by (rule fold_max_le) (use assms in auto)
  have cN: "chunk_end c \<le> ?N" if "c \<in> set cs" for c
    using fold_max_ge(2) [of "chunk_end c" "map chunk_end cs" 0] that by simp
  show ?thesis
  proof (cases "?N = 0")
    case True
    then have "?e = 0" using e by (simp add: unat_eq_0)
    moreover have "\<not> covered cs 0" using cN True by (fastforce simp: covered_def)
    ultimately show ?thesis by (simp add: AssembleCrypto_def)
  next
    case False
    obtain st fl where p: "place_chunks (replicate ?N 0) (replicate ?N False) cs = Inr (st, fl)"
      and len: "length st = ?N" "length fl = ?N" and fl: "\<forall>i<?N. fl ! i = covered cs i"
      using place_chunks_total [of cs "replicate ?N 0" "replicate ?N False"] cN by auto
    let ?n = "length (takeWhile id fl)"
    have n: "?n \<le> ?N" using length_takeWhile_le [of id fl] len by simp
    have "?e \<noteq> 0" using False e by (metis unsigned_0)
    then have "AssembleCrypto cs = Inr (take ?n st)"
      using N e p n len by (simp add: AssembleCrypto_def Let_def)
    moreover have "covered cs i" if "i < ?n" for i
    proof -
      have "fl ! i = takeWhile id fl ! i" using that by (simp add: takeWhile_nth)
      then show ?thesis using set_takeWhileD [OF nth_mem [OF that]] that n fl by simp
    qed
    moreover have "\<not> covered cs ?n"
    proof (cases "?n < ?N")
      case True
      then show ?thesis using nth_length_takeWhile [of id fl] len fl by simp
    next
      case False
      then show ?thesis using cN by (fastforce simp: covered_def)
    qed
    moreover have "st ! i = s ! i" if "\<forall>c\<in>set cs. chunk_of s c" "i < ?n" for i
      using place_chunks_stream [OF p, of s ?N i] that calculation(2) cN n by auto
    ultimately show ?thesis using n len by auto
  qed
qed

lemma cursor_take_drop: "r_pos r \<le> length (r_buf r) \<Longrightarrow> cursor (take (r_pos r) (r_buf r)) (drop (r_pos r) (r_buf r)) = r"
  by (simp add: cursor_def)

lemma readQUICVarint_bound:
  assumes "readQUICVarint r = Inr (v, r')"
  shows "unat v < 2 ^ 62"
proof -
  have "r_pos r < length (r_buf r)" using assms by (auto simp: readQUICVarint_def u8_eq split: if_splits)
  then obtain b bs where "r = cursor (take (r_pos r) (r_buf r)) (b # bs)"
    by (metis Cons_nth_drop_Suc cursor_take_drop less_imp_le)
  then have "readQUICVarint (cursor (take (r_pos r) (r_buf r)) (b # bs)) = Inr (v, r')" using assms by simp
  then have n: "varint_width b \<le> length (b # bs)"
    and v: "v = word_of_nat (varint_value (take (varint_width b) (b # bs)))"
    by (auto simp: readQUICVarint_Cons Let_def split: if_splits)
  have "varint_width b \<le> 8" by (cases b rule: varint_width_cases) auto
  then have "varint_value (take (varint_width b) (b # bs)) < 2 ^ 62"
    by (intro varint_value_less) (use n in \<open>simp_all add: take_Cons'\<close>)
  then show ?thesis using v by (simp add: unat_of_nat)
qed

definition small_chunk :: "QUICCryptoChunk \<Rightarrow> bool" where
  "small_chunk c = (chunk_end c < 2 ^ 63)"

lemma quicFrame_small: "quicFrame r = Inr (r', cs) \<Longrightarrow> c \<in> set cs \<Longrightarrow> small_chunk c"
  unfolding quicFrame_def small_chunk_def
  by (auto simp: res_simps chunk_end_def rbytes_eq dest!: readQUICVarint_bound split: if_splits)

lemma quicCryptoFrames_loop_small:
  "(\<And>c. c \<in> set chunks \<Longrightarrow> small_chunk c) \<Longrightarrow>
   quicCryptoFrames_loop r chunks = Inr cs \<Longrightarrow> c \<in> set cs \<Longrightarrow> small_chunk c"
proof (induction r chunks rule: quicCryptoFrames_loop.induct)
  case (1 r chunks)
  show ?case
  proof (cases "remaining r > 0 \<and> (\<exists>r' new. quicFrame r = Inr (r', new))")
    case True
    then obtain r' new where f: "quicFrame r = Inr (r', new)" by blast
    then have "quicCryptoFrames_loop r' (chunks @ new) = Inr cs"
      using True "1.prems"(2) by (subst (asm) quicCryptoFrames_loop.simps) simp
    then show ?thesis
      using "1.IH" [OF _ f refl _ _ "1.prems"(3)] True "1.prems"(1) quicFrame_small [OF f] by auto
  next
    case False
    then have "quicCryptoFrames_loop r chunks = Inr chunks"
      using no_panic_quicFrame [of r]
      by (subst quicCryptoFrames_loop.simps) (cases "quicFrame r"; auto simp: on_error_Inl)
    then show ?thesis using "1.prems" by simp
  qed
qed

lemma AssembleCrypto_total:
  assumes "\<And>c. c \<in> set cs \<Longrightarrow> small_chunk c"
  shows "\<exists>out. AssembleCrypto cs = Inr out"
proof (cases "\<forall>c\<in>set cs. chunk_end c \<le> quicMaxCryptoLen")
  case True
  then show ?thesis using AssembleCrypto_covered [of cs] by blast
next
  case False
  then obtain c where "c \<in> set cs" "quicMaxCryptoLen < chunk_end c" by auto
  moreover have "unat (crypto_end 0 cs) = fold max (map chunk_end cs) 0"
    using crypto_end_eq [of cs 0] assms by (fastforce simp: small_chunk_def)
  ultimately have "unat (crypto_end 0 cs) > quicMaxCryptoLen"
    using fold_max_ge(2) [of "chunk_end c" "map chunk_end cs" 0] by simp
  then show ?thesis by (simp add: AssembleCrypto_def)
qed

lemma AssembleCrypto_takes:
  assumes "\<forall>c\<in>set chunks. chunk_of s c" and "length s \<le> quicMaxCryptoLen"
  shows "\<exists>n\<le>length s. AssembleCrypto chunks = Inr (take n s)
    \<and> (\<forall>i<n. covered chunks i) \<and> \<not> covered chunks n"
proof -
  have le: "chunk_end c \<le> length s" if "c \<in> set chunks" for c
    using assms(1) that by (simp add: chunk_of_def)
  obtain out where out: "AssembleCrypto chunks = Inr out" "\<forall>i<length out. covered chunks i"
    "\<not> covered chunks (length out)" "\<forall>i<length out. out ! i = s ! i"
    "length out \<le> fold max (map chunk_end chunks) 0"
    using AssembleCrypto_covered [of chunks s] le assms by fastforce
  have "length out \<le> length s"
    using out(5) fold_max_le [of "map chunk_end chunks" "length s" 0] le by (fastforce intro: order_trans)
  moreover from this have "out = take (length out) s" using out(4) by (intro nth_equalityI) simp_all
  ultimately show ?thesis using out by (intro exI [of _ "length out"]) simp
qed

section \<open>Properties\<close>

text \<open>C27: No datagram makes the QUIC part of the capture tool panic: for every byte string,
  \<open>ParseQUICInitial\<close> returns a packet or one of its error values, its walk over the frames of the decrypted packet included,
  and \<open>AssembleCrypto\<close> lays out the CRYPTO frames of every packet it returns. Of the cryptographic library it needs only that a derived
  key has the length asked for and that an AES block has 16 bytes.\<close>

theorem ParseQUICInitial_never_panics:
  assumes "crypto_lengths cl"
  shows "(\<forall>p. ParseQUICInitial cl datagram \<noteq> Inl (Panic p))
    \<and> (\<forall>pkt. ParseQUICInitial cl datagram = Inr pkt \<longrightarrow> (\<exists>out. AssembleCrypto (qi_Crypto pkt) = Inr out))"
proof (intro conjI allI impI)
  show "ParseQUICInitial cl datagram \<noteq> Inl (Panic p)" for p
    using no_panic_ParseQUICInitial [OF assms] by (simp add: no_panic_iff)
  show "\<exists>out. AssembleCrypto (qi_Crypto pkt) = Inr out" if "ParseQUICInitial cl datagram = Inr pkt" for pkt
  proof -
    have "\<exists>pl. quicCryptoFrames pl = Inr (qi_Crypto pkt)"
      using that unfolding ParseQUICInitial_def Let_def by (auto simp: res_simps split: if_splits)
    then show ?thesis
      using AssembleCrypto_total quicCryptoFrames_loop_small [of "[]"] by (force simp: quicCryptoFrames_def)
  qed
qed

text \<open>A library of constant functions, for evaluating the parser on a concrete packet.\<close>

definition null_crypto :: crypto_lib where
  "null_crypto =
     \<lparr>hkdf_Extract = \<lambda>_ _ _. Some [], hkdf_Expand = \<lambda>_ _ _ n. Some (replicate n 0),
      aes_Encrypt = \<lambda>_. Some (\<lambda>_. replicate 16 0), aes_gcm_Open = \<lambda>_. Some (\<lambda>_ ct _. Some ct),
      chacha_Open = \<lambda>_. Some (\<lambda>_ ct _. Some ct), hmac_Sum = \<lambda>_ _ _. []\<rparr>"

lemma null_crypto_lengths: "crypto_lengths null_crypto"
  by (auto simp: crypto_lengths_def null_crypto_def)

text \<open>An Initial packet with a packet number of one byte, whose payload is a CRYPTO frame of 15 bytes and a byte of padding.\<close>

definition sample_crypto :: bytes where
  "sample_crypto = [1, 2, 3, 4, 5, 6, 7, 8, 9, 10, 11, 12, 13, 14, 15]"

definition sample_initial :: bytes where
  "sample_initial = [0xc0, 0, 0, 0, 1, 0, 0, 0, 0x14, 5, 6, 0, 15] @ sample_crypto @ [0]"

lemma null_crypto_steps:
  "quicClientInitialKeys null_crypto d = Inr (replicate 16 0, replicate 12 0, replicate 16 0)"
  "length s = 16 \<Longrightarrow> quicHeaderMask null_crypto k s = Inr (replicate 16 0)"
  "quicDecrypt null_crypto k (replicate 12 0) pn h ct = Inr ct"
  by (simp_all add: null_crypto_def quicClientInitialKeys_def expandLabel_def expandLabelHash_def quicHeaderMask_def quicDecrypt_def
      aead_Open_def xorNonce_def Let_def)

lemma sample_initial_plaintext: "unprotectInitial null_crypto sample_initial [] 9 20 = Inr (5, [6, 0, 15] @ sample_crypto @ [0])"
  by (simp add: unprotectInitial_def null_crypto_steps sample_initial_def sample_crypto_def at_def slice_def Let_def)

lemma sample_initial_frames: "quicCryptoFrames ([6, 0, 15] @ sample_crypto @ [0]) = Inr [\<lparr>ch_Offset = 0, ch_Data = sample_crypto\<rparr>]"
  by (simp add: sample_crypto_def quicCryptoFrames_def quicCryptoFrames_loop.simps remaining_pos quicFrame_def u8_eq readQUICVarint_def rbytes_eq
      maxReasonableHelloLength_def)

lemma sample_initial_parsed:
  "ParseQUICInitial null_crypto sample_initial = Inr \<lparr>qi_Version = 1, qi_DestConnID = [], qi_SrcConnID = [],
     qi_PacketNum = 5, qi_Crypto = [\<lparr>ch_Offset = 0, ch_Data = sample_crypto\<rparr>], qi_Rest = []\<rparr>"
  using sample_initial_plaintext sample_initial_frames
  by (simp add: ParseQUICInitial_def readQUICConnID_def u8_eq rbytes_eq readQUICVarint_def be_word_def be_nat_def
      sample_initial_def sample_crypto_def at_def slice_def)

theorem ParseQUICInitial_never_panics_witness:
  "crypto_lengths null_crypto
    \<and> ParseQUICInitial null_crypto sample_initial = Inr \<lparr>qi_Version = 1, qi_DestConnID = [], qi_SrcConnID = [],
         qi_PacketNum = 5, qi_Crypto = [\<lparr>ch_Offset = 0, ch_Data = sample_crypto\<rparr>], qi_Rest = []\<rparr>
    \<and> (\<exists>out. AssembleCrypto [\<lparr>ch_Offset = 0, ch_Data = sample_crypto\<rparr>] = Inr out)"
  using ParseQUICInitial_never_panics [OF null_crypto_lengths, of sample_initial] null_crypto_lengths sample_initial_parsed by simp

text \<open>C28: \<open>AssembleCrypto\<close> returns the longest known prefix of the handshake: when every chunk is a piece
  of one stream of at most \<open>quicMaxCryptoLen\<close> bytes, in whatever order and with whatever overlaps, the
  result is the prefix of that stream up to the first byte no chunk covers; in particular it is the
  whole stream when the chunks cover it.\<close>

theorem AssembleCrypto_prefix:
  assumes "\<forall>c\<in>set chunks. chunk_of s c" and "length s \<le> quicMaxCryptoLen"
  shows "\<exists>n\<le>length s. AssembleCrypto chunks = Inr (take n s)
    \<and> (\<forall>i<n. covered chunks i) \<and> \<not> covered chunks n"
  using assms by (rule AssembleCrypto_takes)

definition sample_chunks :: "QUICCryptoChunk list" where
  "sample_chunks = [\<lparr>ch_Offset = 2, ch_Data = [30, 40]\<rparr>, \<lparr>ch_Offset = 0, ch_Data = [10, 20, 30]\<rparr>]"

theorem AssembleCrypto_prefix_witness:
  "\<exists>n\<le>length [10, 20, 30, 40 :: byte]. AssembleCrypto sample_chunks = Inr (take n [10, 20, 30, 40])
    \<and> (\<forall>i<n. covered sample_chunks i) \<and> \<not> covered sample_chunks n"
  by (rule AssembleCrypto_prefix) (simp_all add: sample_chunks_def chunk_of_def chunk_end_def)

text \<open>No nonce is used twice: under one IV of at least eight bytes, \<open>xorNonce\<close> gives different
  nonces for different record or packet numbers, over the whole 64-bit range, and keeps the length of
  the IV.\<close>

theorem xorNonce_injective:
  assumes "8 \<le> length iv"
  shows "\<exists>n m. xorNonce iv q = Inr n \<and> xorNonce iv r = Inr m \<and> length n = length iv
    \<and> (n = m \<longleftrightarrow> q = r)"
proof -
  have "unat q = unat r" if "be_bytes 8 (unat q) = be_bytes 8 (unat r)"
  proof -
    have "unat w < 2 ^ 64" for w :: "64 word" using unsigned_less [of w] by simp
    then show ?thesis using arg_cong [OF that, of be_nat] by (simp add: be_nat_be_bytes mod_less)
  qed
  then show ?thesis
    using assms map2_xor_inject [of "be_bytes 8 (unat q)" "drop (length iv - 8) iv" "be_bytes 8 (unat r)"]
    by (auto simp: xorNonce_def word_unat_eq_iff)
qed

theorem xorNonce_injective_witness:
  "\<exists>n m. xorNonce (replicate 12 7) 1 = Inr n \<and> xorNonce (replicate 12 7) 256 = Inr m
     \<and> length n = length (replicate 12 (7 :: byte)) \<and> (n = m \<longleftrightarrow> (1 :: 64 word) = 256)"
  by (rule xorNonce_injective) simp

end
