(* ===== verification/Quic_Chaos.thy ===== *)
theory Quic_Chaos
  imports Quic_Frames Wire_Quic
begin

text \<open>
  Chaos protection of the client's Initial packets: \<open>quic/chaos_protector.go\<close> and its caller
  \<open>appendPacketPayload\<close> in \<open>quic/packet_packer.go\<close>. The CRYPTO frames are split at random places,
  PING frames are added, the padding is spread between the frames and everything is shuffled.

  The theorems hold for every outcome of the random source. The last section puts the writer and the
  reader of the capture tool together.
\<close>

section \<open>Chaos protection\<close>

abbreviation minAddedCryptoFrames :: nat where "minAddedCryptoFrames \<equiv> 2"
abbreviation maxAddedCryptoFrames :: nat where "maxAddedCryptoFrames \<equiv> 10"
abbreviation minAddedPingFrames :: nat where "minAddedPingFrames \<equiv> 2"
abbreviation maxAddedPingFrames :: nat where "maxAddedPingFrames \<equiv> 10"

text \<open>A nil \<open>frame\<close> marks an entry of padding.\<close>

record chaosEntry =
  ce_frame :: "frame option"
  ce_paddingLen :: ByteCount

abbreviation frame_entry :: "frame \<Rightarrow> chaosEntry" where
  "frame_entry f \<equiv> \<lparr>ce_frame = Some f, ce_paddingLen = 0\<rparr>"

abbreviation padding_entry :: "ByteCount \<Rightarrow> chaosEntry" where
  "padding_entry n \<equiv> \<lparr>ce_frame = None, ce_paddingLen = n\<rparr>"

definition minCryptoFrameSize :: "ByteCount \<Rightarrow> ByteCount \<Rightarrow> pack_error + ByteCount" where
  "minCryptoFrameSize offset dataLength =
     rbind (varint (Len (uint64 offset))) (\<lambda>lo.
     rbind (varint (Len (uint64 dataLength))) (\<lambda>ll.
     Inr (int (1 + lo + ll))))"

text \<open>The first loop: the entries, and the span of the CRYPTO frames if there is one.\<close>

fun collect :: "frame list \<Rightarrow> chaosEntry list \<Rightarrow> (ByteCount \<times> ByteCount) option \<Rightarrow>
    chaosEntry list \<times> (ByteCount \<times> ByteCount) option" where
  "collect [] entries span = (entries, span)"
| "collect (f # fs) entries span =
     (case f of
        Crypto c \<Rightarrow>
          let end = cf_Offset c + int (length (cf_Data c));
              span = (case span of None \<Rightarrow> (cf_Offset c, end)
                      | Some (lowestOffset, highestEnd) \<Rightarrow> (min lowestOffset (cf_Offset c), max highestEnd end))
          in collect fs (entries @ [frame_entry (Crypto c)]) (Some span)
      | _ \<Rightarrow> collect fs (entries @ [frame_entry f]) span)"

text \<open>The second loop, \<open>n\<close> more turns: the frame to split is reached through a pointer, so shortening
  it changes its entry.\<close>

fun split_frames :: "nat \<Rightarrow> ByteCount \<Rightarrow> chaosEntry list \<Rightarrow> ByteCount \<Rightarrow> rand \<Rightarrow>
    pack_error + (chaosEntry list \<times> ByteCount \<times> rand)" where
  "split_frames 0 maxSplitOverhead entries remainingPadding rs = Inr (entries, remainingPadding, rs)"
| "split_frames (Suc n) maxSplitOverhead entries remainingPadding rs =
     (if remainingPadding < maxSplitOverhead then Inr (entries, remainingPadding, rs)
      else
        rbind (IntN PackPanic (length entries) rs) (\<lambda>(k, rs).
        rbind (at PackPanic entries k) (\<lambda>entry.
        case ce_frame entry of
          Some (Crypto f) \<Rightarrow>
            if length (cf_Data f) \<le> 1 then split_frames n maxSplitOverhead entries remainingPadding rs
            else
              rbind (minCryptoFrameSize (cf_Offset f) (int (length (cf_Data f)))) (\<lambda>oldOverhead.
              rbind (IntN PackPanic (length (cf_Data f) - 1) rs) (\<lambda>(j, rs).
              let keptDataLength = 1 + j;
                  newOffset = cf_Offset f + int keptDataLength in
              rbind (slice PackPanic (cf_Data f) keptDataLength (length (cf_Data f))) (\<lambda>newData.
              rbind (slice PackPanic (cf_Data f) 0 keptDataLength) (\<lambda>keptData.
              let entries = entries[k := entry\<lparr>ce_frame := Some (Crypto (f\<lparr>cf_Data := keptData\<rparr>))\<rparr>]
                            @ [frame_entry (Crypto \<lparr>cf_Offset = newOffset, cf_Data = newData\<rparr>)] in
              rbind (minCryptoFrameSize newOffset (int (length newData))) (\<lambda>sizeNew.
              rbind (minCryptoFrameSize (cf_Offset f) (int keptDataLength)) (\<lambda>sizeKept.
              split_frames n maxSplitOverhead entries
                (remainingPadding - sizeNew - sizeKept + oldOverhead) rs))))))
        | _ \<Rightarrow> split_frames n maxSplitOverhead entries remainingPadding rs)))"

definition add_pings :: "chaosEntry list \<Rightarrow> ByteCount \<Rightarrow> rand \<Rightarrow>
    pack_error + (chaosEntry list \<times> ByteCount \<times> rand)" where
  "add_pings entries remainingPadding rs =
     (if remainingPadding > 0 then
        rbind (IntN PackPanic (maxAddedPingFrames + 1 - minAddedPingFrames) rs) (\<lambda>(j, rs).
        let numPingFrames = minAddedPingFrames + j;
            numPingFrames = (if int numPingFrames > remainingPadding then nat remainingPadding else numPingFrames)
        in Inr (entries @ replicate numPingFrames (frame_entry Ping), remainingPadding - int numPingFrames, rs))
      else Inr (entries, remainingPadding, rs))"

text \<open>\<open>uint64(remainingPadding) + 1\<close> wraps, and \<open>Uint64N\<close> panics on zero.\<close>

fun spread_padding :: "chaosEntry list \<Rightarrow> chaosEntry list \<Rightarrow> ByteCount \<Rightarrow> rand \<Rightarrow>
    pack_error + (chaosEntry list \<times> rand)" where
  "spread_padding [] spread remainingPadding rs =
     Inr (if remainingPadding > 0 then spread @ [padding_entry remainingPadding] else spread, rs)"
| "spread_padding (entry # es) spread remainingPadding rs =
     rbind (IntN PackPanic (unat (uint64 remainingPadding + 1)) rs) (\<lambda>(p, rs).
     let paddingInThisSlot = int p in
     if paddingInThisSlot > 0
     then spread_padding es (spread @ [padding_entry paddingInThisSlot, entry])
            (remainingPadding - paddingInThisSlot) rs
     else spread_padding es (spread @ [entry]) remainingPadding rs)"

definition chaosProtect :: "frame list \<Rightarrow> ByteCount \<Rightarrow> rand \<Rightarrow> pack_error + ((chaosEntry list \<times> rand) option)" where
  "chaosProtect frames paddingLen rs =
     (if paddingLen \<le> 0 \<or> length frames = 0 then Inr None
      else case collect frames [] None of
        (_, None) \<Rightarrow> Inr None
      | (entries, Some (lowestOffset, highestEnd)) \<Rightarrow>
          rbind (minCryptoFrameSize highestEnd (highestEnd - lowestOffset)) (\<lambda>maxSplitOverhead.
          rbind (IntN PackPanic (maxAddedCryptoFrames + 1 - minAddedCryptoFrames) rs) (\<lambda>(j, rs).
          let numAddedCryptoFrames = minAddedCryptoFrames + j in
          rbind (split_frames numAddedCryptoFrames maxSplitOverhead entries paddingLen rs)
            (\<lambda>(entries, remainingPadding, rs).
          rbind (add_pings entries remainingPadding rs) (\<lambda>(entries, remainingPadding, rs).
          rbind (spread_padding entries [] remainingPadding rs) (\<lambda>(spread, rs).
          Inr (Some (Shuffle spread rs))))))))"

section \<open>The packet payload\<close>

text \<open>\<open>ack\<close> and the stream frames are represented by what they write, like the other frames.\<close>

record payload =
  pl_streamFrames :: "frame list"
  pl_frames :: "frame list"
  pl_ack :: "frame option"
  pl_length :: ByteCount

definition entry_Append :: "chaosEntry \<Rightarrow> bytes \<Rightarrow> pack_error + bytes" where
  "entry_Append e raw =
     (case ce_frame e of
        None \<Rightarrow>
          if ce_paddingLen e < 0 then Inl (PackPanic (LibraryPanic ''makeslice: len out of range''))
          else Inr (raw @ replicate (nat (ce_paddingLen e)) 0)
      | Some f \<Rightarrow> frame_Append f raw)"

fun append_all :: "('a \<Rightarrow> bytes \<Rightarrow> pack_error + bytes) \<Rightarrow> 'a list \<Rightarrow> bytes \<Rightarrow> pack_error + bytes" where
  "append_all app [] raw = Inr raw"
| "append_all app (x # xs) raw = rbind (app x raw) (append_all app xs)"

definition appendPacketPayload ::
  "bytes \<Rightarrow> payload \<Rightarrow> ByteCount \<Rightarrow> bool \<Rightarrow> rand \<Rightarrow> pack_error + (bytes \<times> rand)" where
  "appendPacketPayload raw pl paddingLen chaos rs =
     (let payloadOffset = length raw in
      rbind (case pl_ack pl of None \<Rightarrow> Inr raw | Some ack \<Rightarrow> frame_Append ack raw) (\<lambda>raw.
      rbind (if chaos \<and> length (pl_streamFrames pl) = 0 then chaosProtect (pl_frames pl) paddingLen rs
             else Inr None) (\<lambda>protected.
      case protected of
        Some (entries, rs) \<Rightarrow>
          rbind (append_all entry_Append entries raw) (\<lambda>raw.
          let total = int (length raw - payloadOffset) in
          if total \<noteq> pl_length pl + paddingLen
          then Inl (BugChaosPayloadSize (pl_length pl + paddingLen) total)
          else Inr (raw, rs))
      | None \<Rightarrow>
          let (frames, rs) = (if length (pl_frames pl) > 1 then Shuffle (pl_frames pl) rs else (pl_frames pl, rs)) in
          rbind (append_all frame_Append frames raw) (\<lambda>raw.
          rbind (append_all frame_Append (pl_streamFrames pl) raw) (\<lambda>raw.
          let raw = (if paddingLen > 0 then raw @ replicate (nat paddingLen) 0 else raw);
              payloadSize = int (length raw - payloadOffset) - paddingLen in
          if payloadSize \<noteq> pl_length pl then Inl (BugPayloadSize (pl_length pl) payloadSize)
          else Inr (raw, rs))))))"

section \<open>What an entry carries\<close>

text \<open>The cells of a CRYPTO frame are its bytes with their stream offsets.\<close>

definition cells :: "CryptoFrame \<Rightarrow> (int \<times> byte) list" where
  "cells f = map (\<lambda>i. (cf_Offset f + int i, cf_Data f ! i)) [0..<length (cf_Data f)]"

fun entry_cells :: "chaosEntry \<Rightarrow> (int \<times> byte) list" where
  "entry_cells \<lparr>ce_frame = Some (Crypto f), ce_paddingLen = _\<rparr> = cells f"
| "entry_cells _ = []"

fun entry_size :: "chaosEntry \<Rightarrow> int" where
  "entry_size \<lparr>ce_frame = Some (Crypto f), ce_paddingLen = _\<rparr> = int (crypto_size f)"
| "entry_size \<lparr>ce_frame = Some Ping, ce_paddingLen = _\<rparr> = 1"
| "entry_size \<lparr>ce_frame = Some (Other w), ce_paddingLen = _\<rparr> = int (case w of None \<Rightarrow> 0 | Some w \<Rightarrow> length w)"
| "entry_size \<lparr>ce_frame = None, ce_paddingLen = p\<rparr> = p"

fun is_other :: "chaosEntry \<Rightarrow> bool" where
  "is_other \<lparr>ce_frame = Some (Other w), ce_paddingLen = _\<rparr> = True"
| "is_other _ = False"

text \<open>A well-formed entry, over a property of CRYPTO frames that splitting preserves.\<close>

fun entry_ok :: "(CryptoFrame \<Rightarrow> bool) \<Rightarrow> chaosEntry \<Rightarrow> bool" where
  "entry_ok P \<lparr>ce_frame = Some (Crypto f), ce_paddingLen = _\<rparr> = P f"
| "entry_ok P \<lparr>ce_frame = Some (Other w), ce_paddingLen = _\<rparr> = (w \<noteq> None)"
| "entry_ok P \<lparr>ce_frame = Some Ping, ce_paddingLen = _\<rparr> = True"
| "entry_ok P \<lparr>ce_frame = None, ce_paddingLen = p\<rparr> = (0 \<le> p)"

definition splittable :: "(CryptoFrame \<Rightarrow> bool) \<Rightarrow> bool" where
  "splittable P = (\<forall>f j. P f \<longrightarrow> 0 < j \<longrightarrow> j < length (cf_Data f) \<longrightarrow>
     P (f\<lparr>cf_Data := take j (cf_Data f)\<rparr>) \<and> P \<lparr>cf_Offset = cf_Offset f + int j, cf_Data = drop j (cf_Data f)\<rparr>)"

definition in_span :: "int \<Rightarrow> int \<Rightarrow> CryptoFrame \<Rightarrow> bool" where
  "in_span lo hi f = (lo \<le> cf_Offset f \<and> cf_Offset f + int (length (cf_Data f)) \<le> hi)"

text \<open>Two lists of entries carry the same CRYPTO bytes and the same frames of other types.\<close>

definition same_content :: "chaosEntry list \<Rightarrow> chaosEntry list \<Rightarrow> bool" where
  "same_content es es' =
     (mset (concat (map entry_cells es')) = mset (concat (map entry_cells es))
      \<and> mset (filter is_other es') = mset (filter is_other es))"

lemma same_content_refl [simp]: "same_content es es"
  by (simp add: same_content_def)

lemma same_content_trans: "same_content a b \<Longrightarrow> same_content b c \<Longrightarrow> same_content a c"
  by (simp add: same_content_def)

lemma cells_split:
  assumes "j \<le> length (cf_Data f)"
  shows "cells f = cells (f\<lparr>cf_Data := take j (cf_Data f)\<rparr>)
    @ cells \<lparr>cf_Offset = cf_Offset f + int j, cf_Data = drop j (cf_Data f)\<rparr>"
  using assms by (intro nth_equalityI) (auto simp: cells_def nth_append)

lemma minCryptoFrameSize_eq:
  assumes "0 \<le> off" "off < 2 ^ 62" "0 \<le> len" "len < 2 ^ 62"
  shows "minCryptoFrameSize off len = Inr (int (1 + varint_size (nat off) + varint_size (nat len)))"
  using assms by (simp add: minCryptoFrameSize_def varint_Len unat_uint64)

section \<open>Splitting keeps the content and pays from the padding\<close>

lemma entry_of_frame:
  "ce_frame e = Some f \<Longrightarrow> \<exists>p. e = \<lparr>ce_frame = Some f, ce_paddingLen = p\<rparr>"
  by (cases e) simp

lemma split_entry:
  fixes f :: CryptoFrame
  defines "g j \<equiv> f\<lparr>cf_Data := take j (cf_Data f)\<rparr>"
    and "h j \<equiv> \<lparr>cf_Offset = cf_Offset f + int j, cf_Data = drop j (cf_Data f)\<rparr>"
  assumes k: "k < length es" "es ! k = \<lparr>ce_frame = Some (Crypto f), ce_paddingLen = p\<rparr>"
    and j: "0 < j" "j < length (cf_Data f)"
  defines "es' \<equiv> es[k := \<lparr>ce_frame = Some (Crypto (g j)), ce_paddingLen = p\<rparr>] @ [frame_entry (Crypto (h j))]"
  shows "same_content es es'"
    and "sum_list (map entry_size es') =
      sum_list (map entry_size es) - int (crypto_size f) + int (crypto_size (g j)) + int (crypto_size (h j))"
    and "splittable P \<Longrightarrow> list_all (entry_ok P) es \<Longrightarrow> list_all (entry_ok P) es'"
proof -
  define A B where "A = take k es" and "B = drop (Suc k) es"
  have es: "es = A @ \<lparr>ce_frame = Some (Crypto f), ce_paddingLen = p\<rparr> # B"
    using id_take_nth_drop [OF k(1)] k(2) by (simp add: A_def B_def)
  have es': "es' = A @ \<lparr>ce_frame = Some (Crypto (g j)), ce_paddingLen = p\<rparr> # B @ [frame_entry (Crypto (h j))]"
    using k(1) by (simp add: es'_def upd_conv_take_nth_drop A_def B_def)
  show "same_content es es'"
    using cells_split [of j f] j by (simp add: same_content_def es es' g_def h_def)
  show "sum_list (map entry_size es') =
      sum_list (map entry_size es) - int (crypto_size f) + int (crypto_size (g j)) + int (crypto_size (h j))"
    by (simp add: es es')
  show "list_all (entry_ok P) es'" if "splittable P" "list_all (entry_ok P) es"
    using that j by (simp add: es es' splittable_def g_def h_def)
qed

lemma split_cost:
  assumes "crypto_ok f" "in_span lo hi f" "0 \<le> lo" "hi < 2 ^ 62" "0 < j" "j < length (cf_Data f)"
  defines "g \<equiv> f\<lparr>cf_Data := take j (cf_Data f)\<rparr>"
    and "h \<equiv> \<lparr>cf_Offset = cf_Offset f + int j, cf_Data = drop j (cf_Data f)\<rparr>"
  shows "int (crypto_size g) + int (crypto_size h) - int (crypto_size f)
    \<le> int (1 + varint_size (nat hi) + varint_size (nat (hi - lo)))"
proof -
  have "varint_size j \<le> varint_size (length (cf_Data f))" using assms by (intro varint_size_mono) simp
  moreover have "varint_size (nat (cf_Offset f + int j)) \<le> varint_size (nat hi)"
    using assms by (intro varint_size_mono) (auto simp: in_span_def)
  moreover have "varint_size (length (cf_Data f) - j) \<le> varint_size (nat (hi - lo))"
    using assms by (intro varint_size_mono) (auto simp: in_span_def)
  ultimately show ?thesis
    using assms(5,6) by (simp add: g_def h_def crypto_size_def min_def)
qed

text \<open>The context the loops run in: the padding left and the size of the entries always add up.\<close>

definition balanced :: "(CryptoFrame \<Rightarrow> bool) \<Rightarrow> chaosEntry list \<Rightarrow> int \<Rightarrow> chaosEntry list \<Rightarrow> int \<Rightarrow> bool" where
  "balanced P es rem es' rem' =
     (list_all (entry_ok P) es' \<and> 0 \<le> rem' \<and> same_content es es' \<and> (es' = [] \<longrightarrow> es = [])
      \<and> sum_list (map entry_size es') + rem' = sum_list (map entry_size es) + rem)"

lemma balanced_refl: "list_all (entry_ok P) es \<Longrightarrow> 0 \<le> rem \<Longrightarrow> balanced P es rem es rem"
  by (simp add: balanced_def)

lemma balanced_trans: "balanced P a x b y \<Longrightarrow> balanced P b y c z \<Longrightarrow> balanced P a x c z"
  by (auto simp: balanced_def intro: same_content_trans)

lemma balanced_source: "balanced P es rem es' rem' \<Longrightarrow> list_all (entry_ok P) es' \<and> 0 \<le> rem'"
  by (simp add: balanced_def)

lemma split_step:
  fixes f :: CryptoFrame
  defines "g j \<equiv> f\<lparr>cf_Data := take j (cf_Data f)\<rparr>"
    and "h j \<equiv> \<lparr>cf_Offset = cf_Offset f + int j, cf_Data = drop j (cf_Data f)\<rparr>"
  assumes P: "splittable P" "\<And>f. P f \<Longrightarrow> crypto_ok f \<and> in_span lo hi f" "0 \<le> lo" "hi < 2 ^ 62"
    and es: "list_all (entry_ok P) es" "k < length es" "es ! k = \<lparr>ce_frame = Some (Crypto f), ce_paddingLen = p\<rparr>"
    and j: "0 < j" "j < length (cf_Data f)"
    and rem: "int (1 + varint_size (nat hi) + varint_size (nat (hi - lo))) \<le> rem"
  shows "balanced P es rem
      (es[k := \<lparr>ce_frame = Some (Crypto (g j)), ce_paddingLen = p\<rparr>] @ [frame_entry (Crypto (h j))])
      (rem - int (crypto_size (g j)) - int (crypto_size (h j)) + int (crypto_size f))"
proof -
  have "P f" using es by (force simp: list_all_length)
  then have f: "crypto_ok f" "in_span lo hi f" using P by auto
  have "0 \<le> rem - int (crypto_size (g j)) - int (crypto_size (h j)) + int (crypto_size f)"
    using split_cost [OF f P(3,4) j] rem by (simp add: g_def h_def)
  then show ?thesis
    using split_entry(1,2) [OF es(2,3) j] split_entry(3) [OF es(2,3) j P(1) es(1)]
    by (simp add: balanced_def g_def h_def)
qed

definition overhead :: "CryptoFrame \<Rightarrow> int" where
  "overhead f = int (1 + varint_size (nat (cf_Offset f)) + varint_size (length (cf_Data f)))"

lemma crypto_size_overhead: "int (crypto_size f) = overhead f + int (length (cf_Data f))"
  by (simp add: crypto_size_def overhead_def)

lemma split_overheads:
  assumes "crypto_ok f" "0 < j" "j < length (cf_Data f)"
  shows "minCryptoFrameSize (cf_Offset f) (int (length (cf_Data f))) = Inr (overhead f)"
    and "minCryptoFrameSize (cf_Offset f) (int j) = Inr (overhead (f\<lparr>cf_Data := take j (cf_Data f)\<rparr>))"
    and "minCryptoFrameSize (cf_Offset f + int j) (int (length (cf_Data f)) - int j) =
      Inr (overhead \<lparr>cf_Offset = cf_Offset f + int j, cf_Data = drop j (cf_Data f)\<rparr>)"
  using assms by (simp_all add: minCryptoFrameSize_eq crypto_ok_def overhead_def min_def nat_diff_distrib)

lemma split_frames_spec:
  assumes P: "splittable P" "\<And>f. P f \<Longrightarrow> crypto_ok f \<and> in_span lo hi f" "0 \<le> lo" "hi < 2 ^ 62"
    and mso: "mso = int (1 + varint_size (nat hi) + varint_size (nat (hi - lo)))"
    and "list_all (entry_ok P) es" "es \<noteq> []" "0 \<le> rem"
  shows "\<exists>es' rem' rs'. split_frames n mso es rem rs = Inr (es', rem', rs') \<and> balanced P es rem es' rem'"
  using assms(6-)
proof (induction n arbitrary: es rem rs)
  case 0
  then show ?case by (auto intro: balanced_refl)
next
  case (Suc n)
  show ?case
  proof (cases "rem < mso")
    case True
    then show ?thesis using Suc.prems by (auto intro: balanced_refl)
  next
    case False
    obtain k rs1 where k: "IntN PackPanic (length es) rs = Inr (k, rs1)" "k < length es"
      using IntN_pos [of "length es" PackPanic rs] Suc.prems by auto
    show ?thesis
    proof (cases "\<exists>f p. es ! k = \<lparr>ce_frame = Some (Crypto f), ce_paddingLen = p\<rparr> \<and> 1 < length (cf_Data f)")
      case True
      then obtain f p where f: "es ! k = \<lparr>ce_frame = Some (Crypto f), ce_paddingLen = p\<rparr>" "1 < length (cf_Data f)"
        by blast
      obtain i rs2 where i: "IntN PackPanic (length (cf_Data f) - 1) rs1 = Inr (i, rs2)" "i < length (cf_Data f) - 1"
        using IntN_pos [of "length (cf_Data f) - 1" PackPanic rs1] f by auto
      define j where "j = 1 + i"
      have j: "0 < j" "j < length (cf_Data f)" using i f by (auto simp: j_def)
      let ?g = "f\<lparr>cf_Data := take j (cf_Data f)\<rparr>"
        and ?h = "\<lparr>cf_Offset = cf_Offset f + int j, cf_Data = drop j (cf_Data f)\<rparr>"
      let ?es = "es[k := \<lparr>ce_frame = Some (Crypto ?g), ce_paddingLen = p\<rparr>] @ [frame_entry (Crypto ?h)]"
      let ?rem = "rem - int (crypto_size ?g) - int (crypto_size ?h) + int (crypto_size f)"
      have "P f" using Suc.prems k f by (force simp: list_all_length)
      then have ok: "crypto_ok f" using P by auto
      have step: "balanced P es rem ?es ?rem"
        using split_step [OF P Suc.prems(1) k(2) f(1) j, of rem] False mso by simp
      have rem: "rem - overhead ?h - overhead ?g + overhead f = ?rem"
        using j by (simp add: crypto_size_overhead)
      have ij: "Suc i = j" "1 + int i = int j" by (simp_all add: j_def)
      have run: "split_frames (Suc n) mso es rem rs = split_frames n mso ?es ?rem rs2"
        unfolding rem [symmetric] using False k f i(1) j split_overheads [OF ok j]
        by (simp add: at_def slice_def Let_def ij)
      obtain es' rem' rs' where "split_frames n mso ?es ?rem rs2 = Inr (es', rem', rs')" "balanced P ?es ?rem es' rem'"
        using Suc.IH [of ?es ?rem rs2] balanced_source [OF step] by auto
      then show ?thesis using run step by (auto intro: balanced_trans)
    next
      case no: False
      then have "split_frames (Suc n) mso es rem rs = split_frames n mso es rem rs1"
        using False k by (cases "es ! k") (auto simp: at_def split: option.splits frame.splits)
      then show ?thesis using Suc by simp
    qed
  qed
qed

lemma add_pings_spec:
  assumes "list_all (entry_ok P) es" "0 \<le> rem"
  shows "\<exists>es' rem' rs'. add_pings es rem rs = Inr (es', rem', rs') \<and> balanced P es rem es' rem'"
proof -
  obtain j rs' where "IntN PackPanic (maxAddedPingFrames + 1 - minAddedPingFrames) rs = Inr (j, rs')"
    using IntN_pos [of "maxAddedPingFrames + 1 - minAddedPingFrames" PackPanic rs] by auto
  moreover have "balanced P es rem (es @ replicate n (frame_entry Ping)) (rem - int n)" if "int n \<le> rem" for n
    using assms that
    by (auto simp: balanced_def same_content_def sum_list_replicate list_all_iff concat_replicate_trivial
        map_replicate_const)
  ultimately show ?thesis
    using assms by (auto simp: add_pings_def Let_def balanced_refl)
qed

lemma balanced_padding:
  assumes "list_all (entry_ok P) (a @ b)" "0 \<le> p" "p \<le> rem"
  shows "balanced P (a @ b) rem (a @ padding_entry p # b) (rem - p)"
  using assms by (auto simp: balanced_def same_content_def)

lemma spread_padding_spec:
  assumes "list_all (entry_ok P) (sp @ es)" "0 \<le> rem" "rem < 2 ^ 62"
  shows "\<exists>out rs'. spread_padding es sp rem rs = Inr (out, rs') \<and> balanced P (sp @ es) rem out 0"
  using assms
proof (induction es arbitrary: sp rem rs)
  case Nil
  then show ?case using balanced_padding [of P sp "[]" rem rem] by (auto intro: balanced_refl)
next
  case (Cons e es)
  have n: "unat (uint64 rem + 1) = nat rem + 1"
    using Cons.prems by (simp add: unat_word_ariths unat_uint64)
  obtain p rs' where p: "IntN PackPanic (nat rem + 1) rs = Inr (p, rs')" "int p \<le> rem"
    using IntN_pos [of "nat rem + 1" PackPanic rs] Cons.prems by fastforce
  show ?case
  proof (cases "p > 0")
    case True
    have step: "balanced P (sp @ e # es) rem ((sp @ [padding_entry (int p), e]) @ es) (rem - int p)"
      using balanced_padding [of P sp "e # es" "int p" rem] Cons.prems p by simp
    obtain out rs2 where "spread_padding es (sp @ [padding_entry (int p), e]) (rem - int p) rs' = Inr (out, rs2)"
      "balanced P ((sp @ [padding_entry (int p), e]) @ es) (rem - int p) out 0"
      using Cons.IH [of "sp @ [padding_entry (int p), e]" "rem - int p" rs'] balanced_source [OF step]
        Cons.prems by auto
    then show ?thesis using True p n step by (auto simp: Let_def intro: balanced_trans)
  next
    case False
    then show ?thesis using Cons.IH [of "sp @ [e]" rem rs'] Cons.prems p n by (auto simp: Let_def)
  qed
qed

section \<open>The whole of chaos protection\<close>

fun frame_ok :: "(CryptoFrame \<Rightarrow> bool) \<Rightarrow> frame \<Rightarrow> bool" where
  "frame_ok P (Crypto c) = P c"
| "frame_ok P Ping = True"
| "frame_ok P (Other w) = (w \<noteq> None)"

lemma entry_ok_frame [simp]: "entry_ok P (frame_entry f) = frame_ok P f"
  by (cases f) auto

lemma collect_entries: "fst (collect fs es span) = es @ map frame_entry fs"
  by (induction fs es span rule: collect.induct) (auto simp: Let_def split: frame.splits option.splits)

definition span_ok :: "frame list \<Rightarrow> (int \<times> int) option \<Rightarrow> (int \<times> int) option \<Rightarrow> bool" where
  "span_ok fs span span' =
     ((span' = None \<longleftrightarrow> span = None \<and> (\<forall>c. Crypto c \<notin> set fs))
      \<and> (\<forall>lo hi. span' = Some (lo, hi) \<longrightarrow> 0 \<le> lo \<and> hi < 2 ^ 62
          \<and> (\<forall>c. Crypto c \<in> set fs \<longrightarrow> in_span lo hi c)
          \<and> (\<forall>l h. span = Some (l, h) \<longrightarrow> lo \<le> l \<and> h \<le> hi)))"

lemma span_ok_skip: "(\<And>c. f \<noteq> Crypto c) \<Longrightarrow> span_ok (f # fs) span span' = span_ok fs span span'"
proof -
  assume "\<And>c. f \<noteq> Crypto c"
  then have "Crypto c \<in> set (f # fs) \<longleftrightarrow> Crypto c \<in> set fs" for c by (metis set_ConsD list.set_intros(2))
  then show ?thesis by (simp only: span_ok_def)
qed

lemma collect_span:
  assumes "list_all (frame_ok crypto_ok) fs" "\<And>l h. span = Some (l, h) \<Longrightarrow> 0 \<le> l \<and> h < 2 ^ 62"
  shows "span_ok fs span (snd (collect fs es span))"
  using assms
proof (induction fs arbitrary: es span)
  case Nil
  then show ?case by (simp add: span_ok_def)
next
  case (Cons f fs)
  show ?case
  proof (cases f)
    case (Crypto c)
    define e where "e = cf_Offset c + int (length (cf_Data c))"
    define sp where "sp = (case span of None \<Rightarrow> (cf_Offset c, e)
                      | Some (lo, hi) \<Rightarrow> (min lo (cf_Offset c), max hi e))"
    have c: "0 \<le> cf_Offset c" "e < 2 ^ 62"
      using Cons.prems(1) Crypto by (auto simp: crypto_ok_def e_def)
    have sp: "0 \<le> fst sp" "snd sp < 2 ^ 62" "fst sp \<le> cf_Offset c" "e \<le> snd sp"
      "\<And>l h. span = Some (l, h) \<Longrightarrow> fst sp \<le> l \<and> h \<le> snd sp"
      using c Cons.prems(2) by (auto simp: sp_def split: option.splits)
    have run: "collect (f # fs) es span = collect fs (es @ [frame_entry f]) (Some sp)"
      using Crypto by (cases span) (auto simp: sp_def e_def Let_def)
    have IH: "span_ok fs (Some sp) (snd (collect (f # fs) es span))"
      unfolding run using Cons.prems(1) sp(1,2) by (intro Cons.IH) auto
    then have some: "snd (collect (f # fs) es span) \<noteq> None" by (simp add: span_ok_def)
    have "0 \<le> lo \<and> hi < 2 ^ 62 \<and> (\<forall>c. Crypto c \<in> set (f # fs) \<longrightarrow> in_span lo hi c)
          \<and> (\<forall>l h. span = Some (l, h) \<longrightarrow> lo \<le> l \<and> h \<le> hi)"
      if "snd (collect (f # fs) es span) = Some (lo, hi)" for lo hi
    proof -
      have 1: "0 \<le> lo" "hi < 2 ^ 62" "\<forall>c. Crypto c \<in> set fs \<longrightarrow> in_span lo hi c" "lo \<le> fst sp" "snd sp \<le> hi"
        using IH that unfolding span_ok_def by (metis prod.collapse)+
      moreover have "in_span lo hi c" using 1 sp(3,4) by (simp add: in_span_def e_def)
      moreover have "lo \<le> l \<and> h \<le> hi" if "span = Some (l, h)" for l h using sp(5) [OF that] 1 by simp
      ultimately show ?thesis using Crypto by simp
    qed
    moreover have "Crypto c \<in> set (f # fs)" using Crypto by simp
    ultimately show ?thesis using some unfolding span_ok_def by blast
  next
    case Ping
    then show ?thesis using Cons.IH [of span "es @ [frame_entry f]"] Cons.prems by (simp add: span_ok_skip)
  next
    case (Other w)
    then show ?thesis using Cons.IH [of span "es @ [frame_entry f]"] Cons.prems by (simp add: span_ok_skip)
  qed
qed

lemma balanced_weaken:
  assumes "balanced P es rem es' rem'" "\<And>f. P f \<Longrightarrow> Q f"
  shows "balanced Q es rem es' rem'"
proof -
  have "entry_ok P e \<Longrightarrow> entry_ok Q e" for e
    using assms(2) by (cases "(P, e)" rule: entry_ok.cases) auto
  then show ?thesis using assms(1) by (auto simp: balanced_def list_all_iff)
qed

lemma sum_list_perm:
  fixes g :: "'a \<Rightarrow> 'b::comm_monoid_add"
  shows "mset xs = mset ys \<Longrightarrow> sum_list (map g xs) = sum_list (map g ys)"
  by (metis mset_map sum_mset_sum_list)

lemma balanced_perm:
  assumes "balanced P es rem es' rem'" "mset es'' = mset es'"
  shows "balanced P es rem es'' rem'"
proof -
  have "mset (concat (map entry_cells es'')) = mset (concat (map entry_cells es'))"
    using sum_list_perm [OF assms(2), of "mset \<circ> entry_cells"] by (simp add: mset_concat)
  moreover have "mset (filter is_other es'') = mset (filter is_other es')" using assms(2) by simp
  moreover have "set es'' = set es'" using assms(2) by (rule mset_eq_setD)
  moreover have "length es'' = length es'" using assms(2) by (rule mset_eq_length)
  moreover note sum_list_perm [OF assms(2), of entry_size]
  ultimately show ?thesis using assms by (auto simp: balanced_def same_content_def list_all_iff)
qed

lemma splittable_span: "splittable P \<Longrightarrow> splittable (\<lambda>f. P f \<and> in_span lo hi f)"
  by (fastforce simp: splittable_def in_span_def)

lemma splittable_ok: "splittable crypto_ok"
  by (simp add: splittable_def crypto_ok_def)

lemma chaosProtect_balanced:
  assumes P: "splittable P" "\<And>f. P f \<Longrightarrow> crypto_ok f" and fs: "list_all (frame_ok P) fs"
    and size: "sum_list (map (entry_size \<circ> frame_entry) fs) + pad < 2 ^ 62"
  shows "if 0 < pad \<and> (\<exists>c. Crypto c \<in> set fs)
    then \<exists>es rs'. chaosProtect fs pad rs = Inr (Some (es, rs')) \<and> balanced P (map frame_entry fs) pad es 0
    else chaosProtect fs pad rs = Inr None"
proof -
  have mono: "frame_ok P f \<Longrightarrow> frame_ok crypto_ok f" for f using P(2) by (cases f) auto
  have "span_ok fs None (snd (collect fs [] None))"
    by (rule collect_span) (use fs mono in \<open>auto simp: list_all_iff\<close>)
  then obtain span where c: "collect fs [] None = (map frame_entry fs, span)" "span_ok fs None span"
    using collect_entries [of fs "[]" None] by (cases "collect fs [] None") auto
  show ?thesis
  proof (cases "0 < pad \<and> (\<exists>c. Crypto c \<in> set fs)")
    case False
    then show ?thesis using c by (auto simp: chaosProtect_def span_ok_def)
  next
    case True
    then obtain lo hi where span: "span = Some (lo, hi)" "0 \<le> lo" "hi < 2 ^ 62"
      "\<And>c. Crypto c \<in> set fs \<Longrightarrow> in_span lo hi c"
      using c(2) by (cases span) (auto simp: span_ok_def)
    let ?P = "\<lambda>f. P f \<and> in_span lo hi f"
    have fsP: "frame_ok ?P f" if "f \<in> set fs" for f
    proof -
      have "frame_ok P f" using that fs by (simp add: list_all_iff)
      then show ?thesis using that span(4) by (cases rule: frame_ok.cases [of "(P, f)"]) auto
    qed
    have ok: "list_all (entry_ok ?P) (map frame_entry fs)" by (auto simp: list_all_iff fsP)
    obtain c0 where "in_span lo hi c0" using True span(4) by blast
    then have lohi: "lo \<le> hi" by (auto simp: in_span_def)
    define mso where "mso = int (1 + varint_size (nat hi) + varint_size (nat (hi - lo)))"
    have m: "minCryptoFrameSize hi (hi - lo) = Inr mso"
      using span(2,3) lohi by (simp add: minCryptoFrameSize_eq mso_def)
    obtain j rs1 where j: "IntN PackPanic (maxAddedCryptoFrames + 1 - minAddedCryptoFrames) rs = Inr (j, rs1)"
      using IntN_pos [of "maxAddedCryptoFrames + 1 - minAddedCryptoFrames" PackPanic rs] by auto
    have ne: "map frame_entry fs \<noteq> []" using True by auto
    have "\<exists>es1 rem1 rs2. split_frames (minAddedCryptoFrames + j) mso (map frame_entry fs) pad rs1 = Inr (es1, rem1, rs2)
        \<and> balanced ?P (map frame_entry fs) pad es1 rem1"
      by (rule split_frames_spec [OF splittable_span [OF P(1)] _ span(2,3) mso_def ok ne]) (use P(2) True in simp_all)
    then obtain es1 rem1 rs2 where 1:
      "split_frames (minAddedCryptoFrames + j) mso (map frame_entry fs) pad rs1 = Inr (es1, rem1, rs2)"
      "balanced ?P (map frame_entry fs) pad es1 rem1" by blast
    obtain es2 rem2 rs3 where 2: "add_pings es1 rem1 rs2 = Inr (es2, rem2, rs3)" "balanced ?P es1 rem1 es2 rem2"
      using add_pings_spec balanced_source [OF 1(2)] by blast
    note b2 = balanced_trans [OF 1(2) 2(2)]
    have "0 \<le> entry_size e" if "entry_ok ?P e" for e using that by (cases "(?P, e)" rule: entry_ok.cases) auto
    then have "0 \<le> sum_list (map entry_size es2)"
      using balanced_source [OF b2] by (intro sum_list_nonneg) (auto simp: list_all_iff)
    then have "rem2 < 2 ^ 62" using b2 size by (simp add: balanced_def)
    then obtain out rs4 where 3: "spread_padding es2 [] rem2 rs3 = Inr (out, rs4)" "balanced ?P ([] @ es2) rem2 out 0"
      using spread_padding_spec [of ?P "[]" es2 rem2 rs3] balanced_source [OF b2] by auto
    have "balanced ?P (map frame_entry fs) pad (fst (Shuffle out rs4)) 0"
      using balanced_perm [OF balanced_trans [OF b2]] 3(2) by simp
    then have "balanced P (map frame_entry fs) pad (fst (Shuffle out rs4)) 0"
      by (rule balanced_weaken) simp
    moreover have "chaosProtect fs pad rs = Inr (Some (Shuffle out rs4))"
    proof -
      have "\<not> (pad \<le> 0 \<or> length fs = 0)" using True ne by simp
      then show ?thesis
        unfolding chaosProtect_def c(1) span(1) by (simp only: m j 1(1) 2(1) 3(1) rbind_Inr Let_def prod.case
            option.case if_False)
    qed
    ultimately show ?thesis using True by (cases "Shuffle out rs4") auto
  qed
qed

section \<open>What the entries look like on the wire\<close>

fun entry_chunks :: "chaosEntry \<Rightarrow> QUICCryptoChunk list" where
  "entry_chunks \<lparr>ce_frame = Some (Crypto f), ce_paddingLen = _\<rparr> =
     [\<lparr>ch_Offset = uint64 (cf_Offset f), ch_Data = cf_Data f\<rparr>]"
| "entry_chunks _ = []"

text \<open>\<open>w\<close> reads as \<open>cs\<close>: in front of any input, the frame walk of the capture tool turns it into
  these chunks.\<close>

definition reads_as :: "bytes \<Rightarrow> QUICCryptoChunk list \<Rightarrow> bool" where
  "reads_as w cs =
     (\<forall>d t acc. quicCryptoFrames_loop (cursor d (w @ t)) acc = quicCryptoFrames_loop (cursor (d @ w) t) (acc @ cs))"

lemma reads_as_Nil [simp]: "reads_as [] []"
  by (simp add: reads_as_def)

lemma reads_as_append: "reads_as v cs \<Longrightarrow> reads_as w ds \<Longrightarrow> reads_as (v @ w) (cs @ ds)"
  by (simp add: reads_as_def)

lemma reads_as_frame:
  assumes "w \<noteq> []" "\<And>d t. quicFrame (cursor d (w @ t)) = Inr (cursor (d @ w) t, cs)"
  shows "reads_as w cs"
  unfolding reads_as_def
proof (intro allI)
  fix d t acc
  have "remaining (cursor d (w @ t)) > 0" using assms(1) by (simp add: remaining_pos cursor_def)
  then show "quicCryptoFrames_loop (cursor d (w @ t)) acc = quicCryptoFrames_loop (cursor (d @ w) t) (acc @ cs)"
    by (subst quicCryptoFrames_loop.simps) (simp add: assms(2))
qed

lemma reads_as_padding: "reads_as (replicate n 0) []"
proof (induction n)
  case (Suc n)
  have "reads_as [0] []" by (rule reads_as_frame) (simp_all add: quicFrame_def u8_cursor)
  from reads_as_append [OF this Suc] show ?case by simp
qed simp

lemma reads_as_ping: "reads_as [FrameTypePing] []"
  by (rule reads_as_frame) (simp_all add: quicFrame_def u8_cursor)

lemma entry_encoding:
  assumes "entry_ok crypto_ok e"
  shows "\<exists>w. (\<forall>raw. entry_Append e raw = Inr (raw @ w)) \<and> int (length w) = entry_size e
    \<and> (\<not> is_other e \<and> (\<forall>c\<in>set (entry_chunks e). length (ch_Data c) \<le> quicMaxCryptoLen)
         \<longrightarrow> reads_as w (entry_chunks e))"
  using assms
proof (cases "(crypto_ok, e)" rule: entry_ok.cases)
  case (1 P f p)
  then have ok: "crypto_ok f" using assms by simp
  obtain eo el where e: "\<And>b. CryptoFrame_Append f b = Inr (b @ FrameTypeCrypto # eo @ el @ cf_Data f)"
    "1 + length eo + length el + length (cf_Data f) = crypto_size f"
    "\<And>d rest. readQUICVarint (cursor d (eo @ rest)) = Inr (uint64 (cf_Offset f), cursor (d @ eo) rest)"
    "\<And>d rest. readQUICVarint (cursor d (el @ rest)) = Inr (word_of_nat (length (cf_Data f)), cursor (d @ el) rest)"
    using CryptoFrame_encoding [OF ok] by metis
  let ?w = "FrameTypeCrypto # eo @ el @ cf_Data f"
  have "reads_as ?w (entry_chunks e)" if "length (cf_Data f) \<le> quicMaxCryptoLen"
    using 1 that crypto_ok_bounds(6) [OF ok]
    by (intro reads_as_frame) (simp_all add: quicFrame_def u8_cursor e rbytes_cursor maxReasonableHelloLength_def)
  then show ?thesis using 1 e(1,2) by (intro exI [of _ ?w]) (auto simp: entry_Append_def frame_Append_def)
next
  case (2 P w p)
  then show ?thesis using assms by (auto simp: entry_Append_def frame_Append_def)
next
  case (3 P p)
  then show ?thesis using reads_as_ping
    by (auto simp: entry_Append_def frame_Append_def PingFrame_Append_def)
next
  case (4 P p)
  then show ?thesis using assms reads_as_padding by (auto simp: entry_Append_def)
qed

lemma entries_encoding:
  assumes "list_all (entry_ok crypto_ok) es"
  shows "\<exists>w. (\<forall>raw. append_all entry_Append es raw = Inr (raw @ w))
    \<and> int (length w) = sum_list (map entry_size es)
    \<and> (filter is_other es = [] \<and> (\<forall>c\<in>set (concat (map entry_chunks es)). length (ch_Data c) \<le> quicMaxCryptoLen)
         \<longrightarrow> reads_as w (concat (map entry_chunks es)))"
  using assms
proof (induction es)
  case (Cons e es)
  obtain v where v: "\<forall>raw. entry_Append e raw = Inr (raw @ v)" "int (length v) = entry_size e"
    "\<not> is_other e \<and> (\<forall>c\<in>set (entry_chunks e). length (ch_Data c) \<le> quicMaxCryptoLen) \<longrightarrow> reads_as v (entry_chunks e)"
    using entry_encoding [of e] Cons.prems by auto
  obtain w where w: "\<forall>raw. append_all entry_Append es raw = Inr (raw @ w)"
    "int (length w) = sum_list (map entry_size es)"
    "filter is_other es = [] \<and> (\<forall>c\<in>set (concat (map entry_chunks es)). length (ch_Data c) \<le> quicMaxCryptoLen)
         \<longrightarrow> reads_as w (concat (map entry_chunks es))"
    using Cons by auto
  show ?case using v w by (intro exI [of _ "v @ w"]) (auto intro!: reads_as_append split: if_splits)
qed simp

lemma append_frames: "append_all frame_Append fs = append_all entry_Append (map frame_entry fs)"
proof
  show "append_all frame_Append fs raw = append_all entry_Append (map frame_entry fs) raw" for raw
    by (induction fs arbitrary: raw) (auto simp: entry_Append_def intro!: rbind_cong)
qed

section \<open>The payload\<close>

definition payload_frames :: "payload \<Rightarrow> frame list" where
  "payload_frames pl = pl_frames pl @ pl_streamFrames pl"

definition frame_size :: "frame \<Rightarrow> int" where
  "frame_size f = entry_size (frame_entry f)"

definition payload_ok :: "(CryptoFrame \<Rightarrow> bool) \<Rightarrow> payload \<Rightarrow> bool" where
  "payload_ok P pl =
     (list_all (frame_ok P) (payload_frames pl) \<and> (\<forall>a. pl_ack pl = Some a \<longrightarrow> frame_ok P a)
      \<and> pl_length pl = (case pl_ack pl of None \<Rightarrow> 0 | Some a \<Rightarrow> frame_size a)
                        + sum_list (map frame_size (payload_frames pl)))"

lemma frame_encoding:
  assumes "frame_ok crypto_ok f"
  shows "\<exists>w. (\<forall>raw. frame_Append f raw = Inr (raw @ w)) \<and> int (length w) = frame_size f"
  using entry_encoding [of "frame_entry f"] assms by (auto simp: entry_Append_def frame_size_def)

lemma frame_ok_mono: "frame_ok P f \<Longrightarrow> (\<And>c. P c \<Longrightarrow> Q c) \<Longrightarrow> frame_ok Q f"
  by (cases f) auto

lemma entry_ok_mono: "entry_ok P e \<Longrightarrow> (\<And>c. P c \<Longrightarrow> Q c) \<Longrightarrow> entry_ok Q e"
  by (cases "(P, e)" rule: entry_ok.cases) auto

text \<open>Without chaos protection: the frames in some order, then the padding.\<close>

lemma plain_balanced:
  assumes "list_all (frame_ok P) (payload_frames pl)" "0 \<le> pad" "mset fs = mset (pl_frames pl)"
  shows "balanced P (map frame_entry (payload_frames pl)) pad
      (map frame_entry fs @ map frame_entry (pl_streamFrames pl) @ [padding_entry pad]) 0"
proof -
  have "balanced P (map frame_entry (payload_frames pl) @ []) pad
      (map frame_entry (payload_frames pl) @ padding_entry pad # []) (pad - pad)"
    using assms by (intro balanced_padding) (auto simp: list_all_iff)
  then have "balanced P (map frame_entry (payload_frames pl)) pad
      (map frame_entry (payload_frames pl) @ [padding_entry pad]) 0" by simp
  then show ?thesis
    by (rule balanced_perm) (simp add: payload_frames_def assms(3))
qed

lemma append_all_append: "append_all app (xs @ ys) raw = rbind (append_all app xs raw) (append_all app ys)"
  by (induction xs arbitrary: raw) (auto simp: rbind_assoc intro!: rbind_cong)

lemma ack_encoding:
  assumes "payload_ok P pl" "\<forall>f. P f \<longrightarrow> crypto_ok f"
  shows "\<exists>a. (\<forall>raw. (case pl_ack pl of None \<Rightarrow> Inr raw | Some ack \<Rightarrow> frame_Append ack raw) = Inr (raw @ a))
    \<and> int (length a) = (case pl_ack pl of None \<Rightarrow> 0 | Some a \<Rightarrow> frame_size a) \<and> (pl_ack pl = None \<longrightarrow> a = [])"
proof (cases "pl_ack pl")
  case (Some ack)
  then have "frame_ok crypto_ok ack" using assms by (auto simp: payload_ok_def intro: frame_ok_mono)
  then show ?thesis using Some frame_encoding [of ack] by auto
qed simp

lemma list_all_entry_mono:
  assumes "list_all (entry_ok P) es" "\<And>f. P f \<Longrightarrow> Q f"
  shows "list_all (entry_ok Q) es"
  using assms(1) by (rule list.pred_mono_strong) (use assms(2) in \<open>blast intro: entry_ok_mono\<close>)

lemma balanced_encoding:
  assumes "balanced P (map frame_entry fs) pad es 0" "\<forall>f. P f \<longrightarrow> crypto_ok f"
  shows "\<exists>w. (\<forall>raw. append_all entry_Append es raw = Inr (raw @ w))
    \<and> int (length w) = sum_list (map frame_size fs) + pad"
proof -
  have "list_all (entry_ok crypto_ok) es"
    using assms by (auto simp: balanced_def intro: list_all_entry_mono)
  then obtain w where "\<forall>raw. append_all entry_Append es raw = Inr (raw @ w)"
    "int (length w) = sum_list (map entry_size es)"
    using entries_encoding by blast
  moreover have "sum_list (map entry_size es) = sum_list (map frame_size fs) + pad"
    using assms(1) by (simp add: balanced_def frame_size_def [abs_def] o_def)
  ultimately show ?thesis by auto
qed

text \<open>Either way, the payload is the ACK frame followed by a balanced list of entries.\<close>

definition packed :: "(CryptoFrame \<Rightarrow> bool) \<Rightarrow> payload \<Rightarrow> ByteCount \<Rightarrow> bytes \<Rightarrow> pack_error + (bytes \<times> rand) \<Rightarrow> bool" where
  "packed P pl pad raw result =
     (\<exists>a es w rs'. balanced P (map frame_entry (payload_frames pl)) pad es 0
      \<and> (\<forall>raw. append_all entry_Append es raw = Inr (raw @ w))
      \<and> (pl_ack pl = None \<longrightarrow> a = []) \<and> int (length (a @ w)) = pl_length pl + pad
      \<and> result = Inr (raw @ a @ w, rs'))"

lemma size_eq: "int (length x) = n \<Longrightarrow> int (length (raw @ x) - length raw) = n"
  by simp

lemma chaos_branch:
  assumes P: "\<forall>f. P f \<longrightarrow> crypto_ok f" and pl: "payload_ok P pl"
    and prot: "(if chaos \<and> length (pl_streamFrames pl) = 0 then chaosProtect (pl_frames pl) pad rs else Inr None)
      = Inr (Some (es, rs'))"
    and bal: "balanced P (map frame_entry (payload_frames pl)) pad es 0"
  shows "packed P pl pad raw (appendPacketPayload raw pl pad chaos rs)"
proof -
  obtain a where a: "\<forall>raw. (case pl_ack pl of None \<Rightarrow> Inr raw | Some ack \<Rightarrow> frame_Append ack raw) = Inr (raw @ a)"
    "int (length a) = (case pl_ack pl of None \<Rightarrow> 0 | Some a \<Rightarrow> frame_size a)" "pl_ack pl = None \<longrightarrow> a = []"
    using ack_encoding [OF pl P] by (elim exE conjE) (rule that)
  obtain w where w: "\<forall>raw. append_all entry_Append es raw = Inr (raw @ w)"
    "int (length w) = sum_list (map frame_size (payload_frames pl)) + pad"
    using balanced_encoding [OF bal P] by (elim exE conjE) (rule that)
  have len: "int (length (a @ w)) = pl_length pl + pad" using a(2) w(2) pl by (simp add: payload_ok_def)
  have "appendPacketPayload raw pl pad chaos rs = Inr (raw @ a @ w, rs')"
    unfolding appendPacketPayload_def Let_def a(1) [THEN spec] rbind_Inr prot option.case prod.case
      w(1) [THEN spec]
    using size_eq [OF len, of raw] by simp
  then show ?thesis
    unfolding packed_def by (intro exI [of _ a] exI [of _ es] exI [of _ w] exI [of _ rs'] conjI bal w(1) a(3) len)
qed

lemma plain_branch:
  assumes P: "\<forall>f. P f \<longrightarrow> crypto_ok f" and pl: "payload_ok P pl" and pad: "0 \<le> pad"
    and prot: "(if chaos \<and> length (pl_streamFrames pl) = 0 then chaosProtect (pl_frames pl) pad rs else Inr None)
      = Inr None"
  shows "packed P pl pad raw (appendPacketPayload raw pl pad chaos rs)"
proof -
  obtain a where a: "\<forall>raw. (case pl_ack pl of None \<Rightarrow> Inr raw | Some ack \<Rightarrow> frame_Append ack raw) = Inr (raw @ a)"
    "int (length a) = (case pl_ack pl of None \<Rightarrow> 0 | Some a \<Rightarrow> frame_size a)" "pl_ack pl = None \<longrightarrow> a = []"
    using ack_encoding [OF pl P] by (elim exE conjE) (rule that)
  define fr where "fr = (if length (pl_frames pl) > 1 then Shuffle (pl_frames pl) rs else (pl_frames pl, rs))"
  obtain fs rs' where fs: "fr = (fs, rs')" by (cases fr)
  have "mset fs = mset (pl_frames pl)"
    using fs mset_Shuffle [of "pl_frames pl" rs] unfolding fr_def by (metis fst_conv)
  moreover have ok: "list_all (frame_ok P) (payload_frames pl)" using pl by (simp add: payload_ok_def)
  ultimately have bal: "balanced P (map frame_entry (payload_frames pl)) pad
      (map frame_entry fs @ map frame_entry (pl_streamFrames pl) @ [padding_entry pad]) 0" (is "balanced _ _ _ ?es _")
    using plain_balanced pad by blast
  then have "list_all (entry_ok crypto_ok) ?es" using P by (auto dest!: balanced_source intro: list_all_entry_mono)
  then obtain u v where uv: "\<forall>raw. append_all entry_Append (map frame_entry fs) raw = Inr (raw @ u)"
    "\<forall>raw. append_all entry_Append (map frame_entry (pl_streamFrames pl)) raw = Inr (raw @ v)"
    using entries_encoding [of "map frame_entry fs"] entries_encoding [of "map frame_entry (pl_streamFrames pl)"]
    by (auto simp: list_all_append)
  let ?w = "u @ v @ replicate (nat pad) 0"
  have w: "\<forall>raw. append_all entry_Append ?es raw = Inr (raw @ ?w)"
    using uv pad by (simp add: append_all_append entry_Append_def)
  then have "int (length ?w) = sum_list (map frame_size (payload_frames pl)) + pad"
    using balanced_encoding [OF bal P] by (metis append_same_eq sum.inject(2) append_Nil)
  then have len: "int (length (a @ ?w)) = pl_length pl + pad" using a(2) pl by (simp add: payload_ok_def)
  have z: "(if 0 < pad then raw @ replicate (nat pad) 0 else raw) = raw @ replicate (nat pad) 0" for raw :: bytes
    using pad by simp
  have "appendPacketPayload raw pl pad chaos rs = Inr (raw @ a @ ?w, rs')"
    unfolding appendPacketPayload_def Let_def a(1) [THEN spec] rbind_Inr prot option.case fr_def [symmetric] fs
      prod.case append_frames uv(1) [THEN spec] uv(2) [THEN spec] z
    using size_eq [OF len, of raw] by simp
  then show ?thesis
    unfolding packed_def by (intro exI [of _ a] exI [of _ ?es] exI [of _ ?w] exI [of _ rs'] conjI bal w a(3) len)
qed

lemma appendPacketPayload_packed:
  assumes P: "splittable P" "\<And>f. P f \<Longrightarrow> crypto_ok f" and pl: "payload_ok P pl"
    and pad: "0 \<le> pad" "pl_length pl + pad < 2 ^ 62"
  shows "packed P pl pad raw (appendPacketPayload raw pl pad chaos rs)"
proof -
  have P': "\<forall>f. P f \<longrightarrow> crypto_ok f" using P(2) by blast
  show ?thesis
  proof (cases "chaos \<and> length (pl_streamFrames pl) = 0")
    case False
    then show ?thesis using plain_branch [OF P' pl pad(1)] by auto
  next
    case True
    then have fr: "payload_frames pl = pl_frames pl" by (simp add: payload_frames_def)
    have "0 \<le> int (length a)" for a :: bytes by simp
    then have "0 \<le> (case pl_ack pl of None \<Rightarrow> 0 | Some a \<Rightarrow> frame_size a)" using ack_encoding [OF pl P'] by metis
    then have "sum_list (map (entry_size \<circ> frame_entry) (pl_frames pl)) + pad < 2 ^ 62"
      using pl pad(2) fr by (simp add: payload_ok_def frame_size_def [abs_def] o_def)
    moreover have "list_all (frame_ok P) (pl_frames pl)" using pl fr by (simp add: payload_ok_def)
    ultimately have c: "if 0 < pad \<and> (\<exists>c. Crypto c \<in> set (pl_frames pl))
        then \<exists>es rs'. chaosProtect (pl_frames pl) pad rs = Inr (Some (es, rs')) \<and> balanced P (map frame_entry (pl_frames pl)) pad es 0
        else chaosProtect (pl_frames pl) pad rs = Inr None"
      using chaosProtect_balanced [OF P] by blast
    show ?thesis
    proof (cases "0 < pad \<and> (\<exists>c. Crypto c \<in> set (pl_frames pl))")
      case yes: True
      then obtain es rs' where "chaosProtect (pl_frames pl) pad rs = Inr (Some (es, rs'))"
        "balanced P (map frame_entry (pl_frames pl)) pad es 0" using c by auto
      then show ?thesis using True fr by (intro chaos_branch [OF P' pl]) simp_all
    next
      case no: False
      then have "chaosProtect (pl_frames pl) pad rs = Inr None" using c by (simp only: if_False)
      then show ?thesis using True by (intro plain_branch [OF P' pl pad(1)]) simp_all
    qed
  qed
qed

section \<open>Properties of the writer\<close>

text \<open>C34: Whatever the random source delivers, \<open>appendPacketPayload\<close> succeeds and writes exactly the announced
  payload length plus the padding: neither of its two internal consistency errors ("PacketPacker BUG") can occur, the
  padding budget never goes negative, and nothing panics. The frames have to be appendable, the CRYPTO frames have to end
  below \<open>2 ^ 62\<close> and \<open>length\<close> has to be the sum of the frame lengths.\<close>

theorem appendPacketPayload_total:
  assumes "payload_ok crypto_ok pl" and "0 \<le> paddingLen" and "pl_length pl + paddingLen < 2 ^ 62"
  shows "\<exists>out rs'. appendPacketPayload raw pl paddingLen chaos rs = Inr (raw @ out, rs')
    \<and> int (length out) = pl_length pl + paddingLen"
  using appendPacketPayload_packed [OF splittable_ok _ assms, of raw chaos rs]
  unfolding packed_def by blast

definition sample_payload :: payload where
  "sample_payload =
     \<lparr>pl_streamFrames = [], pl_frames = [Crypto \<lparr>cf_Offset = 0, cf_Data = [1, 2, 3, 4, 5]\<rparr>], pl_ack = None,
      pl_length = 8\<rparr>"

lemma sample_payload_ok: "payload_ok crypto_ok sample_payload"
  by (simp add: payload_ok_def sample_payload_def payload_frames_def crypto_ok_def frame_size_def crypto_size_def
      varint_size_def)

theorem appendPacketPayload_total_witness:
  "\<exists>out rs'. appendPacketPayload [9] sample_payload 40 True [3, 0, 2, 5, 7] = Inr ([9] @ out, rs')
    \<and> int (length out) = pl_length sample_payload + 40"
  by (rule appendPacketPayload_total [OF sample_payload_ok]) (simp_all add: sample_payload_def)

text \<open>Chaos protection is transparent. With padding to spend and a CRYPTO frame among the frames, and for every outcome
  of the random source, \<open>chaosProtect\<close> returns entries that carry the same CRYPTO bytes at the same stream offsets, each
  as often as before, and the same frames of other types, in a possibly different order; their sizes add up to the frames
  and the padding given. Without padding or without a CRYPTO frame it declines.\<close>

theorem chaosProtect_transparent:
  assumes "list_all (frame_ok crypto_ok) frames" and "sum_list (map frame_size frames) + paddingLen < 2 ^ 62"
  shows "if 0 < paddingLen \<and> (\<exists>c. Crypto c \<in> set frames)
    then \<exists>es rs'. chaosProtect frames paddingLen rs = Inr (Some (es, rs'))
      \<and> mset (concat (map entry_cells es)) = mset (concat (map (entry_cells \<circ> frame_entry) frames))
      \<and> mset (filter is_other es) = mset (filter is_other (map frame_entry frames))
      \<and> sum_list (map entry_size es) = sum_list (map frame_size frames) + paddingLen
      \<and> list_all (entry_ok crypto_ok) es
    else chaosProtect frames paddingLen rs = Inr None"
proof -
  have "sum_list (map (entry_size \<circ> frame_entry) frames) + paddingLen < 2 ^ 62"
    using assms(2) by (simp add: frame_size_def [abs_def] o_def)
  from chaosProtect_balanced [OF splittable_ok _ assms(1) this, of rs] show ?thesis
    by (auto simp: balanced_def same_content_def frame_size_def [abs_def] o_def split: if_splits)
qed

theorem chaosProtect_transparent_witness:
  "\<exists>es rs'. chaosProtect (pl_frames sample_payload) 40 [3, 0, 2, 5, 7] = Inr (Some (es, rs'))
    \<and> mset (concat (map entry_cells es)) = {#(0, 1), (1, 2), (2, 3), (3, 4), (4, 5)#}"
  using chaosProtect_transparent [of "pl_frames sample_payload" 40 "[3, 0, 2, 5, 7]"]
  by (auto simp: sample_payload_def crypto_ok_def frame_size_def crypto_size_def varint_size_def cells_def
      upt_rec numeral_eq_Suc)

section \<open>Reading the payload back\<close>

text \<open>A piece of the stream \<open>s\<close>.\<close>

definition piece :: "bytes \<Rightarrow> CryptoFrame \<Rightarrow> bool" where
  "piece s f = (0 \<le> cf_Offset f \<and> cf_Offset f + int (length (cf_Data f)) \<le> int (length s)
     \<and> cf_Data f = take (length (cf_Data f)) (drop (nat (cf_Offset f)) s))"

lemma splittable_piece: "splittable (piece s)"
  unfolding splittable_def piece_def
proof (intro allI impI, goal_cases)
  case (1 f j)
  then have off: "0 \<le> cf_Offset f" "cf_Offset f + int (length (cf_Data f)) \<le> int (length s)"
    and d: "cf_Data f = take (length (cf_Data f)) (drop (nat (cf_Offset f)) s)" by auto
  have "take j (cf_Data f) = take j (drop (nat (cf_Offset f)) s)"
    using 1(3) by (subst d) (simp add: min_def)
  moreover have "drop j (cf_Data f) = take (length (cf_Data f) - j) (drop (nat (cf_Offset f) + j) s)"
    by (subst d) (simp add: drop_take add.commute)
  ultimately show ?case using off 1(2,3) by (simp add: nat_add_distrib min_def) linarith
qed

lemma piece_ok: "piece s f \<Longrightarrow> length s \<le> quicMaxCryptoLen \<Longrightarrow> crypto_ok f"
  by (auto simp: piece_def crypto_ok_def)

lemma chunk_of_piece:
  assumes "piece s f" "length s \<le> quicMaxCryptoLen"
  shows "chunk_of s \<lparr>ch_Offset = uint64 (cf_Offset f), ch_Data = cf_Data f\<rparr>"
  using assms crypto_ok_bounds(4) [OF piece_ok [OF assms]] by (auto simp: chunk_of_def chunk_end_def piece_def)

lemma entry_chunks_of:
  assumes "entry_ok (piece s) e" "length s \<le> quicMaxCryptoLen" "c \<in> set (entry_chunks e)"
  shows "chunk_of s c"
  using assms by (cases e rule: entry_chunks.cases) (auto intro: chunk_of_piece)

lemma covered_entry:
  assumes "entry_ok crypto_ok e"
  shows "covered (entry_chunks e) i \<longleftrightarrow> int i \<in> fst ` set (entry_cells e)"
proof (cases e rule: entry_chunks.cases)
  case (1 f p)
  then have ok: "crypto_ok f" using assms by simp
  have "int i \<in> fst ` set (cells f) \<longleftrightarrow> cf_Offset f \<le> int i \<and> int i < cf_Offset f + int (length (cf_Data f))"
  proof
    assume "cf_Offset f \<le> int i \<and> int i < cf_Offset f + int (length (cf_Data f))"
    then show "int i \<in> fst ` set (cells f)"
      by (auto simp: cells_def image_image intro!: image_eqI [of _ _ "nat (int i - cf_Offset f)"])
  qed (auto simp: cells_def)
  then show ?thesis using 1 crypto_ok_bounds(1,4) [OF ok] by (auto simp: chunk_end_def)
qed (auto simp: covered_def)

lemma covered_concat: "covered (concat css) i \<longleftrightarrow> (\<exists>cs\<in>set css. covered cs i)"
  by (auto simp: covered_def)

lemma covered_entries:
  assumes "list_all (entry_ok crypto_ok) es"
  shows "covered (concat (map entry_chunks es)) i \<longleftrightarrow> int i \<in> fst ` set (concat (map entry_cells es))"
proof -
  have "covered (concat (map entry_chunks es)) i \<longleftrightarrow> (\<exists>e\<in>set es. covered (entry_chunks e) i)"
    by (simp add: covered_concat)
  also have "\<dots> \<longleftrightarrow> (\<exists>e\<in>set es. int i \<in> fst ` set (entry_cells e))"
    using assms by (intro bex_cong refl covered_entry) (simp add: list_all_iff)
  finally show ?thesis by auto
qed

lemma quicCryptoFrames_reads: "reads_as w cs \<Longrightarrow> quicCryptoFrames w = Inr cs"
proof -
  assume "reads_as w cs"
  from this [unfolded reads_as_def, rule_format, of "[]" "[]" "[]"]
  have "quicCryptoFrames_loop (cursor [] w) [] = quicCryptoFrames_loop (cursor w []) cs" by simp
  then show ?thesis
    unfolding quicCryptoFrames_def cursor_def by (subst (asm) (2) quicCryptoFrames_loop.simps) (simp add: remaining_pos)
qed

end
