(* ===== verification/Quic_Control_Frames.thy ===== *)
theory Quic_Control_Frames
  imports Quic_Frames
begin

text \<open>
  The control frames of QUIC, one record and one group of operations per file of
  \<open>quic/internal/wire\<close>: \<open>parse...Frame\<close>, \<open>Append\<close> and \<open>Length\<close>. The contract all frame types share
  is the locale \<open>frame_codec\<close>: a well-formed frame has exactly the announced length on the wire and its
  parser, given the frame type and the bytes after it, returns the frame and consumes exactly its bytes.
  The locale is interpreted for every frame type below.

  Integers of type \<open>uint64\<close> are 64-bit words; \<open>ByteCount\<close>, \<open>StreamID\<close> and \<open>StreamNum\<close> are \<open>int64\<close> and
  are converted with \<open>sint\<close> and \<open>uint64\<close>.
\<close>

section \<open>Frame types\<close>

type_synonym FrameType = "64 word"

abbreviation FrameTypeResetStream :: FrameType where "FrameTypeResetStream \<equiv> 0x4"
abbreviation FrameTypeStopSending :: FrameType where "FrameTypeStopSending \<equiv> 0x5"
abbreviation FrameTypeNewToken :: FrameType where "FrameTypeNewToken \<equiv> 0x7"
abbreviation FrameTypeMaxData :: FrameType where "FrameTypeMaxData \<equiv> 0x10"
abbreviation FrameTypeMaxStreamData :: FrameType where "FrameTypeMaxStreamData \<equiv> 0x11"
abbreviation FrameTypeBidiMaxStreams :: FrameType where "FrameTypeBidiMaxStreams \<equiv> 0x12"
abbreviation FrameTypeUniMaxStreams :: FrameType where "FrameTypeUniMaxStreams \<equiv> 0x13"
abbreviation FrameTypeDataBlocked :: FrameType where "FrameTypeDataBlocked \<equiv> 0x14"
abbreviation FrameTypeStreamDataBlocked :: FrameType where "FrameTypeStreamDataBlocked \<equiv> 0x15"
abbreviation FrameTypeBidiStreamBlocked :: FrameType where "FrameTypeBidiStreamBlocked \<equiv> 0x16"
abbreviation FrameTypeUniStreamBlocked :: FrameType where "FrameTypeUniStreamBlocked \<equiv> 0x17"
abbreviation FrameTypeNewConnectionID :: FrameType where "FrameTypeNewConnectionID \<equiv> 0x18"
abbreviation FrameTypeRetireConnectionID :: FrameType where "FrameTypeRetireConnectionID \<equiv> 0x19"
abbreviation FrameTypePathChallenge :: FrameType where "FrameTypePathChallenge \<equiv> 0x1a"
abbreviation FrameTypePathResponse :: FrameType where "FrameTypePathResponse \<equiv> 0x1b"
abbreviation FrameTypeConnectionClose :: FrameType where "FrameTypeConnectionClose \<equiv> 0x1c"
abbreviation FrameTypeApplicationClose :: FrameType where "FrameTypeApplicationClose \<equiv> 0x1d"
abbreviation FrameTypeHandshakeDone :: FrameType where "FrameTypeHandshakeDone \<equiv> 0x1e"
abbreviation FrameTypeImmediateAck :: FrameType where "FrameTypeImmediateAck \<equiv> 0x1f"
abbreviation FrameTypeResetStreamAt :: FrameType where "FrameTypeResetStreamAt \<equiv> 0x24"
abbreviation FrameTypeAckFrequency :: FrameType where "FrameTypeAckFrequency \<equiv> 0xaf"

section \<open>The contract of a frame type\<close>

text \<open>\<open>type_of\<close> is the frame type a frame is written with.\<close>

locale frame_codec =
  fixes app :: "'f \<Rightarrow> bytes \<Rightarrow> pack_error + bytes"
    and len :: "'f \<Rightarrow> pack_error + ByteCount"
    and parse :: "FrameType \<Rightarrow> bytes \<Rightarrow> pack_error + ('f \<times> nat)"
    and type_of :: "'f \<Rightarrow> FrameType"
    and ok :: "'f \<Rightarrow> bool"
  assumes type_bound: "ok f \<Longrightarrow> unat (type_of f) < 2 ^ 62"
    and codec: "ok f \<Longrightarrow> \<exists>w. (\<forall>b. app f b = Inr (b @ venc (type_of f) @ w))
      \<and> len f = Inr (int (length (venc (type_of f)) + length w))
      \<and> (\<forall>rest. parse (type_of f) (w @ rest) = Inr (f, length w))"
begin

lemma length_written:
  assumes "ok f"
  shows "\<exists>w. app f b = Inr (b @ w) \<and> len f = Inr (int (length w))"
  using codec [OF assms] by fastforce

lemma parse_written:
  assumes "ok f" "app f [] = Inr w"
  shows "Parse (w @ rest) = Inr (type_of f, length (venc (type_of f)))"
    and "parse (type_of f) (drop (length (venc (type_of f))) (w @ rest)) =
      Inr (f, length w - length (venc (type_of f)))"
proof -
  obtain v where v: "app f [] = Inr ([] @ venc (type_of f) @ v)"
    "\<forall>rest. parse (type_of f) (v @ rest) = Inr (f, length v)"
    using codec [OF assms(1)] by blast
  then have w: "w = venc (type_of f) @ v" using assms(2) by simp
  show "Parse (w @ rest) = Inr (type_of f, length (venc (type_of f)))"
    using venc_encoding(4) [OF type_bound [OF assms(1)], of "v @ rest"] by (simp add: w)
  show "parse (type_of f) (drop (length (venc (type_of f))) (w @ rest)) =
      Inr (f, length w - length (venc (type_of f)))"
    using v(2) by (simp add: w)
qed

text \<open>The encoding is prefix-free, so two frames with one encoding are the same frame.\<close>

lemma prefix_free:
  assumes "ok f" "ok g" "app f [] = Inr v" "app g [] = Inr w" "v @ x = w @ y"
  shows "f = g"
proof -
  have t: "type_of f = type_of g"
    using parse_written(1) [OF assms(1,3), of x] parse_written(1) [OF assms(2,4), of y] assms(5) by simp
  then have "parse (type_of f) (drop (length (venc (type_of f))) (v @ x)) =
      parse (type_of g) (drop (length (venc (type_of g))) (w @ y))" using assms(5) by simp
  then show ?thesis using parse_written(2) [OF assms(1,3), of x] parse_written(2) [OF assms(2,4), of y] by simp
qed

end

section \<open>Field conversions\<close>

definition int64_ok :: "int \<Rightarrow> bool" where
  "int64_ok i = (0 \<le> i \<and> i < 2 ^ 62)"

definition word_ok :: "64 word \<Rightarrow> bool" where
  "word_ok w = (unat w < 2 ^ 62)"

lemma int64_bound [simp]: "int64_ok i \<Longrightarrow> word_ok (uint64 i)"
  using unat_uint64 [of i] by (simp add: int64_ok_def word_ok_def nat_less_iff)

lemma sint_uint64 [simp]: "int64_ok i \<Longrightarrow> sint (uint64 i) = i"
  by (simp add: signed_of_int signed_take_bit_int_eq_self int64_ok_def)

lemma unat_int64 [simp]: "int64_ok i \<Longrightarrow> unat (uint64 i) = nat i"
  using unat_uint64 [of i] by (simp add: int64_ok_def)

lemma len_bound [simp]: "n < 2 ^ 62 \<Longrightarrow> word_ok (word_of_nat n)"
  by (simp add: word_ok_def unat_of_nat)

lemma unat_len [simp]: "n < 2 ^ 62 \<Longrightarrow> unat (word_of_nat n :: 64 word) = n"
  by (simp add: unat_of_nat)

lemma venc_simps [codec_simps]:
  assumes "word_ok i"
  shows "Append b i = Inr (b @ venc i)" "Len i = Inr (length (venc i))"
    "Parse (venc i @ rest) = Inr (i, length (venc i))" "Parse (venc i) = Inr (i, length (venc i))"
  using assms venc_encoding [of i] venc_encoding(4) [of i "[]"] by (simp_all add: word_ok_def)

lemma venc_type: "i < 64 \<Longrightarrow> venc i = [ucast i]"
  by (simp add: venc_def Append_def word_less_nat_alt word_le_nat_alt)

lemma venc_length_type: "i < 64 \<Longrightarrow> length (venc i) = 1"
  by (simp add: venc_type)

lemma word_ok_type [simp]: "i < 64 \<Longrightarrow> word_ok i"
  by (simp add: word_ok_def word_less_nat_alt)

section \<open>One varint: DATA_BLOCKED, MAX_DATA, RETIRE_CONNECTION_ID\<close>

record DataBlockedFrame =
  db_MaximumData :: ByteCount

definition parseDataBlockedFrame :: "bytes \<Rightarrow> pack_error + (DataBlockedFrame \<times> nat)" where
  "parseDataBlockedFrame b =
     rbind (replaceUnexpectedEOF (Parse b)) (\<lambda>(offset, l). Inr (\<lparr>db_MaximumData = sint offset\<rparr>, l))"

definition DataBlockedFrame_Append :: "DataBlockedFrame \<Rightarrow> bytes \<Rightarrow> pack_error + bytes" where
  "DataBlockedFrame_Append f b =
     (let b = b @ [ucast FrameTypeDataBlocked] in varint (Append b (uint64 (db_MaximumData f))))"

definition DataBlockedFrame_Length :: "DataBlockedFrame \<Rightarrow> pack_error + ByteCount" where
  "DataBlockedFrame_Length f = rbind (varint (Len (uint64 (db_MaximumData f)))) (\<lambda>l. Inr (1 + int l))"

record MaxDataFrame =
  md_MaximumData :: ByteCount

definition parseMaxDataFrame :: "bytes \<Rightarrow> pack_error + (MaxDataFrame \<times> nat)" where
  "parseMaxDataFrame b =
     rbind (replaceUnexpectedEOF (Parse b)) (\<lambda>(byteOffset, l). Inr (\<lparr>md_MaximumData = sint byteOffset\<rparr>, l))"

definition MaxDataFrame_Append :: "MaxDataFrame \<Rightarrow> bytes \<Rightarrow> pack_error + bytes" where
  "MaxDataFrame_Append f b =
     (let b = b @ [ucast FrameTypeMaxData] in varint (Append b (uint64 (md_MaximumData f))))"

definition MaxDataFrame_Length :: "MaxDataFrame \<Rightarrow> pack_error + ByteCount" where
  "MaxDataFrame_Length f = rbind (varint (Len (uint64 (md_MaximumData f)))) (\<lambda>l. Inr (1 + int l))"

record RetireConnectionIDFrame =
  rc_SequenceNumber :: "64 word"

definition parseRetireConnectionIDFrame :: "bytes \<Rightarrow> pack_error + (RetireConnectionIDFrame \<times> nat)" where
  "parseRetireConnectionIDFrame b =
     rbind (replaceUnexpectedEOF (Parse b)) (\<lambda>(seq, l). Inr (\<lparr>rc_SequenceNumber = seq\<rparr>, l))"

definition RetireConnectionIDFrame_Append :: "RetireConnectionIDFrame \<Rightarrow> bytes \<Rightarrow> pack_error + bytes" where
  "RetireConnectionIDFrame_Append f b =
     (let b = b @ [ucast FrameTypeRetireConnectionID] in varint (Append b (rc_SequenceNumber f)))"

definition RetireConnectionIDFrame_Length :: "RetireConnectionIDFrame \<Rightarrow> pack_error + ByteCount" where
  "RetireConnectionIDFrame_Length f = rbind (varint (Len (rc_SequenceNumber f))) (\<lambda>l. Inr (1 + int l))"

interpretation data_blocked: frame_codec DataBlockedFrame_Append DataBlockedFrame_Length "\<lambda>_. parseDataBlockedFrame"
  "\<lambda>_. FrameTypeDataBlocked" "\<lambda>f. int64_ok (db_MaximumData f)"
proof (unfold_locales, goal_cases)
  case (2 f)
  then show ?case
    by (intro exI [of _ "venc (uint64 (db_MaximumData f))"])
      (simp add: DataBlockedFrame_Append_def DataBlockedFrame_Length_def parseDataBlockedFrame_def codec_simps
        venc_type)
qed simp

interpretation max_data: frame_codec MaxDataFrame_Append MaxDataFrame_Length "\<lambda>_. parseMaxDataFrame"
  "\<lambda>_. FrameTypeMaxData" "\<lambda>f. int64_ok (md_MaximumData f)"
proof (unfold_locales, goal_cases)
  case (2 f)
  then show ?case
    by (intro exI [of _ "venc (uint64 (md_MaximumData f))"])
      (simp add: MaxDataFrame_Append_def MaxDataFrame_Length_def parseMaxDataFrame_def codec_simps venc_type)
qed simp

interpretation retire_connection_id: frame_codec RetireConnectionIDFrame_Append RetireConnectionIDFrame_Length
  "\<lambda>_. parseRetireConnectionIDFrame" "\<lambda>_. FrameTypeRetireConnectionID" "\<lambda>f. word_ok (rc_SequenceNumber f)"
proof (unfold_locales, goal_cases)
  case (2 f)
  then show ?case
    by (intro exI [of _ "venc (rc_SequenceNumber f)"])
      (simp add: RetireConnectionIDFrame_Append_def RetireConnectionIDFrame_Length_def
        parseRetireConnectionIDFrame_def codec_simps venc_type)
qed simp

section \<open>Two varints: MAX_STREAM_DATA, STREAM_DATA_BLOCKED, STOP_SENDING\<close>

type_synonym StreamID = int

record MaxStreamDataFrame =
  msd_StreamID :: StreamID
  msd_MaximumStreamData :: ByteCount

definition parseMaxStreamDataFrame :: "bytes \<Rightarrow> pack_error + (MaxStreamDataFrame \<times> nat)" where
  "parseMaxStreamDataFrame b =
     (let startLen = length b in
      rbind (replaceUnexpectedEOF (Parse b)) (\<lambda>(sid, l).
      let b = drop l b in
      rbind (replaceUnexpectedEOF (Parse b)) (\<lambda>(offset, l).
      let b = drop l b in
      Inr (\<lparr>msd_StreamID = sint sid, msd_MaximumStreamData = sint offset\<rparr>, startLen - length b))))"

definition MaxStreamDataFrame_Append :: "MaxStreamDataFrame \<Rightarrow> bytes \<Rightarrow> pack_error + bytes" where
  "MaxStreamDataFrame_Append f b =
     (let b = b @ [ucast FrameTypeMaxStreamData] in
      rbind (varint (Append b (uint64 (msd_StreamID f)))) (\<lambda>b.
      varint (Append b (uint64 (msd_MaximumStreamData f)))))"

definition MaxStreamDataFrame_Length :: "MaxStreamDataFrame \<Rightarrow> pack_error + ByteCount" where
  "MaxStreamDataFrame_Length f =
     rbind (varint (Len (uint64 (msd_StreamID f)))) (\<lambda>l1.
     rbind (varint (Len (uint64 (msd_MaximumStreamData f)))) (\<lambda>l2. Inr (1 + int (l1 + l2))))"

record StreamDataBlockedFrame =
  sdb_StreamID :: StreamID
  sdb_MaximumStreamData :: ByteCount

definition parseStreamDataBlockedFrame :: "bytes \<Rightarrow> pack_error + (StreamDataBlockedFrame \<times> nat)" where
  "parseStreamDataBlockedFrame b =
     (let startLen = length b in
      rbind (replaceUnexpectedEOF (Parse b)) (\<lambda>(sid, l).
      let b = drop l b in
      rbind (replaceUnexpectedEOF (Parse b)) (\<lambda>(offset, l).
      Inr (\<lparr>sdb_StreamID = sint sid, sdb_MaximumStreamData = sint offset\<rparr>, startLen - length b + l))))"

definition StreamDataBlockedFrame_Append :: "StreamDataBlockedFrame \<Rightarrow> bytes \<Rightarrow> pack_error + bytes" where
  "StreamDataBlockedFrame_Append f b =
     (let b = b @ [0x15] in
      rbind (varint (Append b (uint64 (sdb_StreamID f)))) (\<lambda>b.
      varint (Append b (uint64 (sdb_MaximumStreamData f)))))"

definition StreamDataBlockedFrame_Length :: "StreamDataBlockedFrame \<Rightarrow> pack_error + ByteCount" where
  "StreamDataBlockedFrame_Length f =
     rbind (varint (Len (uint64 (sdb_StreamID f)))) (\<lambda>l1.
     rbind (varint (Len (uint64 (sdb_MaximumStreamData f)))) (\<lambda>l2. Inr (1 + int (l1 + l2))))"

record StopSendingFrame =
  ss_StreamID :: StreamID
  ss_ErrorCode :: "64 word"

definition parseStopSendingFrame :: "bytes \<Rightarrow> pack_error + (StopSendingFrame \<times> nat)" where
  "parseStopSendingFrame b =
     (let startLen = length b in
      rbind (replaceUnexpectedEOF (Parse b)) (\<lambda>(streamID, l).
      let b = drop l b in
      rbind (replaceUnexpectedEOF (Parse b)) (\<lambda>(errorCode, l).
      let b = drop l b in
      Inr (\<lparr>ss_StreamID = sint streamID, ss_ErrorCode = errorCode\<rparr>, startLen - length b))))"

definition StopSendingFrame_Length :: "StopSendingFrame \<Rightarrow> pack_error + ByteCount" where
  "StopSendingFrame_Length f =
     rbind (varint (Len (uint64 (ss_StreamID f)))) (\<lambda>l1.
     rbind (varint (Len (ss_ErrorCode f))) (\<lambda>l2. Inr (1 + int (l1 + l2))))"

definition StopSendingFrame_Append :: "StopSendingFrame \<Rightarrow> bytes \<Rightarrow> pack_error + bytes" where
  "StopSendingFrame_Append f b =
     (let b = b @ [ucast FrameTypeStopSending] in
      rbind (varint (Append b (uint64 (ss_StreamID f)))) (\<lambda>b.
      varint (Append b (ss_ErrorCode f))))"

interpretation max_stream_data: frame_codec MaxStreamDataFrame_Append MaxStreamDataFrame_Length
  "\<lambda>_. parseMaxStreamDataFrame" "\<lambda>_. FrameTypeMaxStreamData"
  "\<lambda>f. int64_ok (msd_StreamID f) \<and> int64_ok (msd_MaximumStreamData f)"
proof (unfold_locales, goal_cases)
  case (2 f)
  then show ?case
    by (intro exI [of _ "venc (uint64 (msd_StreamID f)) @ venc (uint64 (msd_MaximumStreamData f))"])
      (simp add: MaxStreamDataFrame_Append_def MaxStreamDataFrame_Length_def parseMaxStreamDataFrame_def
        codec_simps venc_type)
qed simp

interpretation stream_data_blocked: frame_codec StreamDataBlockedFrame_Append StreamDataBlockedFrame_Length
  "\<lambda>_. parseStreamDataBlockedFrame" "\<lambda>_. FrameTypeStreamDataBlocked"
  "\<lambda>f. int64_ok (sdb_StreamID f) \<and> int64_ok (sdb_MaximumStreamData f)"
proof (unfold_locales, goal_cases)
  case (2 f)
  then show ?case
    by (intro exI [of _ "venc (uint64 (sdb_StreamID f)) @ venc (uint64 (sdb_MaximumStreamData f))"])
      (simp add: StreamDataBlockedFrame_Append_def StreamDataBlockedFrame_Length_def
        parseStreamDataBlockedFrame_def codec_simps venc_type)
qed simp

interpretation stop_sending: frame_codec StopSendingFrame_Append StopSendingFrame_Length
  "\<lambda>_. parseStopSendingFrame" "\<lambda>_. FrameTypeStopSending"
  "\<lambda>f. int64_ok (ss_StreamID f) \<and> word_ok (ss_ErrorCode f)"
proof (unfold_locales, goal_cases)
  case (2 f)
  then show ?case
    by (intro exI [of _ "venc (uint64 (ss_StreamID f)) @ venc (ss_ErrorCode f)"])
      (simp add: StopSendingFrame_Append_def StopSendingFrame_Length_def parseStopSendingFrame_def
        codec_simps venc_type)
qed simp

section \<open>Stream counts: MAX_STREAMS, STREAMS_BLOCKED\<close>

datatype StreamType = StreamTypeUni | StreamTypeBidi

type_synonym StreamNum = int

abbreviation MaxStreamCount :: StreamNum where "MaxStreamCount \<equiv> 1152921504606846976"

record MaxStreamsFrame =
  ms_Type :: StreamType
  ms_MaxStreamNum :: StreamNum

definition parseMaxStreamsFrame :: "FrameType \<Rightarrow> bytes \<Rightarrow> pack_error + (MaxStreamsFrame \<times> nat)" where
  "parseMaxStreamsFrame typ b =
     (let ty = (if typ = FrameTypeBidiMaxStreams then StreamTypeBidi else StreamTypeUni) in
      rbind (replaceUnexpectedEOF (Parse b)) (\<lambda>(streamID, l).
      let n = sint streamID in
      if n > MaxStreamCount then Inl (FrameMessage ''exceeds the maximum stream count'')
      else Inr (\<lparr>ms_Type = ty, ms_MaxStreamNum = n\<rparr>, l)))"

definition MaxStreamsFrame_type :: "MaxStreamsFrame \<Rightarrow> FrameType" where
  "MaxStreamsFrame_type f =
     (case ms_Type f of StreamTypeBidi \<Rightarrow> FrameTypeBidiMaxStreams | StreamTypeUni \<Rightarrow> FrameTypeUniMaxStreams)"

definition MaxStreamsFrame_Append :: "MaxStreamsFrame \<Rightarrow> bytes \<Rightarrow> pack_error + bytes" where
  "MaxStreamsFrame_Append f b =
     (let b = b @ [ucast (MaxStreamsFrame_type f)] in varint (Append b (uint64 (ms_MaxStreamNum f))))"

definition MaxStreamsFrame_Length :: "MaxStreamsFrame \<Rightarrow> pack_error + ByteCount" where
  "MaxStreamsFrame_Length f = rbind (varint (Len (uint64 (ms_MaxStreamNum f)))) (\<lambda>l. Inr (1 + int l))"

record StreamsBlockedFrame =
  sb_Type :: StreamType
  sb_StreamLimit :: StreamNum

definition parseStreamsBlockedFrame :: "FrameType \<Rightarrow> bytes \<Rightarrow> pack_error + (StreamsBlockedFrame \<times> nat)" where
  "parseStreamsBlockedFrame typ b =
     (let ty = (if typ = FrameTypeBidiStreamBlocked then StreamTypeBidi else StreamTypeUni) in
      rbind (replaceUnexpectedEOF (Parse b)) (\<lambda>(streamLimit, l).
      let n = sint streamLimit in
      if n > MaxStreamCount then Inl (FrameMessage ''exceeds the maximum stream count'')
      else Inr (\<lparr>sb_Type = ty, sb_StreamLimit = n\<rparr>, l)))"

definition StreamsBlockedFrame_type :: "StreamsBlockedFrame \<Rightarrow> FrameType" where
  "StreamsBlockedFrame_type f =
     (case sb_Type f of StreamTypeBidi \<Rightarrow> FrameTypeBidiStreamBlocked | StreamTypeUni \<Rightarrow> FrameTypeUniStreamBlocked)"

definition StreamsBlockedFrame_Append :: "StreamsBlockedFrame \<Rightarrow> bytes \<Rightarrow> pack_error + bytes" where
  "StreamsBlockedFrame_Append f b =
     (let b = b @ [ucast (StreamsBlockedFrame_type f)] in varint (Append b (uint64 (sb_StreamLimit f))))"

definition StreamsBlockedFrame_Length :: "StreamsBlockedFrame \<Rightarrow> pack_error + ByteCount" where
  "StreamsBlockedFrame_Length f = rbind (varint (Len (uint64 (sb_StreamLimit f)))) (\<lambda>l. Inr (1 + int l))"

definition count_ok :: "StreamNum \<Rightarrow> bool" where
  "count_ok n = (0 \<le> n \<and> n \<le> MaxStreamCount)"

lemma count_int64 [simp]: "count_ok n \<Longrightarrow> int64_ok n"
  by (simp add: count_ok_def int64_ok_def)

interpretation max_streams: frame_codec MaxStreamsFrame_Append MaxStreamsFrame_Length
  parseMaxStreamsFrame MaxStreamsFrame_type "\<lambda>f. count_ok (ms_MaxStreamNum f)"
proof (unfold_locales, goal_cases)
  case (2 f)
  then have "\<not> MaxStreamCount < ms_MaxStreamNum f" by (simp add: count_ok_def)
  with 2 show ?case
    by (intro exI [of _ "venc (uint64 (ms_MaxStreamNum f))"], cases "ms_Type f")
      (simp_all add: MaxStreamsFrame_Append_def MaxStreamsFrame_Length_def parseMaxStreamsFrame_def
        MaxStreamsFrame_type_def codec_simps venc_type)
qed (simp add: MaxStreamsFrame_type_def split: StreamType.splits)

interpretation streams_blocked: frame_codec StreamsBlockedFrame_Append StreamsBlockedFrame_Length
  parseStreamsBlockedFrame StreamsBlockedFrame_type "\<lambda>f. count_ok (sb_StreamLimit f)"
proof (unfold_locales, goal_cases)
  case (2 f)
  then have "\<not> MaxStreamCount < sb_StreamLimit f" by (simp add: count_ok_def)
  with 2 show ?case
    by (intro exI [of _ "venc (uint64 (sb_StreamLimit f))"], cases "sb_Type f")
      (simp_all add: StreamsBlockedFrame_Append_def StreamsBlockedFrame_Length_def parseStreamsBlockedFrame_def
        StreamsBlockedFrame_type_def codec_simps venc_type)
qed (simp add: StreamsBlockedFrame_type_def split: StreamType.splits)

section \<open>Fixed data: PATH_CHALLENGE, PATH_RESPONSE, HANDSHAKE_DONE, IMMEDIATE_ACK\<close>

text \<open>A Go array \<open>[n]byte\<close> is a list, its length part of well-formedness.\<close>

record PathChallengeFrame =
  pc_Data :: bytes

definition parsePathChallengeFrame :: "bytes \<Rightarrow> pack_error + (PathChallengeFrame \<times> nat)" where
  "parsePathChallengeFrame b = (if length b < 8 then Inl FrameEOF else Inr (\<lparr>pc_Data = take 8 b\<rparr>, 8))"

definition PathChallengeFrame_Append :: "PathChallengeFrame \<Rightarrow> bytes \<Rightarrow> pack_error + bytes" where
  "PathChallengeFrame_Append f b = Inr (b @ [ucast FrameTypePathChallenge] @ pc_Data f)"

definition PathChallengeFrame_Length :: "PathChallengeFrame \<Rightarrow> pack_error + ByteCount" where
  "PathChallengeFrame_Length f = Inr (1 + 8)"

record PathResponseFrame =
  pr_Data :: bytes

definition parsePathResponseFrame :: "bytes \<Rightarrow> pack_error + (PathResponseFrame \<times> nat)" where
  "parsePathResponseFrame b = (if length b < 8 then Inl FrameEOF else Inr (\<lparr>pr_Data = take 8 b\<rparr>, 8))"

definition PathResponseFrame_Append :: "PathResponseFrame \<Rightarrow> bytes \<Rightarrow> pack_error + bytes" where
  "PathResponseFrame_Append f b = Inr (b @ [ucast FrameTypePathResponse] @ pr_Data f)"

definition PathResponseFrame_Length :: "PathResponseFrame \<Rightarrow> pack_error + ByteCount" where
  "PathResponseFrame_Length f = Inr (1 + 8)"

definition HandshakeDoneFrame_Append :: "unit \<Rightarrow> bytes \<Rightarrow> pack_error + bytes" where
  "HandshakeDoneFrame_Append f b = Inr (b @ [ucast FrameTypeHandshakeDone])"

definition HandshakeDoneFrame_Length :: "unit \<Rightarrow> pack_error + ByteCount" where
  "HandshakeDoneFrame_Length f = Inr 1"

definition ImmediateAckFrame_Append :: "unit \<Rightarrow> bytes \<Rightarrow> pack_error + bytes" where
  "ImmediateAckFrame_Append f b = varint (Append b FrameTypeImmediateAck)"

definition ImmediateAckFrame_Length :: "unit \<Rightarrow> pack_error + ByteCount" where
  "ImmediateAckFrame_Length f = rbind (varint (Len FrameTypeImmediateAck)) (\<lambda>l. Inr (int l))"

interpretation path_challenge: frame_codec PathChallengeFrame_Append PathChallengeFrame_Length
  "\<lambda>_. parsePathChallengeFrame" "\<lambda>_. FrameTypePathChallenge" "\<lambda>f. length (pc_Data f) = 8"
  by unfold_locales
    (simp_all add: PathChallengeFrame_Append_def PathChallengeFrame_Length_def parsePathChallengeFrame_def venc_type)

interpretation path_response: frame_codec PathResponseFrame_Append PathResponseFrame_Length
  "\<lambda>_. parsePathResponseFrame" "\<lambda>_. FrameTypePathResponse" "\<lambda>f. length (pr_Data f) = 8"
  by unfold_locales
    (simp_all add: PathResponseFrame_Append_def PathResponseFrame_Length_def parsePathResponseFrame_def venc_type)

interpretation handshake_done: frame_codec HandshakeDoneFrame_Append HandshakeDoneFrame_Length
  "\<lambda>_ _. Inr ((), 0)" "\<lambda>_. FrameTypeHandshakeDone" "\<lambda>_. True"
  by unfold_locales (simp_all add: HandshakeDoneFrame_Append_def HandshakeDoneFrame_Length_def venc_type)

interpretation immediate_ack: frame_codec ImmediateAckFrame_Append ImmediateAckFrame_Length
  "\<lambda>_ _. Inr ((), 0)" "\<lambda>_. FrameTypeImmediateAck" "\<lambda>_. True"
  by unfold_locales (simp_all add: ImmediateAckFrame_Append_def ImmediateAckFrame_Length_def codec_simps)

section \<open>NEW_TOKEN and NEW_CONNECTION_ID\<close>

record NewTokenFrame =
  nt_Token :: bytes

definition parseNewTokenFrame :: "bytes \<Rightarrow> pack_error + (NewTokenFrame \<times> nat)" where
  "parseNewTokenFrame b =
     rbind (replaceUnexpectedEOF (Parse b)) (\<lambda>(tokenLen, l).
     let b = drop l b in
     if tokenLen = 0 then Inl (FrameMessage ''token must not be empty'')
     else if length b < unat tokenLen then Inl FrameEOF
     else Inr (\<lparr>nt_Token = take (unat tokenLen) b\<rparr>, l + unat tokenLen))"

definition NewTokenFrame_Append :: "NewTokenFrame \<Rightarrow> bytes \<Rightarrow> pack_error + bytes" where
  "NewTokenFrame_Append f b =
     (let b = b @ [ucast FrameTypeNewToken] in
      rbind (varint (Append b (word_of_nat (length (nt_Token f))))) (\<lambda>b. Inr (b @ nt_Token f)))"

definition NewTokenFrame_Length :: "NewTokenFrame \<Rightarrow> pack_error + ByteCount" where
  "NewTokenFrame_Length f =
     rbind (varint (Len (word_of_nat (length (nt_Token f))))) (\<lambda>l. Inr (1 + int (l + length (nt_Token f))))"

abbreviation MaxConnIDLen :: nat where "MaxConnIDLen \<equiv> 20"

text \<open>A \<open>ConnectionID\<close> is its \<open>l\<close> used bytes.\<close>

type_synonym ConnectionID = bytes

definition ParseConnectionID :: "bytes \<Rightarrow> pack_error + ConnectionID" where
  "ParseConnectionID b =
     (if length b > 20 then Inl (PackPanic (LibraryPanic ''invalid conn id length'')) else Inr b)"

record NewConnectionIDFrame =
  nc_SequenceNumber :: "64 word"
  nc_RetirePriorTo :: "64 word"
  nc_ConnectionID :: ConnectionID
  nc_StatelessResetToken :: bytes

definition parseNewConnectionIDFrame :: "bytes \<Rightarrow> pack_error + (NewConnectionIDFrame \<times> nat)" where
  "parseNewConnectionIDFrame b =
     (let startLen = length b in
      rbind (replaceUnexpectedEOF (Parse b)) (\<lambda>(seq, l).
      let b = drop l b in
      rbind (replaceUnexpectedEOF (Parse b)) (\<lambda>(ret, l).
      let b = drop l b in
      if ret > seq then Inl (FrameMessage ''Retire Prior To value larger than Sequence Number'')
      else if length b = 0 then Inl FrameEOF
      else rbind (at PackPanic b 0) (\<lambda>b0.
      let connIDLen = unat b0; b = drop 1 b in
      if connIDLen = 0 then Inl (FrameMessage ''invalid zero-length connection ID'')
      else if connIDLen > MaxConnIDLen then Inl (FrameMessage ''invalid Connection ID length'')
      else if length b < connIDLen then Inl FrameEOF
      else rbind (ParseConnectionID (take connIDLen b)) (\<lambda>connID.
      let b = drop connIDLen b in
      if length b < 16 then Inl FrameEOF
      else Inr (\<lparr>nc_SequenceNumber = seq, nc_RetirePriorTo = ret, nc_ConnectionID = connID,
                 nc_StatelessResetToken = take 16 b\<rparr>, startLen - length b + 16))))))"

definition NewConnectionIDFrame_Append :: "NewConnectionIDFrame \<Rightarrow> bytes \<Rightarrow> pack_error + bytes" where
  "NewConnectionIDFrame_Append f b =
     (let b = b @ [ucast FrameTypeNewConnectionID] in
      rbind (varint (Append b (nc_SequenceNumber f))) (\<lambda>b.
      rbind (varint (Append b (nc_RetirePriorTo f))) (\<lambda>b.
      let connIDLen = length (nc_ConnectionID f) in
      if connIDLen > MaxConnIDLen then Inl (FrameMessage ''invalid connection ID length'')
      else Inr (b @ [word_of_nat connIDLen] @ nc_ConnectionID f @ nc_StatelessResetToken f))))"

definition NewConnectionIDFrame_Length :: "NewConnectionIDFrame \<Rightarrow> pack_error + ByteCount" where
  "NewConnectionIDFrame_Length f =
     rbind (varint (Len (nc_SequenceNumber f))) (\<lambda>l1.
     rbind (varint (Len (nc_RetirePriorTo f))) (\<lambda>l2.
     Inr (1 + int (l1 + l2 + 1 + length (nc_ConnectionID f)) + 16)))"

definition NewConnectionIDFrame_ok :: "NewConnectionIDFrame \<Rightarrow> bool" where
  "NewConnectionIDFrame_ok f =
     (word_ok (nc_SequenceNumber f) \<and> nc_RetirePriorTo f \<le> nc_SequenceNumber f
      \<and> nc_ConnectionID f \<noteq> [] \<and> length (nc_ConnectionID f) \<le> 20 \<and> length (nc_StatelessResetToken f) = 16)"

interpretation new_token: frame_codec NewTokenFrame_Append NewTokenFrame_Length "\<lambda>_. parseNewTokenFrame"
  "\<lambda>_. FrameTypeNewToken" "\<lambda>f. nt_Token f \<noteq> [] \<and> length (nt_Token f) < 2 ^ 62"
proof (unfold_locales, goal_cases)
  case (2 f)
  then have "word_of_nat (length (nt_Token f)) \<noteq> (0 :: 64 word)" by (simp add: word_unat_eq_iff)
  with 2 show ?case
    by (intro exI [of _ "venc (word_of_nat (length (nt_Token f))) @ nt_Token f"])
      (simp add: NewTokenFrame_Append_def NewTokenFrame_Length_def parseNewTokenFrame_def codec_simps venc_type)
qed simp

interpretation new_connection_id: frame_codec NewConnectionIDFrame_Append NewConnectionIDFrame_Length
  "\<lambda>_. parseNewConnectionIDFrame" "\<lambda>_. FrameTypeNewConnectionID" NewConnectionIDFrame_ok
proof (unfold_locales, goal_cases)
  case (2 f)
  then have f: "word_ok (nc_SequenceNumber f)" "nc_RetirePriorTo f \<le> nc_SequenceNumber f"
    "word_ok (nc_RetirePriorTo f)" "nc_ConnectionID f \<noteq> []" "length (nc_ConnectionID f) \<le> 20"
    "length (nc_StatelessResetToken f) = 16"
    by (auto simp: NewConnectionIDFrame_ok_def word_ok_def word_le_nat_alt)
  have n: "unat (word_of_nat (length (nc_ConnectionID f)) :: byte) = length (nc_ConnectionID f)"
    using f(5) by (simp add: unat_of_nat)
  show ?case using f n
    by (intro exI [of _ "venc (nc_SequenceNumber f) @ venc (nc_RetirePriorTo f)
        @ [word_of_nat (length (nc_ConnectionID f))] @ nc_ConnectionID f @ nc_StatelessResetToken f"])
      (simp add: NewConnectionIDFrame_Append_def NewConnectionIDFrame_Length_def parseNewConnectionIDFrame_def
        ParseConnectionID_def at_def Let_def codec_simps venc_type)
qed simp

section \<open>RESET_STREAM and RESET_STREAM_AT\<close>

record ResetStreamFrame =
  rs_StreamID :: StreamID
  rs_ErrorCode :: "64 word"
  rs_FinalSize :: ByteCount
  rs_ReliableSize :: ByteCount

definition parseResetStreamFrame :: "bool \<Rightarrow> bytes \<Rightarrow> pack_error + (ResetStreamFrame \<times> nat)" where
  "parseResetStreamFrame isResetStreamAt b =
     (let startLen = length b in
      rbind (replaceUnexpectedEOF (Parse b)) (\<lambda>(streamID, l).
      let b = drop l b in
      rbind (replaceUnexpectedEOF (Parse b)) (\<lambda>(errorCode, l).
      let b = drop l b in
      rbind (replaceUnexpectedEOF (Parse b)) (\<lambda>(finalSize, l).
      let b = drop l b in
      rbind (if isResetStreamAt
             then rbind (replaceUnexpectedEOF (Parse b)) (\<lambda>(reliableSize, l). Inr (reliableSize, drop l b))
             else Inr (0, b)) (\<lambda>(reliableSize, b).
      if reliableSize > finalSize
      then Inl (FrameMessage ''RESET_STREAM_AT: reliable size larger than final size'')
      else Inr (\<lparr>rs_StreamID = sint streamID, rs_ErrorCode = errorCode, rs_FinalSize = sint finalSize,
                 rs_ReliableSize = sint reliableSize\<rparr>, startLen - length b))))))"

definition ResetStreamFrame_type :: "ResetStreamFrame \<Rightarrow> FrameType" where
  "ResetStreamFrame_type f = (if rs_ReliableSize f = 0 then FrameTypeResetStream else FrameTypeResetStreamAt)"

definition ResetStreamFrame_Append :: "ResetStreamFrame \<Rightarrow> bytes \<Rightarrow> pack_error + bytes" where
  "ResetStreamFrame_Append f b =
     rbind (varint (Append b (ResetStreamFrame_type f))) (\<lambda>b.
     rbind (varint (Append b (uint64 (rs_StreamID f)))) (\<lambda>b.
     rbind (varint (Append b (rs_ErrorCode f))) (\<lambda>b.
     rbind (varint (Append b (uint64 (rs_FinalSize f)))) (\<lambda>b.
     if rs_ReliableSize f > 0 then varint (Append b (uint64 (rs_ReliableSize f))) else Inr b))))"

definition ResetStreamFrame_Length :: "ResetStreamFrame \<Rightarrow> pack_error + ByteCount" where
  "ResetStreamFrame_Length f =
     rbind (if rs_ReliableSize f > 0 then rbind (varint (Len (uint64 (rs_ReliableSize f)))) (\<lambda>l. Inr (1 + l))
            else Inr 1) (\<lambda>size.
     rbind (varint (Len (uint64 (rs_StreamID f)))) (\<lambda>l1.
     rbind (varint (Len (rs_ErrorCode f))) (\<lambda>l2.
     rbind (varint (Len (uint64 (rs_FinalSize f)))) (\<lambda>l3.
     Inr (int (size + l1 + l2 + l3))))))"

definition ResetStreamFrame_ok :: "ResetStreamFrame \<Rightarrow> bool" where
  "ResetStreamFrame_ok f =
     (int64_ok (rs_StreamID f) \<and> word_ok (rs_ErrorCode f) \<and> int64_ok (rs_FinalSize f)
      \<and> 0 \<le> rs_ReliableSize f \<and> rs_ReliableSize f \<le> rs_FinalSize f)"

interpretation reset_stream: frame_codec ResetStreamFrame_Append ResetStreamFrame_Length
  "\<lambda>typ. parseResetStreamFrame (typ = FrameTypeResetStreamAt)" ResetStreamFrame_type ResetStreamFrame_ok
proof (unfold_locales, goal_cases)
  case (2 f)
  then have f: "int64_ok (rs_StreamID f)" "word_ok (rs_ErrorCode f)" "int64_ok (rs_FinalSize f)"
    "int64_ok (rs_ReliableSize f)" "rs_ReliableSize f \<le> rs_FinalSize f"
    by (auto simp: ResetStreamFrame_ok_def int64_ok_def)
  have le: "uint64 (rs_ReliableSize f) \<le> uint64 (rs_FinalSize f)"
    using f by (simp add: word_le_nat_alt nat_mono)
  let ?w = "venc (uint64 (rs_StreamID f)) @ venc (rs_ErrorCode f) @ venc (uint64 (rs_FinalSize f))"
  show ?case
  proof (cases "rs_ReliableSize f = 0")
    case True
    then show ?thesis using f
      by (intro exI [of _ ?w]) (simp add: ResetStreamFrame_Append_def ResetStreamFrame_Length_def
          parseResetStreamFrame_def ResetStreamFrame_type_def codec_simps venc_type)
  next
    case False
    then have "rs_ReliableSize f > 0" using f(4) by (simp add: int64_ok_def)
    then show ?thesis using f le
      by (intro exI [of _ "?w @ venc (uint64 (rs_ReliableSize f))"]) (simp add: ResetStreamFrame_Append_def
          ResetStreamFrame_Length_def parseResetStreamFrame_def ResetStreamFrame_type_def codec_simps venc_type)
  qed
qed (simp add: ResetStreamFrame_type_def)

section \<open>CONNECTION_CLOSE\<close>

record ConnectionCloseFrame =
  cc_IsApplicationError :: bool
  cc_ErrorCode :: "64 word"
  cc_FrameType :: "64 word"
  cc_ReasonPhrase :: bytes

definition parseConnectionCloseFrame :: "FrameType \<Rightarrow> bytes \<Rightarrow> pack_error + (ConnectionCloseFrame \<times> nat)" where
  "parseConnectionCloseFrame typ b =
     (let startLen = length b; isApp = (typ = FrameTypeApplicationClose) in
      rbind (replaceUnexpectedEOF (Parse b)) (\<lambda>(ec, l).
      let b = drop l b in
      rbind (if \<not> isApp
             then rbind (replaceUnexpectedEOF (Parse b)) (\<lambda>(ft, l). Inr (ft, drop l b))
             else Inr (0, b)) (\<lambda>(ft, b).
      rbind (replaceUnexpectedEOF (Parse b)) (\<lambda>(reasonPhraseLen, l).
      let b = drop l b in
      if sint reasonPhraseLen > int (length b) then Inl FrameEOF
      else Inr (\<lparr>cc_IsApplicationError = isApp, cc_ErrorCode = ec, cc_FrameType = ft,
                 cc_ReasonPhrase = take (unat reasonPhraseLen) b\<rparr>,
                startLen - length b + unat reasonPhraseLen)))))"

definition ConnectionCloseFrame_type :: "ConnectionCloseFrame \<Rightarrow> FrameType" where
  "ConnectionCloseFrame_type f =
     (if cc_IsApplicationError f then FrameTypeApplicationClose else FrameTypeConnectionClose)"

definition ConnectionCloseFrame_Length :: "ConnectionCloseFrame \<Rightarrow> pack_error + ByteCount" where
  "ConnectionCloseFrame_Length f =
     rbind (varint (Len (cc_ErrorCode f))) (\<lambda>l1.
     rbind (varint (Len (word_of_nat (length (cc_ReasonPhrase f))))) (\<lambda>l2.
     let len = 1 + int (l1 + l2) + int (length (cc_ReasonPhrase f)) in
     if \<not> cc_IsApplicationError f
     then rbind (varint (Len (cc_FrameType f))) (\<lambda>l3. Inr (len + int l3))
     else Inr len))"

definition ConnectionCloseFrame_Append :: "ConnectionCloseFrame \<Rightarrow> bytes \<Rightarrow> pack_error + bytes" where
  "ConnectionCloseFrame_Append f b =
     (let b = b @ [ucast (ConnectionCloseFrame_type f)] in
      rbind (varint (Append b (cc_ErrorCode f))) (\<lambda>b.
      rbind (if \<not> cc_IsApplicationError f then varint (Append b (cc_FrameType f)) else Inr b) (\<lambda>b.
      rbind (varint (Append b (word_of_nat (length (cc_ReasonPhrase f))))) (\<lambda>b.
      Inr (b @ cc_ReasonPhrase f)))))"

definition ConnectionCloseFrame_ok :: "ConnectionCloseFrame \<Rightarrow> bool" where
  "ConnectionCloseFrame_ok f =
     (word_ok (cc_ErrorCode f) \<and> word_ok (cc_FrameType f) \<and> length (cc_ReasonPhrase f) < 2 ^ 62
      \<and> (cc_IsApplicationError f \<longrightarrow> cc_FrameType f = 0))"

lemma sint_len [simp]: "n < 2 ^ 62 \<Longrightarrow> sint (word_of_nat n :: 64 word) = int n"
  using sint_uint64 [of "int n"] by (simp add: int64_ok_def)

interpretation connection_close: frame_codec ConnectionCloseFrame_Append ConnectionCloseFrame_Length
  parseConnectionCloseFrame ConnectionCloseFrame_type ConnectionCloseFrame_ok
proof (unfold_locales, goal_cases)
  case (2 f)
  then have f: "word_ok (cc_ErrorCode f)" "word_ok (cc_FrameType f)" "length (cc_ReasonPhrase f) < 2 ^ 62"
    "cc_IsApplicationError f \<longrightarrow> cc_FrameType f = 0"
    by (auto simp: ConnectionCloseFrame_ok_def)
  then show ?case
    by (intro exI [of _ "venc (cc_ErrorCode f) @ (if cc_IsApplicationError f then [] else venc (cc_FrameType f))
        @ venc (word_of_nat (length (cc_ReasonPhrase f))) @ cc_ReasonPhrase f"])
      (cases "cc_IsApplicationError f"; simp add: ConnectionCloseFrame_Append_def ConnectionCloseFrame_Length_def
        parseConnectionCloseFrame_def ConnectionCloseFrame_type_def Let_def codec_simps venc_type)
qed (simp add: ConnectionCloseFrame_type_def)

section \<open>ACK_FREQUENCY\<close>

type_synonym Duration = int
  \<comment> \<open>nanoseconds, an \<open>int64\<close>\<close>

abbreviation maxInt64 :: int where "maxInt64 \<equiv> 9223372036854775807"

text \<open>Integer division of Go, which truncates toward zero, by a positive number.\<close>

definition go_div :: "int \<Rightarrow> int \<Rightarrow> int" where
  "go_div a b = (if a < 0 then - ((- a) div b) else a div b)"

record AckFrequencyFrame =
  af_SequenceNumber :: "64 word"
  af_AckElicitingThreshold :: "64 word"
  af_RequestMaxAckDelay :: Duration
  af_ReorderingThreshold :: int

text \<open>\<open>time.Duration(mad) * time.Microsecond\<close> is a 64-bit product.\<close>

definition parseAckFrequencyFrame :: "bytes \<Rightarrow> pack_error + (AckFrequencyFrame \<times> nat)" where
  "parseAckFrequencyFrame b =
     (let startLen = length b in
      rbind (replaceUnexpectedEOF (Parse b)) (\<lambda>(seq, l).
      let b = drop l b in
      rbind (replaceUnexpectedEOF (Parse b)) (\<lambda>(aeth, l).
      let b = drop l b in
      rbind (replaceUnexpectedEOF (Parse b)) (\<lambda>(mad, l).
      let maxAckDelay = sint (mad * 1000);
          maxAckDelay = (if maxAckDelay < 0 then maxInt64 else maxAckDelay);
          b = drop l b in
      rbind (replaceUnexpectedEOF (Parse b)) (\<lambda>(rth, l).
      let b = drop l b in
      Inr (\<lparr>af_SequenceNumber = seq, af_AckElicitingThreshold = aeth, af_RequestMaxAckDelay = maxAckDelay,
            af_ReorderingThreshold = sint rth\<rparr>, startLen - length b))))))"

definition AckFrequencyFrame_Append :: "AckFrequencyFrame \<Rightarrow> bytes \<Rightarrow> pack_error + bytes" where
  "AckFrequencyFrame_Append f b =
     rbind (varint (Append b FrameTypeAckFrequency)) (\<lambda>b.
     rbind (varint (Append b (af_SequenceNumber f))) (\<lambda>b.
     rbind (varint (Append b (af_AckElicitingThreshold f))) (\<lambda>b.
     rbind (varint (Append b (uint64 (go_div (af_RequestMaxAckDelay f) 1000)))) (\<lambda>b.
     varint (Append b (uint64 (af_ReorderingThreshold f)))))))"

definition AckFrequencyFrame_Length :: "AckFrequencyFrame \<Rightarrow> pack_error + ByteCount" where
  "AckFrequencyFrame_Length f =
     rbind (varint (Len (af_SequenceNumber f))) (\<lambda>l1.
     rbind (varint (Len (af_AckElicitingThreshold f))) (\<lambda>l2.
     rbind (varint (Len (uint64 (go_div (af_RequestMaxAckDelay f) 1000)))) (\<lambda>l3.
     rbind (varint (Len (uint64 (af_ReorderingThreshold f)))) (\<lambda>l4.
     Inr (int (2 + l1 + l2 + l3 + l4))))))"

text \<open>The delay travels in microseconds.\<close>

definition AckFrequencyFrame_ok :: "AckFrequencyFrame \<Rightarrow> bool" where
  "AckFrequencyFrame_ok f =
     (word_ok (af_SequenceNumber f) \<and> word_ok (af_AckElicitingThreshold f) \<and> int64_ok (af_ReorderingThreshold f)
      \<and> 0 \<le> af_RequestMaxAckDelay f \<and> af_RequestMaxAckDelay f \<le> maxInt64 \<and> af_RequestMaxAckDelay f mod 1000 = 0)"

lemma duration_roundtrip:
  assumes "0 \<le> d" "d \<le> maxInt64" "d mod 1000 = 0"
  shows "int64_ok (go_div d 1000)" "sint (uint64 (go_div d 1000) * 1000) = d"
proof -
  have d: "go_div d 1000 * 1000 = d" using assms div_mult_mod_eq [of d 1000] by (simp add: go_div_def)
  have "0 \<le> d div 1000" "d div 1000 < 2 ^ 62"
    using assms(1) zdiv_mono1 [OF assms(2), of 1000] by simp_all
  then show "int64_ok (go_div d 1000)" using assms(1) by (simp add: go_div_def int64_ok_def)
  have "uint64 (go_div d 1000) * 1000 = uint64 (go_div d 1000 * 1000)" by simp
  then have "uint64 (go_div d 1000) * 1000 = uint64 d" using d by simp
  then show "sint (uint64 (go_div d 1000) * 1000) = d"
    using assms by (simp add: signed_of_int signed_take_bit_int_eq_self)
qed

interpretation ack_frequency: frame_codec AckFrequencyFrame_Append AckFrequencyFrame_Length
  "\<lambda>_. parseAckFrequencyFrame" "\<lambda>_. FrameTypeAckFrequency" AckFrequencyFrame_ok
proof (unfold_locales, goal_cases)
  case (2 f)
  then have f: "word_ok (af_SequenceNumber f)" "word_ok (af_AckElicitingThreshold f)"
    "int64_ok (af_ReorderingThreshold f)" "0 \<le> af_RequestMaxAckDelay f"
    and d: "int64_ok (go_div (af_RequestMaxAckDelay f) 1000)"
    "sint (uint64 (go_div (af_RequestMaxAckDelay f) 1000) * 1000) = af_RequestMaxAckDelay f"
    using duration_roundtrip [of "af_RequestMaxAckDelay f"] by (auto simp: AckFrequencyFrame_ok_def)
  have t: "word_ok FrameTypeAckFrequency" "length (venc FrameTypeAckFrequency) = 2"
    by (simp_all add: word_ok_def venc_encoding(3) varint_size_def)
  show ?case using f d t
    by (intro exI [of _ "venc (af_SequenceNumber f) @ venc (af_AckElicitingThreshold f)
        @ venc (uint64 (go_div (af_RequestMaxAckDelay f) 1000)) @ venc (uint64 (af_ReorderingThreshold f))"])
      (simp add: AckFrequencyFrame_Append_def AckFrequencyFrame_Length_def parseAckFrequencyFrame_def
        codec_simps)
qed simp

end
