(* ===== verification/Quic_Stream_Frames.thy ===== *)
theory Quic_Stream_Frames
  imports Quic_Control_Frames
begin

text \<open>
  STREAM and DATAGRAM frames, \<open>quic/internal/wire/stream_frame.go\<close> and \<open>datagram_frame.go\<close>. The buffer
  pool a STREAM frame's data may come from shows in two places: a received frame longer than the pool's
  buffers is refused, and a split panics if the rest does not fit into one. The recycling itself
  (\<open>fromPool\<close>, \<open>PutBack\<close>) is not modelled.
\<close>

abbreviation MinStreamFrameBufferSize :: nat where "MinStreamFrameBufferSize \<equiv> 128"
abbreviation MaxPacketBufferSize :: nat where "MaxPacketBufferSize \<equiv> 1472"
abbreviation MaxByteCount :: ByteCount where "MaxByteCount \<equiv> 4611686018427387903"

section \<open>STREAM\<close>

record StreamFrame =
  sf_StreamID :: StreamID
  sf_Offset :: ByteCount
  sf_Data :: bytes
  sf_Fin :: bool
  sf_DataLenPresent :: bool

definition StreamFrame_DataLen :: "StreamFrame \<Rightarrow> ByteCount" where
  "StreamFrame_DataLen f = int (length (sf_Data f))"

definition ParseStreamFrame :: "FrameType \<Rightarrow> bytes \<Rightarrow> pack_error + (StreamFrame \<times> nat)" where
  "ParseStreamFrame typ b =
     (let startLen = length b;
          hasOffset = (typ AND 4 > 0);
          fin = (typ AND 1 > 0);
          hasDataLen = (typ AND 2 > 0) in
      rbind (replaceUnexpectedEOF (Parse b)) (\<lambda>(streamID, l).
      let b = drop l b in
      rbind (if hasOffset then rbind (replaceUnexpectedEOF (Parse b)) (\<lambda>(offset, l). Inr (offset, drop l b))
             else Inr (0, b)) (\<lambda>(offset, b).
      rbind (if hasDataLen then
               rbind (replaceUnexpectedEOF (Parse b)) (\<lambda>(dataLen, l).
               let b = drop l b in
               if unat dataLen > length b then Inl FrameEOF else Inr (unat dataLen, b))
             else Inr (length b, b)) (\<lambda>(dataLen, b).
      if \<not> dataLen < MinStreamFrameBufferSize \<and> dataLen > MaxPacketBufferSize then Inl FrameEOF
      else
        let frame = \<lparr>sf_StreamID = sint streamID, sf_Offset = sint offset, sf_Data = take dataLen b,
                     sf_Fin = fin, sf_DataLenPresent = hasDataLen\<rparr> in
        if sf_Offset frame + StreamFrame_DataLen frame > MaxByteCount
        then Inl (FrameMessage ''stream data overflows maximum offset'')
        else Inr (frame, startLen - length b + dataLen)))))"

definition StreamFrame_type :: "StreamFrame \<Rightarrow> FrameType" where
  "StreamFrame_type f =
     (let typ = 0x8;
          typ = (if sf_Fin f then typ XOR 1 else typ);
          typ = (if sf_DataLenPresent f then typ XOR 2 else typ)
      in if sf_Offset f \<noteq> 0 then typ XOR 4 else typ)"

definition StreamFrame_Append :: "StreamFrame \<Rightarrow> bytes \<Rightarrow> pack_error + bytes" where
  "StreamFrame_Append f b =
     (if length (sf_Data f) = 0 \<and> \<not> sf_Fin f
      then Inl (FrameMessage ''StreamFrame: attempting to write empty frame without FIN'')
      else
        let hasOffset = (sf_Offset f \<noteq> 0);
            b = b @ [ucast (StreamFrame_type f)] in
        rbind (varint (Append b (uint64 (sf_StreamID f)))) (\<lambda>b.
        rbind (if hasOffset then varint (Append b (uint64 (sf_Offset f))) else Inr b) (\<lambda>b.
        rbind (if sf_DataLenPresent f then varint (Append b (uint64 (StreamFrame_DataLen f))) else Inr b) (\<lambda>b.
        Inr (b @ sf_Data f)))))"

definition StreamFrame_Length :: "StreamFrame \<Rightarrow> pack_error + ByteCount" where
  "StreamFrame_Length f =
     rbind (varint (Len (uint64 (sf_StreamID f)))) (\<lambda>l.
     let len = 1 + l in
     rbind (if sf_Offset f \<noteq> 0 then rbind (varint (Len (uint64 (sf_Offset f)))) (\<lambda>l. Inr (len + l)) else Inr len) (\<lambda>len.
     rbind (if sf_DataLenPresent f then rbind (varint (Len (uint64 (StreamFrame_DataLen f)))) (\<lambda>l. Inr (len + l))
            else Inr len) (\<lambda>len.
     Inr (int len + StreamFrame_DataLen f))))"

definition StreamFrame_MaxDataLen :: "StreamFrame \<Rightarrow> ByteCount \<Rightarrow> pack_error + ByteCount" where
  "StreamFrame_MaxDataLen f maxSize =
     rbind (varint (Len (uint64 (sf_StreamID f)))) (\<lambda>l.
     let headerLen = 1 + int l in
     rbind (if sf_Offset f \<noteq> 0 then rbind (varint (Len (uint64 (sf_Offset f)))) (\<lambda>l. Inr (headerLen + int l))
            else Inr headerLen) (\<lambda>headerLen.
     let headerLen = (if sf_DataLenPresent f then headerLen + 1 else headerLen) in
     if headerLen > maxSize then Inr 0
     else
       let maxDataLen = maxSize - headerLen in
       if sf_DataLenPresent f
       then rbind (varint (Len (uint64 maxDataLen))) (\<lambda>l. Inr (if l \<noteq> 1 then maxDataLen - 1 else maxDataLen))
       else Inr maxDataLen))"

text \<open>As for CRYPTO frames: the frame split off, whether splitting was required, the receiver afterwards.\<close>

definition StreamFrame_MaybeSplitOffFrame ::
  "StreamFrame \<Rightarrow> ByteCount \<Rightarrow> pack_error + (StreamFrame option \<times> bool \<times> StreamFrame)" where
  "StreamFrame_MaybeSplitOffFrame f maxSize =
     rbind (StreamFrame_Length f) (\<lambda>len.
     if maxSize \<ge> len then Inr (None, False, f)
     else rbind (StreamFrame_MaxDataLen f maxSize) (\<lambda>n.
     if n = 0 then Inr (None, True, f)
     else
       let rest = int (length (sf_Data f)) - n in
       if rest < 0 \<or> rest > int MaxPacketBufferSize then Inl (PackPanic SliceOutOfRange)
       else rbind (slice PackPanic (sf_Data f) (nat n) (length (sf_Data f))) (\<lambda>tail.
            rbind (slice PackPanic (sf_Data f) 0 (nat n)) (\<lambda>init.
            Inr (Some (f\<lparr>sf_Fin := False, sf_Data := init\<rparr>), True,
                 f\<lparr>sf_Data := take (nat rest) tail, sf_Offset := sf_Offset f + n\<rparr>)))))"

section \<open>DATAGRAM\<close>

record DatagramFrame =
  df_DataLenPresent :: bool
  df_Data :: bytes

definition parseDatagramFrame :: "FrameType \<Rightarrow> bytes \<Rightarrow> pack_error + (DatagramFrame \<times> nat)" where
  "parseDatagramFrame typ b =
     (let startLen = length b; present = (typ AND 1 > 0) in
      rbind (if present then
               rbind (replaceUnexpectedEOF (Parse b)) (\<lambda>(len, l).
               let b = drop l b in
               if unat len > length b then Inl FrameEOF else Inr (unat len, b))
             else Inr (length b, b)) (\<lambda>(len, b).
      Inr (\<lparr>df_DataLenPresent = present, df_Data = take len b\<rparr>, startLen - length b + len)))"

definition DatagramFrame_type :: "DatagramFrame \<Rightarrow> FrameType" where
  "DatagramFrame_type f = (if df_DataLenPresent f then 0x30 XOR 1 else 0x30)"

definition DatagramFrame_Append :: "DatagramFrame \<Rightarrow> bytes \<Rightarrow> pack_error + bytes" where
  "DatagramFrame_Append f b =
     (let b = b @ [ucast (DatagramFrame_type f)] in
      rbind (if df_DataLenPresent f then varint (Append b (word_of_nat (length (df_Data f)))) else Inr b) (\<lambda>b.
      Inr (b @ df_Data f)))"

definition DatagramFrame_MaxDataLen :: "DatagramFrame \<Rightarrow> ByteCount \<Rightarrow> pack_error + ByteCount" where
  "DatagramFrame_MaxDataLen f maxSize =
     (let headerLen = (if df_DataLenPresent f then 1 + 1 else 1) in
      if headerLen > maxSize then Inr 0
      else
        let maxDataLen = maxSize - headerLen in
        if df_DataLenPresent f
        then rbind (varint (Len (uint64 maxDataLen))) (\<lambda>l. Inr (if l \<noteq> 1 then maxDataLen - 1 else maxDataLen))
        else Inr maxDataLen)"

definition DatagramFrame_Length :: "DatagramFrame \<Rightarrow> pack_error + ByteCount" where
  "DatagramFrame_Length f =
     (let len = 1 + int (length (df_Data f)) in
      if df_DataLenPresent f
      then rbind (varint (Len (word_of_nat (length (df_Data f))))) (\<lambda>l. Inr (len + int l)) else Inr len)"

section \<open>The codec contract\<close>

definition StreamFrame_ok :: "StreamFrame \<Rightarrow> bool" where
  "StreamFrame_ok f =
     (int64_ok (sf_StreamID f) \<and> 0 \<le> sf_Offset f \<and> sf_Offset f + int (length (sf_Data f)) \<le> MaxByteCount
      \<and> length (sf_Data f) \<le> MaxPacketBufferSize \<and> (sf_Data f = [] \<longrightarrow> sf_Fin f))"

definition StreamFrame_header :: "StreamFrame \<Rightarrow> bytes" where
  "StreamFrame_header f = venc (uint64 (sf_StreamID f))
     @ (if sf_Offset f \<noteq> 0 then venc (uint64 (sf_Offset f)) else [])
     @ (if sf_DataLenPresent f then venc (word_of_nat (length (sf_Data f))) else [])"

lemma StreamFrame_type_small: "StreamFrame_type f < 64"
  by (simp add: StreamFrame_type_def Let_def)

lemma StreamFrame_type_bits:
  "StreamFrame_type f AND 4 > 0 \<longleftrightarrow> sf_Offset f \<noteq> 0"
  "StreamFrame_type f AND 1 > 0 \<longleftrightarrow> sf_Fin f"
  "StreamFrame_type f AND 2 > 0 \<longleftrightarrow> sf_DataLenPresent f"
  by (simp_all add: StreamFrame_type_def Let_def)

lemma StreamFrame_ok_bounds:
  assumes "StreamFrame_ok f"
  shows "int64_ok (sf_StreamID f)" "int64_ok (sf_Offset f)" "length (sf_Data f) < 2 ^ 62"
    "\<not> sf_Offset f + int (length (sf_Data f)) > MaxByteCount"
    "\<not> (length (sf_Data f) = 0 \<and> \<not> sf_Fin f)" "length (sf_Data f) \<le> MaxPacketBufferSize"
  using assms by (auto simp: StreamFrame_ok_def int64_ok_def)

lemma uint64_DataLen: "uint64 (StreamFrame_DataLen f) = word_of_nat (length (sf_Data f))"
  by (simp add: StreamFrame_DataLen_def)

lemma StreamFrame_Append_eq:
  assumes "StreamFrame_ok f"
  shows "StreamFrame_Append f b = Inr (b @ venc (StreamFrame_type f) @ StreamFrame_header f @ sf_Data f)"
  using StreamFrame_ok_bounds [OF assms]
  by (simp add: StreamFrame_Append_def StreamFrame_header_def uint64_DataLen codec_simps venc_type
      StreamFrame_type_small Let_def del: of_nat_0_eq_iff)

lemma StreamFrame_Length_eq:
  assumes "StreamFrame_ok f"
  shows "StreamFrame_Length f = Inr (int (1 + length (StreamFrame_header f) + length (sf_Data f)))"
  using StreamFrame_ok_bounds [OF assms]
  by (simp add: StreamFrame_Length_def StreamFrame_header_def uint64_DataLen codec_simps Let_def)
    (simp add: StreamFrame_DataLen_def)

lemma ParseStreamFrame_eq:
  assumes "StreamFrame_ok f" "sf_DataLenPresent f \<or> rest = []"
  shows "ParseStreamFrame (StreamFrame_type f) (StreamFrame_header f @ sf_Data f @ rest) =
    Inr (f, length (StreamFrame_header f @ sf_Data f))"
  using StreamFrame_ok_bounds [OF assms(1)] assms(2)
  by (cases "sf_Offset f = 0"; cases "sf_DataLenPresent f")
    (simp_all add: ParseStreamFrame_def StreamFrame_type_bits StreamFrame_header_def StreamFrame_DataLen_def
      codec_simps Let_def)

interpretation stream: frame_codec StreamFrame_Append StreamFrame_Length ParseStreamFrame StreamFrame_type
  "\<lambda>f. StreamFrame_ok f \<and> sf_DataLenPresent f"
proof (unfold_locales, goal_cases)
  case (1 f)
  then show ?case using StreamFrame_type_small [of f] by (simp add: word_less_nat_alt)
next
  case (2 f)
  then show ?case
    using StreamFrame_Append_eq [of f] StreamFrame_Length_eq [of f] ParseStreamFrame_eq [of f]
      venc_length_type [OF StreamFrame_type_small]
    by (intro exI [of _ "StreamFrame_header f @ sf_Data f"]) simp
qed

interpretation datagram: frame_codec DatagramFrame_Append DatagramFrame_Length parseDatagramFrame DatagramFrame_type
  "\<lambda>f. length (df_Data f) < 2 ^ 62 \<and> df_DataLenPresent f"
proof (unfold_locales, goal_cases)
  case (2 f)
  then have p: "df_DataLenPresent f" and l: "length (df_Data f) < 2 ^ 62" by auto
  then show ?case
    by (intro exI [of _ "venc (word_of_nat (length (df_Data f))) @ df_Data f"])
      (simp add: DatagramFrame_Append_def DatagramFrame_Length_def parseDatagramFrame_def DatagramFrame_type_def
        codec_simps venc_type Let_def)
qed (simp add: DatagramFrame_type_def)

section \<open>Splitting a STREAM frame\<close>

definition StreamFrame_fixed :: "StreamFrame \<Rightarrow> nat" where
  "StreamFrame_fixed f = 1 + varint_size (nat (sf_StreamID f))
     + (if sf_Offset f \<noteq> 0 then varint_size (nat (sf_Offset f)) else 0)"

definition StreamFrame_size :: "StreamFrame \<Rightarrow> nat" where
  "StreamFrame_size f = StreamFrame_fixed f
     + (if sf_DataLenPresent f then varint_size (length (sf_Data f)) else 0) + length (sf_Data f)"

lemma length_venc: "word_ok i \<Longrightarrow> length (venc i) = varint_size (unat i)"
  using venc_encoding(3) [of i] by (simp add: word_ok_def)

lemma StreamFrame_Length_size:
  assumes "StreamFrame_ok f"
  shows "StreamFrame_Length f = Inr (int (StreamFrame_size f))"
  using StreamFrame_ok_bounds [OF assms]
  by (simp add: StreamFrame_Length_eq [OF assms] StreamFrame_header_def StreamFrame_size_def StreamFrame_fixed_def
      length_venc)

text \<open>The room for data: with a length field, a size of 64 or more costs a second byte of length.\<close>

definition data_room :: "bool \<Rightarrow> int \<Rightarrow> int" where
  "data_room present room =
     (if present then (if room < 1 then 0 else if room - 1 < 64 then room - 1 else room - 2)
      else if room < 0 then 0 else room)"

lemma data_room_fits:
  assumes "room \<le> 16384" "0 < data_room present room"
  shows "(if present then int (varint_size (nat (data_room present room))) else 0) + data_room present room \<le> room"
  using assms by (auto simp: data_room_def varint_size_def split: if_splits)

lemma data_room_less:
  assumes "room \<le> 16384" "(if present then int (varint_size n) else 0) + int n > room"
  shows "data_room present room < int n \<or> data_room present room = 0"
  using assms by (auto simp: data_room_def varint_size_def split: if_splits)

lemma StreamFrame_MaxDataLen_eq:
  assumes "StreamFrame_ok f" "maxSize \<le> 16384"
  shows "StreamFrame_MaxDataLen f maxSize = Inr (data_room (sf_DataLenPresent f) (maxSize - int (StreamFrame_fixed f)))"
proof -
  note b = StreamFrame_ok_bounds [OF assms(1)]
  define room where "room = maxSize - int (StreamFrame_fixed f)"
  have max: "maxSize = room + int (StreamFrame_fixed f)" by (simp add: room_def)
  have room: "room \<le> 16384" using assms(2) by (simp add: room_def)
  have l: "varint (Len (uint64 r)) = Inr (if r < 64 then 1 else 2)" if "0 \<le> r" "r < 16384" for r
    using that by (subst varint_Len) (auto simp: varint_size_def unat_uint64)
  have hdr: "rbind (varint (Len (uint64 (sf_StreamID f)))) (\<lambda>l.
     rbind (if sf_Offset f \<noteq> 0 then rbind (varint (Len (uint64 (sf_Offset f)))) (\<lambda>l'. Inr (1 + int l + int l'))
            else Inr (1 + int l)) k) = k (int (StreamFrame_fixed f))" for k :: "int \<Rightarrow> pack_error + int"
    using b by (simp add: codec_simps length_venc StreamFrame_fixed_def add.assoc)
  show ?thesis
    unfolding StreamFrame_MaxDataLen_def Let_def hdr room_def [symmetric] unfolding max
    using room l [of "room - 1"] by (auto simp: data_room_def)
qed

section \<open>Properties\<close>

text \<open>C37: \<open>MaybeSplitOffFrame\<close> cuts a STREAM frame without losing or duplicating a byte and keeps the end of the stream
  where it is, for every limit up to 16384: a frame that fits is left alone; of one that does not, either nothing is cut,
  exactly when the limit leaves no room for data, or the frame returned fits the limit, carries at least one byte and
  no FIN, and the receiver continues right after it with the remaining bytes and the original FIN. Both frames
  are on the stream of the original one and write the data length if it did.\<close>

theorem StreamFrame_split_spec:
  assumes "StreamFrame_ok f" and "maxSize \<le> 16384"
  defines "room \<equiv> data_room (sf_DataLenPresent f) (maxSize - int (StreamFrame_fixed f))"
  shows "(int (StreamFrame_size f) \<le> maxSize \<and> StreamFrame_MaybeSplitOffFrame f maxSize = Inr (None, False, f))
    \<or> (int (StreamFrame_size f) > maxSize \<and> room = 0 \<and> StreamFrame_MaybeSplitOffFrame f maxSize = Inr (None, True, f))
    \<or> (int (StreamFrame_size f) > maxSize \<and> (\<exists>g h. StreamFrame_MaybeSplitOffFrame f maxSize = Inr (Some g, True, h)
        \<and> StreamFrame_Length g = Inr (int (StreamFrame_size g)) \<and> int (StreamFrame_size g) \<le> maxSize
        \<and> sf_Data g \<noteq> [] \<and> sf_Data h \<noteq> [] \<and> sf_Data g @ sf_Data h = sf_Data f
        \<and> sf_Offset g = sf_Offset f \<and> sf_Offset h = sf_Offset f + int (length (sf_Data g))
        \<and> \<not> sf_Fin g \<and> sf_Fin h = sf_Fin f \<and> sf_StreamID g = sf_StreamID f \<and> sf_StreamID h = sf_StreamID f
        \<and> sf_DataLenPresent g = sf_DataLenPresent f \<and> sf_DataLenPresent h = sf_DataLenPresent f))"
proof (cases "int (StreamFrame_size f) \<le> maxSize \<or> room = 0")
  case True
  then show ?thesis
    using StreamFrame_Length_size [OF assms(1)] StreamFrame_MaxDataLen_eq [OF assms(1,2)]
    by (auto simp: StreamFrame_MaybeSplitOffFrame_def room_def)
next
  case False
  define n where "n = nat room"
  have le: "maxSize - int (StreamFrame_fixed f) \<le> 16384" using assms(2) by simp
  have pos: "0 < room" using False by (auto simp: room_def data_room_def split: if_splits)
  then have n: "room = int n" "0 < n" by (simp_all add: n_def)
  have lt: "n < length (sf_Data f)"
    using data_room_less [OF le, of "sf_DataLenPresent f" "length (sf_Data f)"] False n
    by (auto simp: StreamFrame_size_def room_def split: if_splits)
  have small: "length (sf_Data f) \<le> MaxPacketBufferSize" using StreamFrame_ok_bounds(6) [OF assms(1)] .
  let ?g = "f\<lparr>sf_Fin := False, sf_Data := take n (sf_Data f)\<rparr>"
  let ?h = "f\<lparr>sf_Data := drop n (sf_Data f), sf_Offset := sf_Offset f + int n\<rparr>"
  have "StreamFrame_MaybeSplitOffFrame f maxSize = Inr (Some ?g, True, ?h)"
    using False n lt small StreamFrame_Length_size [OF assms(1)] StreamFrame_MaxDataLen_eq [OF assms(1,2)]
    by (simp add: StreamFrame_MaybeSplitOffFrame_def room_def [symmetric] slice_def Let_def)
  moreover have "StreamFrame_ok ?g" using assms(1) lt n by (auto simp: StreamFrame_ok_def)
  moreover have "int (StreamFrame_size ?g) \<le> maxSize"
  proof -
    have "StreamFrame_fixed ?g = StreamFrame_fixed f" by (simp add: StreamFrame_fixed_def)
    then show ?thesis
      using data_room_fits [OF le, of "sf_DataLenPresent f"] pos n lt unfolding room_def [symmetric]
      by (auto simp: StreamFrame_size_def min_def split: if_splits)
  qed
  ultimately show ?thesis using False n lt StreamFrame_Length_size [of ?g] by auto
qed

theorem StreamFrame_split_spec_witness:
  "\<exists>g h. StreamFrame_MaybeSplitOffFrame
      \<lparr>sf_StreamID = 4, sf_Offset = 100, sf_Data = replicate 90 7, sf_Fin = True, sf_DataLenPresent = True\<rparr> 60
      = Inr (Some g, True, h) \<and> sf_Data g @ sf_Data h = replicate 90 7 \<and> \<not> sf_Fin g \<and> sf_Fin h"
proof -
  let ?f = "\<lparr>sf_StreamID = 4, sf_Offset = 100, sf_Data = replicate 90 7, sf_Fin = True, sf_DataLenPresent = True\<rparr>"
  have "StreamFrame_ok ?f" by (simp add: StreamFrame_ok_def int64_ok_def)
  then show ?thesis
    using StreamFrame_split_spec [of ?f 60]
    by (auto simp: StreamFrame_size_def StreamFrame_fixed_def varint_size_def data_room_def)
qed

end
