(* ===== verification/Quic_Ack_Frame.thy ===== *)
theory Quic_Ack_Frame
  imports Quic_Control_Frames
begin

text \<open>
  ACK frames, \<open>quic/internal/wire/ack_frame.go\<close> and \<open>ack_range.go\<close>. Packet numbers and durations are
  \<open>int64\<close>; the two places where a duration can overflow are computed on 64-bit words.
\<close>

type_synonym PacketNumber = int

abbreviation FrameTypeAck :: FrameType where "FrameTypeAck \<equiv> 0x2"
abbreviation FrameTypeAckECN :: FrameType where "FrameTypeAckECN \<equiv> 0x3"
abbreviation MaxNumAckRanges :: nat where "MaxNumAckRanges \<equiv> 64"
abbreviation AckDelayExponent :: nat where "AckDelayExponent \<equiv> 3"

record AckRange =
  ar_Smallest :: PacketNumber
  ar_Largest :: PacketNumber

definition AckRange_Len :: "AckRange \<Rightarrow> PacketNumber" where
  "AckRange_Len r = ar_Largest r - ar_Smallest r + 1"

record AckFrame =
  ack_AckRanges :: "AckRange list"
  ack_DelayTime :: Duration
  ack_ECT0 :: "64 word"
  ack_ECT1 :: "64 word"
  ack_ECNCE :: "64 word"

section \<open>Ranges\<close>

text \<open>The second loop of \<open>validateAckRanges\<close>, over neighbouring ranges.\<close>

fun ranges_descend :: "AckRange list \<Rightarrow> bool" where
  "ranges_descend (lastAckRange # ackRange # rs) =
     (if ar_Smallest lastAckRange \<le> ar_Smallest ackRange then False
      else if ar_Smallest lastAckRange \<le> ar_Largest ackRange + 1 then False
      else ranges_descend (ackRange # rs))"
| "ranges_descend _ = True"

definition validateAckRanges :: "AckRange list \<Rightarrow> bool" where
  "validateAckRanges rs =
     (if length rs = 0 then False
      else if \<exists>r\<in>set rs. ar_Smallest r > ar_Largest r then False
      else ranges_descend rs)"

definition HasMissingRanges :: "AckFrame \<Rightarrow> bool" where
  "HasMissingRanges f = (length (ack_AckRanges f) > 1)"

definition LargestAcked :: "AckFrame \<Rightarrow> pack_error + PacketNumber" where
  "LargestAcked f = rbind (at PackPanic (ack_AckRanges f) 0) (\<lambda>r. Inr (ar_Largest r))"

definition LowestAcked :: "AckFrame \<Rightarrow> pack_error + PacketNumber" where
  "LowestAcked f =
     (if length (ack_AckRanges f) = 0 then Inl (PackPanic IndexOutOfRange)
      else rbind (at PackPanic (ack_AckRanges f) (length (ack_AckRanges f) - 1)) (\<lambda>r. Inr (ar_Smallest r)))"

text \<open>\<open>sort.Search\<close> of the standard library.\<close>

function sort_Search_loop :: "(nat \<Rightarrow> bool) \<Rightarrow> nat \<Rightarrow> nat \<Rightarrow> nat" where
  "sort_Search_loop p i j =
     (if i < j then let h = (i + j) div 2 in
        if \<not> p h then sort_Search_loop p (h + 1) j else sort_Search_loop p i h
      else i)"
  by pat_completeness auto
termination by (relation "measure (\<lambda>(p, i, j). j - i)") auto

declare sort_Search_loop.simps [simp del]

definition sort_Search :: "nat \<Rightarrow> (nat \<Rightarrow> bool) \<Rightarrow> nat" where
  "sort_Search n p = sort_Search_loop p 0 n"

definition AcksPacket :: "AckFrame \<Rightarrow> PacketNumber \<Rightarrow> pack_error + bool" where
  "AcksPacket f p =
     rbind (LowestAcked f) (\<lambda>lowest.
     rbind (if p < lowest then Inr True else rbind (LargestAcked f) (\<lambda>largest. Inr (p > largest))) (\<lambda>outside.
     if outside then Inr False
     else
       let i = sort_Search (length (ack_AckRanges f)) (\<lambda>i. p \<ge> ar_Smallest (ack_AckRanges f ! i)) in
       rbind (at PackPanic (ack_AckRanges f) i) (\<lambda>r. Inr (p \<le> ar_Largest r))))"

section \<open>Reading\<close>

fun parse_ranges :: "nat \<Rightarrow> PacketNumber \<Rightarrow> bytes \<Rightarrow> AckRange list \<Rightarrow> pack_error + (AckRange list \<times> bytes)" where
  "parse_ranges 0 smallest b ranges = Inr (ranges, b)"
| "parse_ranges (Suc n) smallest b ranges =
     rbind (replaceUnexpectedEOF (Parse b)) (\<lambda>(g, l).
     let b = drop l b; gap = sint g in
     if smallest < gap + 2 then Inl (FrameMessage ''AckFrame: ACK frame contains invalid ACK ranges'')
     else
       let largest = smallest - gap - 2 in
       rbind (replaceUnexpectedEOF (Parse b)) (\<lambda>(ab, l).
       let b = drop l b; ackBlock = sint ab in
       if ackBlock > largest then Inl (FrameMessage ''AckFrame: ACK frame contains invalid ACK ranges'')
       else
         let smallest = largest - ackBlock in
         parse_ranges n smallest b (ranges @ [\<lparr>ar_Smallest = smallest, ar_Largest = largest\<rparr>])))"

definition ack_delay :: "nat \<Rightarrow> 64 word \<Rightarrow> Duration" where
  "ack_delay ackDelayExponent delay =
     (let delayTime = sint (push_bit ackDelayExponent (delay * 1) * 1000)
      in if delayTime < 0 then maxInt64 else delayTime)"

definition parseAckFrame :: "nat \<Rightarrow> FrameType \<Rightarrow> bytes \<Rightarrow> pack_error + (AckFrame \<times> nat)" where
  "parseAckFrame ackDelayExponent typ b =
     (let startLen = length b; ecn = (typ = FrameTypeAckECN) in
      rbind (replaceUnexpectedEOF (Parse b)) (\<lambda>(la, l).
      let b = drop l b; largestAcked = sint la in
      rbind (replaceUnexpectedEOF (Parse b)) (\<lambda>(delay, l).
      let b = drop l b; delayTime = ack_delay ackDelayExponent delay in
      rbind (replaceUnexpectedEOF (Parse b)) (\<lambda>(numBlocks, l).
      let b = drop l b in
      rbind (replaceUnexpectedEOF (Parse b)) (\<lambda>(ab, l).
      let b = drop l b; ackBlock = sint ab in
      if ackBlock > largestAcked then Inl (FrameMessage ''invalid first ACK range'')
      else
        let smallest = largestAcked - ackBlock in
        rbind (parse_ranges (unat numBlocks) smallest b [\<lparr>ar_Smallest = smallest, ar_Largest = largestAcked\<rparr>])
          (\<lambda>(ranges, b).
        if \<not> validateAckRanges ranges then Inl (FrameMessage ''AckFrame: ACK frame contains invalid ACK ranges'')
        else
          rbind (if ecn then
                   rbind (replaceUnexpectedEOF (Parse b)) (\<lambda>(ect0, l).
                   let b = drop l b in
                   rbind (replaceUnexpectedEOF (Parse b)) (\<lambda>(ect1, l).
                   let b = drop l b in
                   rbind (replaceUnexpectedEOF (Parse b)) (\<lambda>(ecnce, l).
                   let b = drop l b in Inr (ect0, ect1, ecnce, b))))
                 else Inr (0, 0, 0, b)) (\<lambda>(ect0, ect1, ecnce, b).
          Inr (\<lparr>ack_AckRanges = ranges, ack_DelayTime = delayTime, ack_ECT0 = ect0, ack_ECT1 = ect1,
                ack_ECNCE = ecnce\<rparr>, startLen - length b))))))))"

section \<open>Writing\<close>

definition encodeAckRange :: "AckFrame \<Rightarrow> nat \<Rightarrow> pack_error + (64 word \<times> 64 word)" where
  "encodeAckRange f i =
     (if i = 0 then rbind (at PackPanic (ack_AckRanges f) 0) (\<lambda>r. Inr (0, uint64 (ar_Largest r - ar_Smallest r)))
      else
        rbind (at PackPanic (ack_AckRanges f) (i - 1)) (\<lambda>p.
        rbind (at PackPanic (ack_AckRanges f) i) (\<lambda>r.
        Inr (uint64 (ar_Smallest p - ar_Largest r - 2), uint64 (ar_Largest r - ar_Smallest r)))))"

definition encodeAckDelay :: "Duration \<Rightarrow> 64 word" where
  "encodeAckDelay delay = uint64 (go_div delay 8000)"

definition hasECN :: "AckFrame \<Rightarrow> bool" where
  "hasECN f = (ack_ECT0 f > 0 \<or> ack_ECT1 f > 0 \<or> ack_ECNCE f > 0)"

definition numRanges :: "AckFrame \<Rightarrow> nat" where
  "numRanges f = min (length (ack_AckRanges f)) MaxNumAckRanges"

text \<open>The loop over the ranges \<open>i, i + 1, ...\<close>, \<open>n\<close> of them.\<close>

fun append_ranges :: "AckFrame \<Rightarrow> nat \<Rightarrow> nat \<Rightarrow> bytes \<Rightarrow> pack_error + bytes" where
  "append_ranges f i 0 b = Inr b"
| "append_ranges f i (Suc n) b =
     rbind (encodeAckRange f i) (\<lambda>(gap, len).
     rbind (varint (Append b gap)) (\<lambda>b.
     rbind (varint (Append b len)) (append_ranges f (Suc i) n)))"

definition AckFrame_type :: "AckFrame \<Rightarrow> FrameType" where
  "AckFrame_type f = (if hasECN f then FrameTypeAckECN else FrameTypeAck)"

definition AckFrame_Append :: "AckFrame \<Rightarrow> bytes \<Rightarrow> pack_error + bytes" where
  "AckFrame_Append f b =
     (let b = b @ [ucast (AckFrame_type f)] in
      rbind (LargestAcked f) (\<lambda>largest.
      rbind (varint (Append b (uint64 largest))) (\<lambda>b.
      rbind (varint (Append b (encodeAckDelay (ack_DelayTime f)))) (\<lambda>b.
      rbind (varint (Append b (uint64 (int (numRanges f) - 1)))) (\<lambda>b.
      rbind (encodeAckRange f 0) (\<lambda>(_, firstRange).
      rbind (varint (Append b firstRange)) (\<lambda>b.
      rbind (append_ranges f 1 (numRanges f - 1) b) (\<lambda>b.
      if hasECN f then
        rbind (varint (Append b (ack_ECT0 f))) (\<lambda>b.
        rbind (varint (Append b (ack_ECT1 f))) (\<lambda>b.
        varint (Append b (ack_ECNCE f))))
      else Inr b))))))))"

fun ranges_length :: "AckFrame \<Rightarrow> nat \<Rightarrow> nat \<Rightarrow> nat \<Rightarrow> pack_error + nat" where
  "ranges_length f i 0 len = Inr len"
| "ranges_length f i (Suc n) len =
     rbind (encodeAckRange f i) (\<lambda>(gap, l).
     rbind (varint (Len gap)) (\<lambda>l1. rbind (varint (Len l)) (\<lambda>l2. ranges_length f (Suc i) n (len + l1 + l2))))"

definition ecn_length :: "AckFrame \<Rightarrow> pack_error + nat" where
  "ecn_length f =
     (if hasECN f then
        rbind (varint (Len (ack_ECT0 f))) (\<lambda>l0.
        rbind (varint (Len (ack_ECT1 f))) (\<lambda>l1.
        rbind (varint (Len (ack_ECNCE f))) (\<lambda>l2. Inr (l0 + l1 + l2))))
      else Inr 0)"

definition AckFrame_Length :: "AckFrame \<Rightarrow> pack_error + ByteCount" where
  "AckFrame_Length f =
     rbind (at PackPanic (ack_AckRanges f) 0) (\<lambda>r0.
     let largestAcked = ar_Largest r0 in
     rbind (varint (Len (uint64 largestAcked))) (\<lambda>l1.
     rbind (varint (Len (encodeAckDelay (ack_DelayTime f)))) (\<lambda>l2.
     rbind (varint (Len (uint64 (largestAcked - ar_Smallest r0)))) (\<lambda>l3.
     rbind (ranges_length f 1 (numRanges f - 1) (1 + l1 + l2 + 1 + l3)) (\<lambda>len.
     rbind (ecn_length f) (\<lambda>e. Inr (int (len + e))))))))"

fun ranges_that_fit :: "AckFrame \<Rightarrow> ByteCount \<Rightarrow> nat \<Rightarrow> nat \<Rightarrow> nat \<Rightarrow> pack_error + nat" where
  "ranges_that_fit f maxSize i 0 len = Inr i"
| "ranges_that_fit f maxSize i (Suc n) len =
     rbind (encodeAckRange f i) (\<lambda>(gap, l).
     rbind (varint (Len gap)) (\<lambda>l1. rbind (varint (Len l)) (\<lambda>l2.
     let rangeLen = l1 + l2 in
     if int (len + rangeLen) > maxSize then Inr i
     else ranges_that_fit f maxSize (Suc i) n (len + rangeLen))))"

definition numEncodableAckRanges :: "AckFrame \<Rightarrow> ByteCount \<Rightarrow> pack_error + nat" where
  "numEncodableAckRanges f maxSize =
     (let len = 1 + 8 + 8 + 1 + 8;
          len = (if hasECN f then len + 8 + 8 + 8 else len);
          len = len + 2 * 8 * (int (numRanges f) - 1) in
      if len \<le> maxSize then Inr (numRanges f)
      else
        rbind (LargestAcked f) (\<lambda>largest.
        rbind (varint (Len (uint64 largest))) (\<lambda>l1.
        rbind (varint (Len (encodeAckDelay (ack_DelayTime f)))) (\<lambda>l2.
        rbind (encodeAckRange f 0) (\<lambda>(_, firstRange).
        rbind (varint (Len firstRange)) (\<lambda>l3.
        rbind (ecn_length f) (\<lambda>e.
        if numRanges f = 0 then Inr 0
        else ranges_that_fit f maxSize 1 (numRanges f - 1) (1 + l1 + l2 + 1 + l3 + e))))))))"

definition Truncate :: "AckFrame \<Rightarrow> ByteCount \<Rightarrow> pack_error + AckFrame" where
  "Truncate f maxSize =
     rbind (numEncodableAckRanges f maxSize) (\<lambda>n.
     rbind (slice PackPanic (ack_AckRanges f) 0 n) (\<lambda>rs. Inr (f\<lparr>ack_AckRanges := rs\<rparr>)))"

definition AckFrame_Reset :: "AckFrame \<Rightarrow> AckFrame" where
  "AckFrame_Reset f = \<lparr>ack_AckRanges = [], ack_DelayTime = 0, ack_ECT0 = 0, ack_ECT1 = 0, ack_ECNCE = 0\<rparr>"

section \<open>Valid ranges\<close>

definition range_ok :: "AckRange \<Rightarrow> bool" where
  "range_ok r = (0 \<le> ar_Smallest r \<and> ar_Smallest r \<le> ar_Largest r \<and> ar_Largest r < 2 ^ 62)"

fun chain_ok :: "AckRange \<Rightarrow> AckRange list \<Rightarrow> bool" where
  "chain_ok p [] = True"
| "chain_ok p (r # rs) = (ar_Smallest p > ar_Largest r + 1 \<and> range_ok r \<and> chain_ok r rs)"

text \<open>The frames that \<open>Append\<close> can write: valid ranges of packet numbers, and a delay whose encoding fits.\<close>

definition ack_ok :: "AckFrame \<Rightarrow> bool" where
  "ack_ok f = (validateAckRanges (ack_AckRanges f) \<and> (\<forall>r\<in>set (ack_AckRanges f). range_ok r)
     \<and> 0 \<le> ack_DelayTime f \<and> ack_DelayTime f \<le> maxInt64
     \<and> word_ok (ack_ECT0 f) \<and> word_ok (ack_ECT1 f) \<and> word_ok (ack_ECNCE f))"

lemma ranges_descend_chain:
  "(\<forall>r\<in>set (p # rs). range_ok r) \<Longrightarrow> ranges_descend (p # rs) \<longleftrightarrow> chain_ok p rs"
  by (induction rs arbitrary: p) (auto simp: range_ok_def)

lemma validate_chain:
  assumes "\<forall>r\<in>set rs. range_ok r"
  shows "validateAckRanges rs \<longleftrightarrow> (\<exists>p qs. rs = p # qs \<and> chain_ok p qs)"
proof (cases rs)
  case (Cons p qs)
  have "\<not> (\<exists>r\<in>set rs. ar_Smallest r > ar_Largest r)" using assms by (force simp: range_ok_def)
  then show ?thesis using ranges_descend_chain [of p qs] assms Cons by (simp add: validateAckRanges_def)
qed (simp add: validateAckRanges_def)

lemma chain_ok_ranges: "chain_ok p rs \<Longrightarrow> r \<in> set rs \<Longrightarrow> range_ok r \<and> ar_Largest r < ar_Smallest p"
  by (induction rs arbitrary: p) (auto simp: range_ok_def, fastforce+)

lemma chain_ok_take: "chain_ok p rs \<Longrightarrow> chain_ok p (take n rs)"
  by (induction rs arbitrary: p n) (auto simp: take_Cons split: nat.splits)

lemma ack_ok_cases:
  assumes "ack_ok f"
  obtains p qs where "ack_AckRanges f = p # qs" "range_ok p" "chain_ok p qs"
  using assms validate_chain [of "ack_AckRanges f"] by (auto simp: ack_ok_def)

section \<open>The binary search\<close>

definition upward :: "(nat \<Rightarrow> bool) \<Rightarrow> nat \<Rightarrow> nat \<Rightarrow> bool" where
  "upward p i j = (\<forall>a b. i \<le> a \<longrightarrow> a \<le> b \<longrightarrow> b < j \<longrightarrow> p a \<longrightarrow> p b)"

text \<open>\<open>k\<close> is the first index of \<open>[i, j)\<close> with \<open>p\<close>, or \<open>j\<close>.\<close>

definition first_index :: "(nat \<Rightarrow> bool) \<Rightarrow> nat \<Rightarrow> nat \<Rightarrow> nat \<Rightarrow> bool" where
  "first_index p i j k = (i \<le> k \<and> k \<le> j \<and> (\<forall>n. i \<le> n \<longrightarrow> n < k \<longrightarrow> \<not> p n) \<and> (k < j \<longrightarrow> p k))"

lemma first_index_left: "first_index p i h k \<Longrightarrow> p h \<Longrightarrow> h \<le> j \<Longrightarrow> first_index p i j k"
  unfolding first_index_def by (metis le_less order_trans)

lemma first_index_right:
  assumes "first_index p (Suc h) j k" "upward p i j" "i \<le> h" "h < j" "\<not> p h"
  shows "first_index p i j k"
proof -
  have "\<not> p n" if "i \<le> n" "n < k" for n
  proof (cases "n \<le> h")
    case True
    then show ?thesis using assms that unfolding upward_def by blast
  qed (use assms(1) that in \<open>simp add: first_index_def\<close>)
  then show ?thesis using assms(1,3) by (simp add: first_index_def)
qed

lemma sort_Search_loop_spec: "upward p i j \<Longrightarrow> i \<le> j \<Longrightarrow> first_index p i j (sort_Search_loop p i j)"
proof (induction p i j rule: sort_Search_loop.induct)
  case (1 p i j)
  show ?case
  proof (cases "i < j")
    case False
    then have "sort_Search_loop p i j = i" by (subst sort_Search_loop.simps) simp
    then show ?thesis using False 1(4) by (simp add: first_index_def)
  next
    case True
    define h where "h = (i + j) div 2"
    have h: "i \<le> h" "h < j" using True by (auto simp: h_def)
    show ?thesis
    proof (cases "p h")
      case yes: True
      have "sort_Search_loop p i j = sort_Search_loop p i h"
        using yes True by (subst sort_Search_loop.simps) (simp add: h_def)
      moreover have "upward p i h" using 1(3) h unfolding upward_def by (meson less_trans)
      then have "first_index p i h (sort_Search_loop p i h)"
        using 1(2) [OF True h_def] yes h by blast
      ultimately show ?thesis using first_index_left yes h by simp
    next
      case no: False
      have "sort_Search_loop p i j = sort_Search_loop p (Suc h) j"
        using no True by (subst sort_Search_loop.simps) (simp add: h_def)
      moreover have "upward p (Suc h) j" using 1(3) h unfolding upward_def by (meson Suc_leD order_trans)
      then have "first_index p (Suc h) j (sort_Search_loop p (Suc h) j)"
        using 1(1) [OF True h_def] no h by simp
      ultimately show ?thesis using first_index_right 1(3) h no by simp
    qed
  qed
qed

lemma chain_sorted:
  assumes "chain_ok p qs" "range_ok p" "i \<le> j" "j < length (p # qs)"
  shows "ar_Smallest ((p # qs) ! j) \<le> ar_Smallest ((p # qs) ! i) \<and> (i < j \<longrightarrow> ar_Largest ((p # qs) ! j) < ar_Smallest ((p # qs) ! i))"
  using assms
proof (induction qs arbitrary: p i j)
  case (Cons q qs)
  show ?case
  proof (cases i)
    case 0
    show ?thesis
    proof (cases j)
      case (Suc j')
      then have "(p # q # qs) ! j \<in> set (q # qs)" using Cons.prems(4) by (simp add: nth_mem del: set_simps)
      then have "range_ok ((p # q # qs) ! j) \<and> ar_Largest ((p # q # qs) ! j) < ar_Smallest p"
        using chain_ok_ranges [OF Cons.prems(1)] by blast
      then show ?thesis using 0 by (auto simp: range_ok_def)
    qed (use 0 in simp)
  next
    case (Suc i')
    then obtain j' where "j = Suc j'" using Cons.prems(3) by (cases j) auto
    then show ?thesis using Cons.IH [of q i' j'] Cons.prems Suc by simp
  qed
qed simp

lemma AcksPacket_search:
  assumes R: "chain_ok p0 qs" "range_ok p0" and p: "ar_Smallest (last (p0 # qs)) \<le> p"
  defines "R \<equiv> p0 # qs"
  shows "\<exists>i<length R. sort_Search (length R) (\<lambda>i. p \<ge> ar_Smallest (R ! i)) = i
    \<and> (p \<le> ar_Largest (R ! i) \<longleftrightarrow> (\<exists>r\<in>set R. ar_Smallest r \<le> p \<and> p \<le> ar_Largest r))"
proof -
  let ?P = "\<lambda>i. p \<ge> ar_Smallest (R ! i)"
  define i where "i = sort_Search (length R) ?P"
  have sorted: "ar_Smallest (R ! b) \<le> ar_Smallest (R ! a) \<and> (a < b \<longrightarrow> ar_Largest (R ! b) < ar_Smallest (R ! a))"
    if "a \<le> b" "b < length R" for a b
    using chain_sorted [OF R, of a b] that unfolding R_def by blast
  have "?P b" if "a \<le> b" "b < length R" "?P a" for a b using sorted [OF that(1,2)] that(3) by linarith
  then have "upward ?P 0 (length R)" unfolding upward_def by blast
  then have i: "first_index ?P 0 (length R) i"
    using sort_Search_loop_spec [of ?P 0 "length R"] by (simp add: i_def sort_Search_def)
  have last: "R ! (length R - 1) = last R" by (simp add: R_def last_conv_nth)
  have "?P (length R - 1)" using p unfolding last by (simp only: R_def)
  then have "\<not> length R - 1 < i" using i unfolding first_index_def by blast
  then have lt: "i < length R" by (simp add: R_def)
  then have Si: "ar_Smallest (R ! i) \<le> p" using i by (simp add: first_index_def)
  have "p \<le> ar_Largest (R ! i)" if r: "r \<in> set R" "ar_Smallest r \<le> p" "p \<le> ar_Largest r" for r
  proof -
    obtain k where k: "k < length R" "r = R ! k" using r(1) unfolding in_set_conv_nth by blast
    have "\<not> k < i" using i r(2) k(2) unfolding first_index_def by blast
    moreover have "\<not> i < k"
    proof
      assume "i < k"
      then have "ar_Largest (R ! k) < ar_Smallest (R ! i)" using sorted [OF _ k(1), of i] less_imp_le by blast
      then show False using r(3) Si unfolding k(2) by linarith
    qed
    ultimately have "i = k" by linarith
    then show ?thesis using k(2) r(3) by blast
  qed
  then have "p \<le> ar_Largest (R ! i) \<longleftrightarrow> (\<exists>r\<in>set R. ar_Smallest r \<le> p \<and> p \<le> ar_Largest r)"
    using Si nth_mem [OF lt] by blast
  then show ?thesis using lt i_def by blast
qed

section \<open>Encoded ranges\<close>

text \<open>The gap and length fields of the ranges that follow \<open>p\<close>.\<close>

fun range_fields :: "AckRange \<Rightarrow> AckRange list \<Rightarrow> (64 word \<times> 64 word) list" where
  "range_fields p [] = []"
| "range_fields p (r # rs) =
     (uint64 (ar_Smallest p - ar_Largest r - 2), uint64 (ar_Largest r - ar_Smallest r)) # range_fields r rs"

definition enc_fields :: "(64 word \<times> 64 word) list \<Rightarrow> bytes" where
  "enc_fields fs = concat (map (\<lambda>(g, l). venc g @ venc l) fs)"

lemma enc_fields_simps [simp]:
  "enc_fields [] = []" "enc_fields ((g, l) # fs) = venc g @ venc l @ enc_fields fs"
  by (simp_all add: enc_fields_def)

lemma range_gaps:
  assumes "range_ok p" "chain_ok p (r # rs)"
  shows "int64_ok (ar_Smallest p - ar_Largest r - 2)" "int64_ok (ar_Largest r - ar_Smallest r)"
  using assms by (auto simp: range_ok_def int64_ok_def)

lemma encodeAckRange_Suc:
  assumes "ack_AckRanges f = pre @ p # r # rs"
  shows "encodeAckRange f (Suc (length pre)) =
    Inr (uint64 (ar_Smallest p - ar_Largest r - 2), uint64 (ar_Largest r - ar_Smallest r))"
  by (simp add: encodeAckRange_def assms at_def nth_append)

lemma append_ranges_eq:
  assumes "ack_AckRanges f = pre @ p # rs" "range_ok p" "chain_ok p rs" "n \<le> length rs"
  shows "append_ranges f (Suc (length pre)) n b = Inr (b @ enc_fields (range_fields p (take n rs)))"
  using assms
proof (induction n arbitrary: pre p rs b)
  case (Suc n)
  then obtain r rs' where rs: "rs = r # rs'" by (cases rs) auto
  note ok = range_gaps [OF Suc.prems(2), of r rs'] Suc.prems(3)
  have "append_ranges f (Suc (length (pre @ [p]))) n b' = Inr (b' @ enc_fields (range_fields r (take n rs')))" for b'
    by (rule Suc.IH) (use Suc.prems rs in auto)
  then show ?case
    using ok rs encodeAckRange_Suc [of f pre p r rs'] Suc.prems(1) by (simp add: codec_simps del: of_int_diff)
qed simp

lemma ranges_length_eq:
  assumes "ack_AckRanges f = pre @ p # rs" "range_ok p" "chain_ok p rs" "n \<le> length rs"
  shows "ranges_length f (Suc (length pre)) n len = Inr (len + length (enc_fields (range_fields p (take n rs))))"
  using assms
proof (induction n arbitrary: pre p rs len)
  case (Suc n)
  then obtain r rs' where rs: "rs = r # rs'" by (cases rs) auto
  note ok = range_gaps [OF Suc.prems(2), of r rs'] Suc.prems(3)
  have "ranges_length f (Suc (length (pre @ [p]))) n len' =
      Inr (len' + length (enc_fields (range_fields r (take n rs'))))" for len'
    by (rule Suc.IH) (use Suc.prems rs in auto)
  then show ?case
    using ok rs encodeAckRange_Suc [of f pre p r rs'] Suc.prems(1) by (simp add: codec_simps add.assoc del: of_int_diff)
qed simp

lemma ranges_that_fit_eq:
  assumes "ack_AckRanges f = pre @ p # rs" "range_ok p" "chain_ok p rs" "n \<le> length rs" "int len \<le> maxSize"
  shows "\<exists>k\<le>n. ranges_that_fit f maxSize (Suc (length pre)) n len = Inr (Suc (length pre) + k)
    \<and> int (len + length (enc_fields (range_fields p (take k rs)))) \<le> maxSize
    \<and> (k < n \<longrightarrow> int (len + length (enc_fields (range_fields p (take (Suc k) rs)))) > maxSize)"
  using assms
proof (induction n arbitrary: pre p rs len)
  case (Suc n)
  then obtain r rs' where rs: "rs = r # rs'" by (cases rs) auto
  note ok = range_gaps [OF Suc.prems(2), of r rs'] Suc.prems(3)
  let ?g = "uint64 (ar_Smallest p - ar_Largest r - 2)" and ?l = "uint64 (ar_Largest r - ar_Smallest r)"
  let ?len = "len + (length (venc ?g) + length (venc ?l))"
  show ?case
  proof (cases "int ?len > maxSize")
    case True
    then show ?thesis
      using ok rs encodeAckRange_Suc [of f pre p r rs'] Suc.prems(1,5)
      by (intro exI [of _ 0]) (simp add: codec_simps Let_def del: of_int_diff)
  next
    case False
    obtain k where k: "k \<le> n" "ranges_that_fit f maxSize (Suc (length (pre @ [p]))) n ?len = Inr (Suc (length (pre @ [p])) + k)"
      "int (?len + length (enc_fields (range_fields r (take k rs')))) \<le> maxSize"
      "k < n \<longrightarrow> int (?len + length (enc_fields (range_fields r (take (Suc k) rs')))) > maxSize"
      using Suc.IH [of "pre @ [p]" r rs' ?len] Suc.prems rs False by auto
    then show ?thesis
      using ok rs encodeAckRange_Suc [of f pre p r rs'] Suc.prems(1) False
      by (intro exI [of _ "Suc k"]) (simp add: codec_simps Let_def add.assoc del: of_int_diff)
  qed
qed simp

lemma parse_ranges_eq:
  assumes "range_ok p" "chain_ok p rs"
  shows "parse_ranges (length rs) (ar_Smallest p) (enc_fields (range_fields p rs) @ rest) acc = Inr (acc @ rs, rest)"
  using assms
proof (induction rs arbitrary: p acc)
  case (Cons r rs)
  note ok = range_gaps [OF Cons.prems]
  have r: "range_ok r" "chain_ok r rs" using Cons.prems by auto
  have "\<not> ar_Smallest p < ar_Smallest p - ar_Largest r - 2 + 2" using r by (simp add: range_ok_def)
  moreover have "\<not> ar_Largest r - ar_Smallest r > ar_Largest r" using r by (simp add: range_ok_def)
  ultimately show ?case
    using ok Cons.IH [OF r] by (simp add: codec_simps Let_def del: of_int_diff)
qed simp

section \<open>The whole frame\<close>

definition ecn_bytes :: "AckFrame \<Rightarrow> bytes" where
  "ecn_bytes f = (if hasECN f then venc (ack_ECT0 f) @ venc (ack_ECT1 f) @ venc (ack_ECNCE f) else [])"

definition ack_head :: "AckFrame \<Rightarrow> AckRange \<Rightarrow> nat \<Rightarrow> bytes" where
  "ack_head f p n = venc (uint64 (ar_Largest p)) @ venc (encodeAckDelay (ack_DelayTime f)) @ venc (word_of_nat n)
     @ venc (uint64 (ar_Largest p - ar_Smallest p))"

lemma delay_ok:
  assumes "0 \<le> d" "d \<le> maxInt64"
  shows "word_ok (encodeAckDelay d)"
proof -
  have "0 \<le> d div 8000" "d div 8000 < 2 ^ 62" using assms(1) zdiv_mono1 [OF assms(2), of 8000] by simp_all
  then have "int64_ok (go_div d 8000)" using assms(1) by (simp add: go_div_def int64_ok_def)
  then show ?thesis by (simp add: encodeAckDelay_def)
qed

lemma delay_roundtrip:
  assumes "0 \<le> d" "d \<le> maxInt64" "d mod 8000 = 0"
  shows "ack_delay AckDelayExponent (encodeAckDelay d) = d"
proof -
  have d: "go_div d 8000 * 8000 = d" using assms div_mult_mod_eq [of d 8000] by (simp add: go_div_def)
  have "push_bit AckDelayExponent (encodeAckDelay d * 1) * 1000 = uint64 (go_div d 8000 * 8000)"
    by (simp add: push_bit_eq_mult encodeAckDelay_def)
  then have "sint (push_bit AckDelayExponent (encodeAckDelay d * 1) * 1000) = d"
    using assms d by (simp add: signed_of_int signed_take_bit_int_eq_self)
  then show ?thesis using assms(1) by (simp only: ack_delay_def Let_def) simp
qed

lemma ack_fields:
  assumes "ack_ok f" "ack_AckRanges f = p # qs"
  shows "int64_ok (ar_Largest p)" "int64_ok (ar_Largest p - ar_Smallest p)" "word_ok (encodeAckDelay (ack_DelayTime f))"
    "word_ok (ack_ECT0 f)" "word_ok (ack_ECT1 f)" "word_ok (ack_ECNCE f)" "range_ok p" "chain_ok p qs"
proof -
  show "range_ok p" "chain_ok p qs" using ack_ok_cases [OF assms(1)] assms(2) by auto
  then show "int64_ok (ar_Largest p)" "int64_ok (ar_Largest p - ar_Smallest p)"
    by (auto simp: range_ok_def int64_ok_def)
qed (use assms delay_ok in \<open>auto simp: ack_ok_def\<close>)

lemma AckFrame_Append_eq:
  assumes "ack_ok f" "ack_AckRanges f = p # qs"
  shows "AckFrame_Append f b = Inr (b @ venc (AckFrame_type f) @ ack_head f p (numRanges f - 1)
    @ enc_fields (range_fields p (take (numRanges f - 1) qs)) @ ecn_bytes f)"
proof -
  note ok = ack_fields [OF assms]
  have n: "numRanges f - 1 \<le> length qs" "0 < numRanges f" "numRanges f \<le> 64" by (auto simp: numRanges_def assms(2))
  have cnt: "uint64 (int (numRanges f) - 1) = word_of_nat (numRanges f - 1)" using n(2)
    by (metis Suc_leI int_ops(2) of_int_of_nat_eq of_nat_diff One_nat_def)
  have "word_ok (word_of_nat (numRanges f - 1))" using n(3) by simp
  then have w: "word_ok (word_of_nat (numRanges f) - 1)" using n(2) by (simp add: of_nat_diff Suc_leI)
  have "append_ranges f 1 (numRanges f - 1) b' = Inr (b' @ enc_fields (range_fields p (take (numRanges f - 1) qs)))" for b'
    using append_ranges_eq [of f "[]" p qs] assms(2) ok(7,8) n by simp
  then show ?thesis
    using ok n w unfolding AckFrame_Append_def cnt
    by (simp add: LargestAcked_def encodeAckRange_def assms(2) at_def codec_simps ack_head_def ecn_bytes_def
        AckFrame_type_def venc_type del: of_int_diff)
qed

lemma ecn_length_eq: "ack_ok f \<Longrightarrow> ecn_length f = Inr (length (ecn_bytes f))"
  by (auto simp: ecn_length_def ecn_bytes_def ack_ok_def codec_simps)

lemma AckFrame_Length_eq:
  assumes "ack_ok f" "ack_AckRanges f = p # qs"
  shows "AckFrame_Length f = Inr (int (1 + length (ack_head f p 0)
    + length (enc_fields (range_fields p (take (numRanges f - 1) qs))) + length (ecn_bytes f)))"
proof -
  note ok = ack_fields [OF assms]
  have n: "numRanges f - 1 \<le> length qs" by (auto simp: numRanges_def assms(2))
  have "ranges_length f 1 (numRanges f - 1) l = Inr (l + length (enc_fields (range_fields p (take (numRanges f - 1) qs))))" for l
    using ranges_length_eq [of f "[]" p qs] assms(2) ok(7,8) n by simp
  then show ?thesis
    using ok ecn_length_eq [OF assms(1)] unfolding AckFrame_Length_def
    by (simp add: assms(2) at_def codec_simps ack_head_def Let_def venc_length_type del: of_int_diff)
qed

text \<open>The range count takes one byte, since there are at most 64 ranges.\<close>

lemma ack_head_length: "n < 64 \<Longrightarrow> length (ack_head f p n) = length (ack_head f p 0)"
  by (simp add: ack_head_def venc_length_type word_less_nat_alt unat_of_nat)

definition ack_codec_ok :: "AckFrame \<Rightarrow> bool" where
  "ack_codec_ok f = (ack_ok f \<and> length (ack_AckRanges f) \<le> MaxNumAckRanges \<and> ack_DelayTime f mod 8000 = 0)"

lemma parseAckFrame_eq:
  assumes "ack_codec_ok f" "ack_AckRanges f = p # qs"
  shows "parseAckFrame AckDelayExponent (AckFrame_type f)
      (ack_head f p (length qs) @ enc_fields (range_fields p qs) @ ecn_bytes f @ rest)
    = Inr (f, length (ack_head f p (length qs) @ enc_fields (range_fields p qs) @ ecn_bytes f))"
proof -
  have ack: "ack_ok f" "length qs < 64" "ack_DelayTime f mod 8000 = 0"
    using assms by (auto simp: ack_codec_ok_def)
  note ok = ack_fields [OF ack(1) assms(2)]
  have valid: "validateAckRanges (ack_AckRanges f)" using ack(1) by (simp add: ack_ok_def)
  have d: "ack_delay AckDelayExponent (encodeAckDelay (ack_DelayTime f)) = ack_DelayTime f"
    using delay_roundtrip ack by (simp add: ack_ok_def)
  have first: "\<not> ar_Largest p < ar_Largest p - ar_Smallest p" "ar_Largest p - (ar_Largest p - ar_Smallest p) = ar_Smallest p"
    using ok(7) by (auto simp: range_ok_def)
  have n: "word_ok (word_of_nat (length qs))" "unat (word_of_nat (length qs) :: 64 word) = length qs"
    using ack(2) by simp_all
  have rngs: "parse_ranges (length qs) (ar_Smallest p) (enc_fields (range_fields p qs) @ r) [\<lparr>ar_Smallest = ar_Smallest p, ar_Largest = ar_Largest p\<rparr>]
      = Inr (p # qs, r)" for r
    using parse_ranges_eq [OF ok(7,8), of r "[\<lparr>ar_Smallest = ar_Smallest p, ar_Largest = ar_Largest p\<rparr>]"] by simp
  show ?thesis
  proof (cases "hasECN f")
    case True
    then show ?thesis
      using ok n unfolding parseAckFrame_def ack_head_def ecn_bytes_def
      by (simp add: codec_simps Let_def first rngs valid d AckFrame_type_def assms(2) [symmetric] del: of_int_diff)
  next
    case False
    then have "ack_ECT0 f = 0" "ack_ECT1 f = 0" "ack_ECNCE f = 0" by (auto simp: hasECN_def word_gt_0)
    then show ?thesis
      using ok n False unfolding parseAckFrame_def ack_head_def ecn_bytes_def
      by (simp add: codec_simps Let_def first rngs valid d AckFrame_type_def assms(2) [symmetric] del: of_int_diff)
  qed
qed

interpretation ack: frame_codec AckFrame_Append AckFrame_Length "parseAckFrame AckDelayExponent" AckFrame_type
  ack_codec_ok
proof (unfold_locales, goal_cases)
  case (2 f)
  then have ok: "ack_ok f" by (simp add: ack_codec_ok_def)
  then obtain p qs where f: "ack_AckRanges f = p # qs" using ack_ok_cases by metis
  have n: "numRanges f - 1 = length qs" "length qs < 64" using 2 f by (auto simp: ack_codec_ok_def numRanges_def)
  have "length (venc (AckFrame_type f)) = 1" by (simp add: AckFrame_type_def venc_type)
  then show ?case
    using AckFrame_Append_eq [OF ok f] AckFrame_Length_eq [OF ok f] parseAckFrame_eq [OF 2 f] n
      ack_head_length [OF n(2), of f p]
    by (intro exI [of _ "ack_head f p (length qs) @ enc_fields (range_fields p qs) @ ecn_bytes f"]) simp
qed (simp add: AckFrame_type_def)

text \<open>The frame with its first \<open>n\<close> ranges: what \<open>Truncate\<close> leaves.\<close>

abbreviation first_ranges :: "AckFrame \<Rightarrow> nat \<Rightarrow> AckFrame" where
  "first_ranges f n \<equiv> f\<lparr>ack_AckRanges := take n (ack_AckRanges f)\<rparr>"

lemma first_ranges_ok:
  assumes "ack_ok f" "0 < n"
  shows "ack_ok (first_ranges f n)"
proof -
  obtain p qs where f: "ack_AckRanges f = p # qs" "range_ok p" "chain_ok p qs"
    using ack_ok_cases [OF assms(1)] by metis
  have t: "take n (ack_AckRanges f) = p # take (n - 1) qs" using assms(2) f(1) by (cases n) auto
  have r: "\<forall>r\<in>set (p # take (n - 1) qs). range_ok r"
    using f chain_ok_ranges [OF f(3)] by (auto dest: in_set_takeD)
  then have "validateAckRanges (p # take (n - 1) qs)" using validate_chain [OF r] chain_ok_take [OF f(3)] by blast
  then show ?thesis using assms(1) r unfolding ack_ok_def by (simp add: t)
qed

lemma first_ranges_Length:
  assumes "ack_ok f" "ack_AckRanges f = p # qs" "0 < n" "n \<le> numRanges f"
  shows "AckFrame_Length (first_ranges f n) = Inr (int (1 + length (ack_head f p 0)
    + length (enc_fields (range_fields p (take (n - 1) qs))) + length (ecn_bytes f)))"
proof -
  have t: "ack_AckRanges (first_ranges f n) = p # take (n - 1) qs" using assms(2,3) by (cases n) auto
  have "numRanges (first_ranges f n) = n" using assms(2-4) by (auto simp: numRanges_def)
  then show ?thesis using AckFrame_Length_eq [OF first_ranges_ok [OF assms(1,3)] t]
    by (simp add: ack_head_def ecn_bytes_def hasECN_def)
qed

text \<open>The upper bound that lets \<open>Truncate\<close> skip the counting.\<close>

lemma venc_le_8: "length (venc i) \<le> 8"
  by (simp add: venc_def Append_def)

lemma enc_fields_le: "length (enc_fields (range_fields p rs)) \<le> 16 * length rs"
proof (induction rs arbitrary: p)
  case (Cons r rs)
  show ?case using Cons.IH [of r] venc_le_8 [of "uint64 (ar_Smallest p - ar_Largest r - 2)"]
      venc_le_8 [of "uint64 (ar_Largest r - ar_Smallest r)"] by (simp del: of_int_diff)
qed simp

lemma ack_size_le:
  "1 + length (ack_head f p 0) + length (enc_fields (range_fields p rs)) + length (ecn_bytes f)
    \<le> 26 + 16 * length rs + (if hasECN f then 24 else 0)"
  using venc_le_8 [of "uint64 (ar_Largest p)"] venc_le_8 [of "encodeAckDelay (ack_DelayTime f)"]
    venc_le_8 [of "uint64 (ar_Largest p - ar_Smallest p)"] enc_fields_le [of p rs]
    venc_le_8 [of "ack_ECT0 f"] venc_le_8 [of "ack_ECT1 f"] venc_le_8 [of "ack_ECNCE f"]
  by (simp add: ack_head_def ecn_bytes_def venc_type del: of_int_diff)

lemma numEncodableAckRanges_spec:
  assumes "ack_ok f" "ack_AckRanges f = p # qs"
    "int (1 + length (ack_head f p 0) + length (ecn_bytes f)) \<le> maxSize"
  defines "sz k \<equiv> int (1 + length (ack_head f p 0) + length (enc_fields (range_fields p (take k qs))) + length (ecn_bytes f))"
  shows "\<exists>k<numRanges f. numEncodableAckRanges f maxSize = Inr (Suc k) \<and> sz k \<le> maxSize
    \<and> (Suc k < numRanges f \<longrightarrow> sz (Suc k) > maxSize)"
proof -
  note ok = ack_fields [OF assms(1,2)]
  have n: "numRanges f - 1 \<le> length qs" "0 < numRanges f" by (auto simp: numRanges_def assms(2))
  let ?bound = "1 + 8 + 8 + 1 + 8 + (if hasECN f then 24 else 0) + 2 * 8 * (int (numRanges f) - 1)"
  show ?thesis
  proof (cases "?bound \<le> maxSize")
    case True
    have "sz (numRanges f - 1) \<le> ?bound"
      using ack_size_le [of f p "take (numRanges f - 1) qs"] n by (simp add: sz_def min_def split: if_splits)
    then show ?thesis using True n
      by (intro exI [of _ "numRanges f - 1"]) (auto simp: numEncodableAckRanges_def Let_def split: if_splits)
  next
    case False
    obtain k where k: "k \<le> numRanges f - 1"
      "ranges_that_fit f maxSize 1 (numRanges f - 1) (1 + length (ack_head f p 0) + length (ecn_bytes f)) = Inr (Suc k)"
      "sz k \<le> maxSize" "k < numRanges f - 1 \<longrightarrow> sz (Suc k) > maxSize"
      using ranges_that_fit_eq [of f "[]" p qs "numRanges f - 1" "1 + length (ack_head f p 0) + length (ecn_bytes f)" maxSize]
        ok(7,8) n assms(2,3) by (auto simp: sz_def algebra_simps)
    have head: "length (ack_head f p 0) = Suc (length (venc (uint64 (ar_Largest p)))
        + length (venc (encodeAckDelay (ack_DelayTime f))) + length (venc (uint64 (ar_Largest p - ar_Smallest p))))"
      by (simp add: ack_head_def venc_type del: of_int_diff)
    have "numEncodableAckRanges f maxSize = Inr (Suc k)"
      using False k(2) ok n ecn_length_eq [OF assms(1)] unfolding numEncodableAckRanges_def Let_def LargestAcked_def
        encodeAckRange_def assms(2)
      by (simp add: at_def codec_simps head split: if_splits del: of_int_diff)
    then show ?thesis using k n by (intro exI [of _ k]) auto
  qed
qed

lemma AcksPacket_member:
  assumes "ack_ok f"
  shows "AcksPacket f p = Inr (\<exists>r\<in>set (ack_AckRanges f). ar_Smallest r \<le> p \<and> p \<le> ar_Largest r)"
proof -
  obtain p0 qs where f: "ack_AckRanges f = p0 # qs" "range_ok p0" "chain_ok p0 qs"
    using ack_ok_cases [OF assms] by metis
  let ?R = "p0 # qs"
  have low: "LowestAcked f = Inr (ar_Smallest (last ?R))"
    unfolding LowestAcked_def f(1) at_def by (simp add: last_conv_nth del: last.simps)
  have large: "LargestAcked f = Inr (ar_Largest p0)" by (simp add: LargestAcked_def f(1) at_def)
  have lowest: "ar_Smallest (last ?R) \<le> ar_Smallest r \<and> ar_Largest r \<le> ar_Largest p0" if r: "r \<in> set ?R" for r
  proof -
    obtain k where k: "k < length ?R" "r = ?R ! k" using r unfolding in_set_conv_nth by blast
    have "last ?R = ?R ! (length ?R - 1)" by (simp add: last_conv_nth)
    then have "ar_Smallest (last ?R) \<le> ar_Smallest r"
      using chain_sorted [OF f(3,2), of k "length ?R - 1"] k by simp
    moreover have "ar_Largest r \<le> ar_Largest p0"
      using chain_ok_ranges [OF f(3), of r] r f(2) by (auto simp: range_ok_def)
    ultimately show ?thesis by simp
  qed
  consider "p < ar_Smallest (last ?R)" | "ar_Smallest (last ?R) \<le> p" "p > ar_Largest p0"
    | "ar_Smallest (last ?R) \<le> p" "p \<le> ar_Largest p0" by linarith
  then show ?thesis
  proof cases
    case 1
    have "\<not> (ar_Smallest r \<le> p \<and> p \<le> ar_Largest r)" if "r \<in> set ?R" for r
      using lowest [OF that] 1 by linarith
    then show ?thesis unfolding AcksPacket_def low using 1 f(1) by simp
  next
    case 2
    have "\<not> (ar_Smallest r \<le> p \<and> p \<le> ar_Largest r)" if "r \<in> set ?R" for r
      using lowest [OF that] 2 by linarith
    then show ?thesis unfolding AcksPacket_def low large using 2 f(1) by (simp del: last.simps)
  next
    case 3
    obtain i where i: "i < length ?R" "sort_Search (length ?R) (\<lambda>i. p \<ge> ar_Smallest (?R ! i)) = i"
      "p \<le> ar_Largest (?R ! i) \<longleftrightarrow> (\<exists>r\<in>set ?R. ar_Smallest r \<le> p \<and> p \<le> ar_Largest r)"
      using AcksPacket_search [OF f(3,2) 3(1)] by blast
    have "\<not> p < ar_Smallest (last ?R)" "(ar_Largest p0 < p) = False" using 3 by auto
    then show ?thesis unfolding AcksPacket_def low large using i
      by (simp only: f(1) at_def Let_def rbind_Inr if_True if_False)
  qed
qed

section \<open>Properties\<close>

text \<open>C35: The binary search of \<open>AcksPacket\<close> decides membership: for every frame with valid ranges and every packet
  number, \<open>AcksPacket\<close> answers without panicking, and its answer is whether some range of the frame contains
  the packet number.\<close>

theorem AcksPacket_correct:
  assumes "ack_ok f"
  shows "AcksPacket f p = Inr (\<exists>r\<in>set (ack_AckRanges f). ar_Smallest r \<le> p \<and> p \<le> ar_Largest r)"
  using assms by (rule AcksPacket_member)

theorem AcksPacket_correct_witness:
  "AcksPacket \<lparr>ack_AckRanges = [\<lparr>ar_Smallest = 7, ar_Largest = 9\<rparr>, \<lparr>ar_Smallest = 1, ar_Largest = 3\<rparr>], ack_DelayTime = 0,
     ack_ECT0 = 0, ack_ECT1 = 0, ack_ECNCE = 0\<rparr> 5 = Inr False"
  by (subst AcksPacket_correct) (simp_all add: ack_ok_def validateAckRanges_def range_ok_def word_ok_def)

text \<open>C36: \<open>Truncate\<close> cuts an ACK frame to the greatest size that fits. For every valid frame whose first range
  fits in \<open>maxSize\<close>, truncation returns the frame with its first \<open>n\<close> ranges, for some \<open>n\<close> between 1 and the
  number of encodable ranges; that frame's \<open>Length\<close> is at most \<open>maxSize\<close>, and unless all ranges are kept, the
  frame with one more range would be longer than \<open>maxSize\<close>.\<close>

theorem Truncate_maximal:
  assumes "ack_ok f" "AckFrame_Length (first_ranges f 1) = Inr l" "l \<le> maxSize"
  shows "\<exists>n\<ge>1. n \<le> numRanges f \<and> Truncate f maxSize = Inr (first_ranges f n)
    \<and> (\<exists>m. AckFrame_Length (first_ranges f n) = Inr m \<and> m \<le> maxSize)
    \<and> (n < numRanges f \<longrightarrow> (\<exists>m. AckFrame_Length (first_ranges f (n + 1)) = Inr m \<and> m > maxSize))"
proof -
  obtain p qs where f: "ack_AckRanges f = p # qs" using ack_ok_cases [OF assms(1)] by metis
  have r: "1 \<le> numRanges f" "numRanges f \<le> length (ack_AckRanges f)" by (auto simp: numRanges_def f)
  have "int (1 + length (ack_head f p 0) + length (ecn_bytes f)) \<le> maxSize"
    using first_ranges_Length [OF assms(1) f, of 1] assms(2,3) r by simp
  then obtain k where k: "k < numRanges f" "numEncodableAckRanges f maxSize = Inr (Suc k)"
    "int (1 + length (ack_head f p 0) + length (enc_fields (range_fields p (take k qs))) + length (ecn_bytes f)) \<le> maxSize"
    "Suc k < numRanges f \<longrightarrow>
      int (1 + length (ack_head f p 0) + length (enc_fields (range_fields p (take (Suc k) qs))) + length (ecn_bytes f)) > maxSize"
    using numEncodableAckRanges_spec [OF assms(1) f] by metis
  have "Truncate f maxSize = Inr (first_ranges f (Suc k))" using k(1,2) r by (simp add: Truncate_def slice_def)
  then show ?thesis
    using k first_ranges_Length [OF assms(1) f, of "Suc k"] first_ranges_Length [OF assms(1) f, of "Suc k + 1"]
    by (intro exI [of _ "Suc k"]) auto
qed

theorem Truncate_maximal_witness:
  "\<exists>n\<ge>1. Truncate \<lparr>ack_AckRanges = [\<lparr>ar_Smallest = 7, ar_Largest = 9\<rparr>, \<lparr>ar_Smallest = 1, ar_Largest = 3\<rparr>],
     ack_DelayTime = 0, ack_ECT0 = 0, ack_ECT1 = 0, ack_ECNCE = 0\<rparr> 6
   = Inr \<lparr>ack_AckRanges = take n [\<lparr>ar_Smallest = 7, ar_Largest = 9\<rparr>, \<lparr>ar_Smallest = 1, ar_Largest = 3\<rparr>],
     ack_DelayTime = 0, ack_ECT0 = 0, ack_ECT1 = 0, ack_ECNCE = 0\<rparr>"
proof -
  let ?f = "\<lparr>ack_AckRanges = [\<lparr>ar_Smallest = 7, ar_Largest = 9\<rparr>, \<lparr>ar_Smallest = 1, ar_Largest = 3\<rparr>],
     ack_DelayTime = 0, ack_ECT0 = 0, ack_ECT1 = 0, ack_ECNCE = 0\<rparr>"
  have ok: "ack_ok ?f" by (simp add: ack_ok_def validateAckRanges_def range_ok_def word_ok_def)
  have "AckFrame_Length (first_ranges ?f 1) = Inr 5"
    using first_ranges_Length [OF ok, of "\<lparr>ar_Smallest = 7, ar_Largest = 9\<rparr>" "[\<lparr>ar_Smallest = 1, ar_Largest = 3\<rparr>]" 1]
    by (simp add: numRanges_def ack_head_def encodeAckDelay_def go_div_def venc_type ecn_bytes_def hasECN_def)
  from Truncate_maximal [OF ok this, of 6] show ?thesis by auto
qed

text \<open>The guard on the ACK delay does not catch every overflow. A delay of \<open>2\<^sup>5\<^sup>8\<close> with the default exponent
  is far more than the largest \<open>time.Duration\<close>, but its 64-bit product wraps to 0, which the comparison with 0
  lets through: the frame is parsed with a delay of 0 instead of the maximal delay.\<close>

theorem ack_delay_wraps:
  "ack_delay 3 (2 ^ 58) = 0 \<and> uint (2 ^ 58 :: 64 word) * 2 ^ 3 * 1000 > maxInt64"
  by (simp add: ack_delay_def)

end
