(* ===== verification/Quic_Frame_Parser.thy ===== *)
theory Quic_Frame_Parser
  imports Quic_Stream_Frames Quic_Ack_Frame
begin

text \<open>
  The frame parser of \<open>quic/internal/wire\<close>: the predicates on frame types (\<open>frame_type.go\<close>,
  \<open>frame.go\<close>, and \<open>ackhandler/ack_eliciting.go\<close>), and \<open>FrameParser\<close> (\<open>frame_parser.go\<close>): \<open>ParseType\<close>, which
  skips padding and checks the type against what was negotiated and against the encryption level, and the
  parsing functions it dispatches to. The interface \<open>Frame\<close> is the datatype \<open>qframe\<close>, one constructor per
  frame type.

  \<open>FrameParser\<close> keeps one ACK frame that it resets before every use; what that frame held before does not
  reach any result, so it is not part of the state here. The frame theories' contract \<open>frame_codec\<close> is
  assembled into one contract for all frames, from which every written frame is shown to be typed and parsed
  back.
\<close>

section \<open>Frame types and encryption levels\<close>

type_synonym EncryptionLevel = "8 word"

abbreviation EncryptionInitial :: EncryptionLevel where "EncryptionInitial \<equiv> 1"
abbreviation EncryptionHandshake :: EncryptionLevel where "EncryptionHandshake \<equiv> 2"
abbreviation Encryption0RTT :: EncryptionLevel where "Encryption0RTT \<equiv> 3"
abbreviation Encryption1RTT :: EncryptionLevel where "Encryption1RTT \<equiv> 4"

abbreviation TypePing :: FrameType where "TypePing \<equiv> 0x1"
abbreviation TypeCrypto :: FrameType where "TypeCrypto \<equiv> 0x6"
abbreviation FrameTypeDatagramNoLength :: FrameType where "FrameTypeDatagramNoLength \<equiv> 0x30"
abbreviation FrameTypeDatagramWithLength :: FrameType where "FrameTypeDatagramWithLength \<equiv> 0x31"

abbreviation DefaultAckDelayExponent :: nat where "DefaultAckDelayExponent \<equiv> 3"

definition IsStreamFrameType :: "FrameType \<Rightarrow> bool" where
  "IsStreamFrameType t = (t \<ge> 0x8 \<and> t \<le> 0xf)"

definition isValidRFC9000 :: "FrameType \<Rightarrow> bool" where
  "isValidRFC9000 t = (t \<le> 0x1e)"

definition IsAckFrameType :: "FrameType \<Rightarrow> bool" where
  "IsAckFrameType t = (t = FrameTypeAck \<or> t = FrameTypeAckECN)"

definition IsDatagramFrameType :: "FrameType \<Rightarrow> bool" where
  "IsDatagramFrameType t = (t = FrameTypeDatagramNoLength \<or> t = FrameTypeDatagramWithLength)"

text \<open>An unknown encryption level panics, here \<open>None\<close>.\<close>

definition isAllowedAtEncLevel :: "FrameType \<Rightarrow> EncryptionLevel \<Rightarrow> bool option" where
  "isAllowedAtEncLevel t encLevel =
     (if encLevel = EncryptionInitial \<or> encLevel = EncryptionHandshake then
        Some (t \<in> {TypeCrypto, FrameTypeAck, FrameTypeAckECN, FrameTypeConnectionClose, TypePing})
      else if encLevel = Encryption0RTT then
        Some (t \<notin> {TypeCrypto, FrameTypeAck, FrameTypeAckECN, FrameTypeConnectionClose, FrameTypeNewToken,
          FrameTypePathResponse, FrameTypeRetireConnectionID})
      else if encLevel = Encryption1RTT then Some True
      else None)"

definition IsProbingFrameType :: "FrameType \<Rightarrow> bool" where
  "IsProbingFrameType t = (t \<in> {FrameTypePathChallenge, FrameTypePathResponse, FrameTypeNewConnectionID})"

definition IsFrameTypeAckEliciting :: "FrameType \<Rightarrow> bool" where
  "IsFrameTypeAckEliciting t =
     (if t \<in> {FrameTypeAck, FrameTypeAckECN} then False
      else if t \<in> {FrameTypeConnectionClose, FrameTypeApplicationClose} then False
      else True)"

section \<open>The interface of a frame\<close>

datatype qframe =
    QPing | QResetStream ResetStreamFrame | QStopSending StopSendingFrame | QCrypto CryptoFrame
  | QNewToken NewTokenFrame | QMaxData MaxDataFrame | QMaxStreamData MaxStreamDataFrame
  | QMaxStreams MaxStreamsFrame | QDataBlocked DataBlockedFrame | QStreamDataBlocked StreamDataBlockedFrame
  | QStreamsBlocked StreamsBlockedFrame | QNewConnectionID NewConnectionIDFrame
  | QRetireConnectionID RetireConnectionIDFrame | QPathChallenge PathChallengeFrame
  | QPathResponse PathResponseFrame | QConnectionClose ConnectionCloseFrame | QHandshakeDone
  | QAckFrequency AckFrequencyFrame | QImmediateAck
  | QStream StreamFrame | QAck AckFrame | QDatagram DatagramFrame

fun IsProbingFrame :: "qframe \<Rightarrow> bool" where
  "IsProbingFrame (QPathChallenge _) = True"
| "IsProbingFrame (QPathResponse _) = True"
| "IsProbingFrame (QNewConnectionID _) = True"
| "IsProbingFrame _ = False"

definition IsFrameAckEliciting :: "qframe \<Rightarrow> bool" where
  "IsFrameAckEliciting f =
     (let isAck = (case f of QAck _ \<Rightarrow> True | _ \<Rightarrow> False);
          isConnectionClose = (case f of QConnectionClose _ \<Rightarrow> True | _ \<Rightarrow> False) in
      \<not> isAck \<and> \<not> isConnectionClose)"

fun HasAckElicitingFrames :: "qframe list \<Rightarrow> bool" where
  "HasAckElicitingFrames [] = False"
| "HasAckElicitingFrames (f # fs) = (if IsFrameAckEliciting f then True else HasAckElicitingFrames fs)"

fun qframe_Append :: "qframe \<Rightarrow> bytes \<Rightarrow> pack_error + bytes" where
  "qframe_Append QPing b = PingFrame_Append b"
| "qframe_Append (QResetStream f) b = ResetStreamFrame_Append f b"
| "qframe_Append (QStopSending f) b = StopSendingFrame_Append f b"
| "qframe_Append (QCrypto f) b = CryptoFrame_Append f b"
| "qframe_Append (QNewToken f) b = NewTokenFrame_Append f b"
| "qframe_Append (QMaxData f) b = MaxDataFrame_Append f b"
| "qframe_Append (QMaxStreamData f) b = MaxStreamDataFrame_Append f b"
| "qframe_Append (QMaxStreams f) b = MaxStreamsFrame_Append f b"
| "qframe_Append (QDataBlocked f) b = DataBlockedFrame_Append f b"
| "qframe_Append (QStreamDataBlocked f) b = StreamDataBlockedFrame_Append f b"
| "qframe_Append (QStreamsBlocked f) b = StreamsBlockedFrame_Append f b"
| "qframe_Append (QNewConnectionID f) b = NewConnectionIDFrame_Append f b"
| "qframe_Append (QRetireConnectionID f) b = RetireConnectionIDFrame_Append f b"
| "qframe_Append (QPathChallenge f) b = PathChallengeFrame_Append f b"
| "qframe_Append (QPathResponse f) b = PathResponseFrame_Append f b"
| "qframe_Append (QConnectionClose f) b = ConnectionCloseFrame_Append f b"
| "qframe_Append QHandshakeDone b = HandshakeDoneFrame_Append () b"
| "qframe_Append (QAckFrequency f) b = AckFrequencyFrame_Append f b"
| "qframe_Append QImmediateAck b = ImmediateAckFrame_Append () b"
| "qframe_Append (QStream f) b = StreamFrame_Append f b"
| "qframe_Append (QAck f) b = AckFrame_Append f b"
| "qframe_Append (QDatagram f) b = DatagramFrame_Append f b"

fun qframe_Length :: "qframe \<Rightarrow> pack_error + ByteCount" where
  "qframe_Length QPing = Inr PingFrame_Length"
| "qframe_Length (QResetStream f) = ResetStreamFrame_Length f"
| "qframe_Length (QStopSending f) = StopSendingFrame_Length f"
| "qframe_Length (QCrypto f) = CryptoFrame_Length f"
| "qframe_Length (QNewToken f) = NewTokenFrame_Length f"
| "qframe_Length (QMaxData f) = MaxDataFrame_Length f"
| "qframe_Length (QMaxStreamData f) = MaxStreamDataFrame_Length f"
| "qframe_Length (QMaxStreams f) = MaxStreamsFrame_Length f"
| "qframe_Length (QDataBlocked f) = DataBlockedFrame_Length f"
| "qframe_Length (QStreamDataBlocked f) = StreamDataBlockedFrame_Length f"
| "qframe_Length (QStreamsBlocked f) = StreamsBlockedFrame_Length f"
| "qframe_Length (QNewConnectionID f) = NewConnectionIDFrame_Length f"
| "qframe_Length (QRetireConnectionID f) = RetireConnectionIDFrame_Length f"
| "qframe_Length (QPathChallenge f) = PathChallengeFrame_Length f"
| "qframe_Length (QPathResponse f) = PathResponseFrame_Length f"
| "qframe_Length (QConnectionClose f) = ConnectionCloseFrame_Length f"
| "qframe_Length QHandshakeDone = HandshakeDoneFrame_Length ()"
| "qframe_Length (QAckFrequency f) = AckFrequencyFrame_Length f"
| "qframe_Length QImmediateAck = ImmediateAckFrame_Length ()"
| "qframe_Length (QStream f) = StreamFrame_Length f"
| "qframe_Length (QAck f) = AckFrame_Length f"
| "qframe_Length (QDatagram f) = DatagramFrame_Length f"

section \<open>The parser\<close>

record FrameParser =
  fp_ackDelayExponent :: nat
  fp_supportsDatagrams :: bool
  fp_supportsResetStreamAt :: bool
  fp_supportsAckFrequency :: bool

definition NewFrameParser :: "bool \<Rightarrow> bool \<Rightarrow> bool \<Rightarrow> FrameParser" where
  "NewFrameParser supportsDatagrams supportsResetStreamAt supportsAckFrequency =
     \<lparr>fp_ackDelayExponent = 0, fp_supportsDatagrams = supportsDatagrams,
      fp_supportsResetStreamAt = supportsResetStreamAt, fp_supportsAckFrequency = supportsAckFrequency\<rparr>"

definition SetAckDelayExponent :: "FrameParser \<Rightarrow> nat \<Rightarrow> FrameParser" where
  "SetAckDelayExponent p exp = p\<lparr>fp_ackDelayExponent := exp\<rparr>"

text \<open>A \<open>TransportError\<close> with code \<open>FrameEncodingError\<close> carries the frame type and a message.\<close>

datatype frame_message =
    VarintMessage varint_failure | UnknownFrameType | NotAllowedAtLevel EncryptionLevel | BadFrame pack_error

datatype frame_failure =
    EndOfFrames | FrameEncodingError "64 word" frame_message | UnknownEncryptionLevel | ParserPanic pack_error

text \<open>A panic inside a frame's parser is not turned into an error.\<close>

definition transport_error :: "FrameType \<Rightarrow> pack_error \<Rightarrow> frame_failure" where
  "transport_error typ e =
     (case e of VarintPanic _ \<Rightarrow> ParserPanic e | PackPanic _ \<Rightarrow> ParserPanic e
      | _ \<Rightarrow> FrameEncodingError typ (BadFrame e))"

definition wrap :: "FrameType \<Rightarrow> ('a \<Rightarrow> qframe) \<Rightarrow> pack_error + ('a \<times> nat) \<Rightarrow> frame_failure + (qframe \<times> nat)" where
  "wrap typ mk m = (case m of Inl e \<Rightarrow> Inl (transport_error typ e) | Inr (f, l) \<Rightarrow> Inr (mk f, l))"

definition type_valid :: "FrameParser \<Rightarrow> FrameType \<Rightarrow> bool" where
  "type_valid p ft =
     (isValidRFC9000 ft \<or>
      (fp_supportsDatagrams p \<and> IsDatagramFrameType ft) \<or>
      (fp_supportsResetStreamAt p \<and> ft = FrameTypeResetStreamAt) \<or>
      (fp_supportsAckFrequency p \<and> (ft = FrameTypeAckFrequency \<or> ft = FrameTypeImmediateAck)))"

lemma Parse_length: "Parse b = Inr (v, l) \<Longrightarrow> 0 < l \<and> l \<le> length b"
proof (cases b)
  case Nil
  then show "Parse b = Inr (v, l) \<Longrightarrow> 0 < l \<and> l \<le> length b" by (simp add: Parse_def)
next
  case (Cons c cs)
  then show "Parse b = Inr (v, l) \<Longrightarrow> 0 < l \<and> l \<le> length b" by (auto simp: Parse_Cons Let_def split: if_splits)
qed

text \<open>The count of bytes parsed is returned with errors as well.\<close>

function ParseType_loop :: "FrameParser \<Rightarrow> EncryptionLevel \<Rightarrow> nat \<Rightarrow> bytes \<Rightarrow> (frame_failure + FrameType) \<times> nat" where
  "ParseType_loop p encLevel parsed b =
     (if b = [] then (Inl EndOfFrames, parsed)
      else case Parse b of
        Inl e \<Rightarrow> (Inl (FrameEncodingError 0 (VarintMessage e)), parsed)
      | Inr (typ, l) \<Rightarrow>
          let parsed = parsed + l; b = drop l b in
          if typ = 0x0 then ParseType_loop p encLevel parsed b
          else if \<not> type_valid p typ then (Inl (FrameEncodingError typ UnknownFrameType), parsed)
          else case isAllowedAtEncLevel typ encLevel of
              None \<Rightarrow> (Inl UnknownEncryptionLevel, parsed)
            | Some False \<Rightarrow> (Inl (FrameEncodingError typ (NotAllowedAtLevel encLevel)), parsed)
            | Some True \<Rightarrow> (Inr typ, parsed))"
  by pat_completeness auto
termination
  by (relation "measure (\<lambda>(p, encLevel, parsed, b). length b)") (auto dest: Parse_length)

declare ParseType_loop.simps [simp del]

definition ParseType :: "FrameParser \<Rightarrow> bytes \<Rightarrow> EncryptionLevel \<Rightarrow> (frame_failure + FrameType) \<times> nat" where
  "ParseType p b encLevel = ParseType_loop p encLevel 0 b"

definition FrameParser_ParseStreamFrame :: "FrameType \<Rightarrow> bytes \<Rightarrow> frame_failure + (qframe \<times> nat)" where
  "FrameParser_ParseStreamFrame frameType data = wrap frameType QStream (ParseStreamFrame frameType data)"

definition FrameParser_ParseAckFrame ::
  "FrameParser \<Rightarrow> FrameType \<Rightarrow> bytes \<Rightarrow> EncryptionLevel \<Rightarrow> frame_failure + (qframe \<times> nat)" where
  "FrameParser_ParseAckFrame p frameType data encLevel =
     (let ackDelayExponent = fp_ackDelayExponent p;
          ackDelayExponent = (if encLevel \<noteq> Encryption1RTT then DefaultAckDelayExponent else ackDelayExponent) in
      wrap frameType QAck (parseAckFrame ackDelayExponent frameType data))"

definition FrameParser_ParseDatagramFrame :: "FrameType \<Rightarrow> bytes \<Rightarrow> frame_failure + (qframe \<times> nat)" where
  "FrameParser_ParseDatagramFrame frameType data = wrap frameType QDatagram (parseDatagramFrame frameType data)"

definition ParseLessCommonFrame :: "FrameType \<Rightarrow> bytes \<Rightarrow> frame_failure + (qframe \<times> nat)" where
  "ParseLessCommonFrame frameType data =
     (if frameType = TypePing then Inr (QPing, 0)
      else if frameType = FrameTypeResetStream then wrap frameType QResetStream (parseResetStreamFrame False data)
      else if frameType = FrameTypeStopSending then wrap frameType QStopSending (parseStopSendingFrame data)
      else if frameType = TypeCrypto then wrap frameType QCrypto (parseCryptoFrame data)
      else if frameType = FrameTypeNewToken then wrap frameType QNewToken (parseNewTokenFrame data)
      else if frameType = FrameTypeMaxData then wrap frameType QMaxData (parseMaxDataFrame data)
      else if frameType = FrameTypeMaxStreamData then wrap frameType QMaxStreamData (parseMaxStreamDataFrame data)
      else if frameType = FrameTypeBidiMaxStreams \<or> frameType = FrameTypeUniMaxStreams then
        wrap frameType QMaxStreams (parseMaxStreamsFrame frameType data)
      else if frameType = FrameTypeDataBlocked then wrap frameType QDataBlocked (parseDataBlockedFrame data)
      else if frameType = FrameTypeStreamDataBlocked then
        wrap frameType QStreamDataBlocked (parseStreamDataBlockedFrame data)
      else if frameType = FrameTypeBidiStreamBlocked \<or> frameType = FrameTypeUniStreamBlocked then
        wrap frameType QStreamsBlocked (parseStreamsBlockedFrame frameType data)
      else if frameType = FrameTypeNewConnectionID then
        wrap frameType QNewConnectionID (parseNewConnectionIDFrame data)
      else if frameType = FrameTypeRetireConnectionID then
        wrap frameType QRetireConnectionID (parseRetireConnectionIDFrame data)
      else if frameType = FrameTypePathChallenge then wrap frameType QPathChallenge (parsePathChallengeFrame data)
      else if frameType = FrameTypePathResponse then wrap frameType QPathResponse (parsePathResponseFrame data)
      else if frameType = FrameTypeConnectionClose \<or> frameType = FrameTypeApplicationClose then
        wrap frameType QConnectionClose (parseConnectionCloseFrame frameType data)
      else if frameType = FrameTypeHandshakeDone then Inr (QHandshakeDone, 0)
      else if frameType = FrameTypeResetStreamAt then wrap frameType QResetStream (parseResetStreamFrame True data)
      else if frameType = FrameTypeAckFrequency then wrap frameType QAckFrequency (parseAckFrequencyFrame data)
      else if frameType = FrameTypeImmediateAck then Inr (QImmediateAck, 0)
      else Inl (FrameEncodingError frameType UnknownFrameType))"

text \<open>The choice between the parsing functions, as \<open>handleFrames\<close> makes it.\<close>

definition parse_frame :: "FrameParser \<Rightarrow> EncryptionLevel \<Rightarrow> FrameType \<Rightarrow> bytes \<Rightarrow> frame_failure + (qframe \<times> nat)" where
  "parse_frame p encLevel frameType data =
     (if IsStreamFrameType frameType then FrameParser_ParseStreamFrame frameType data
      else if IsAckFrameType frameType then FrameParser_ParseAckFrame p frameType data encLevel
      else if IsDatagramFrameType frameType then FrameParser_ParseDatagramFrame frameType data
      else ParseLessCommonFrame frameType data)"

section \<open>One contract for all frames\<close>

interpretation crypto: frame_codec CryptoFrame_Append CryptoFrame_Length "\<lambda>_. parseCryptoFrame" "\<lambda>_. TypeCrypto"
  crypto_ok
proof (unfold_locales, goal_cases)
  case (2 f)
  then have ok: "int64_ok (cf_Offset f)" "length (cf_Data f) < 2 ^ 62" by (auto simp: crypto_ok_def int64_ok_def)
  then have "word_of_nat (length (cf_Data f)) = (0 :: 64 word) \<longleftrightarrow> cf_Data f = []"
    using unat_len [OF ok(2)] by (simp add: word_unat_eq_iff)
  then show ?case using ok
    by (intro exI [of _ "venc (uint64 (cf_Offset f)) @ venc (word_of_nat (length (cf_Data f))) @ cf_Data f"])
      (simp add: CryptoFrame_Append_def CryptoFrame_Length_def parseCryptoFrame_def codec_simps venc_type Let_def)
qed simp

interpretation ping: frame_codec "\<lambda>_ :: unit. PingFrame_Append" "\<lambda>_. Inr PingFrame_Length" "\<lambda>_ _. Inr ((), 0)"
  "\<lambda>_. TypePing" "\<lambda>_. True"
  by unfold_locales (simp_all add: PingFrame_Append_def PingFrame_Length_def venc_type)

fun qframe_type :: "qframe \<Rightarrow> FrameType" where
  "qframe_type QPing = TypePing"
| "qframe_type (QResetStream f) = ResetStreamFrame_type f"
| "qframe_type (QStopSending f) = FrameTypeStopSending"
| "qframe_type (QCrypto f) = TypeCrypto"
| "qframe_type (QNewToken f) = FrameTypeNewToken"
| "qframe_type (QMaxData f) = FrameTypeMaxData"
| "qframe_type (QMaxStreamData f) = FrameTypeMaxStreamData"
| "qframe_type (QMaxStreams f) = MaxStreamsFrame_type f"
| "qframe_type (QDataBlocked f) = FrameTypeDataBlocked"
| "qframe_type (QStreamDataBlocked f) = FrameTypeStreamDataBlocked"
| "qframe_type (QStreamsBlocked f) = StreamsBlockedFrame_type f"
| "qframe_type (QNewConnectionID f) = FrameTypeNewConnectionID"
| "qframe_type (QRetireConnectionID f) = FrameTypeRetireConnectionID"
| "qframe_type (QPathChallenge f) = FrameTypePathChallenge"
| "qframe_type (QPathResponse f) = FrameTypePathResponse"
| "qframe_type (QConnectionClose f) = ConnectionCloseFrame_type f"
| "qframe_type QHandshakeDone = FrameTypeHandshakeDone"
| "qframe_type (QAckFrequency f) = FrameTypeAckFrequency"
| "qframe_type QImmediateAck = FrameTypeImmediateAck"
| "qframe_type (QStream f) = StreamFrame_type f"
| "qframe_type (QAck f) = AckFrame_type f"
| "qframe_type (QDatagram f) = DatagramFrame_type f"

text \<open>The frames every implementation can write: the conditions of the frame theories. A STREAM or DATAGRAM frame
  without a length field reaches to the end of its packet and is not part of the sequences below.\<close>

fun qframe_ok :: "qframe \<Rightarrow> bool" where
  "qframe_ok QPing = True"
| "qframe_ok (QResetStream f) = ResetStreamFrame_ok f"
| "qframe_ok (QStopSending f) = (int64_ok (ss_StreamID f) \<and> word_ok (ss_ErrorCode f))"
| "qframe_ok (QCrypto f) = crypto_ok f"
| "qframe_ok (QNewToken f) = (nt_Token f \<noteq> [] \<and> length (nt_Token f) < 2 ^ 62)"
| "qframe_ok (QMaxData f) = int64_ok (md_MaximumData f)"
| "qframe_ok (QMaxStreamData f) = (int64_ok (msd_StreamID f) \<and> int64_ok (msd_MaximumStreamData f))"
| "qframe_ok (QMaxStreams f) = count_ok (ms_MaxStreamNum f)"
| "qframe_ok (QDataBlocked f) = int64_ok (db_MaximumData f)"
| "qframe_ok (QStreamDataBlocked f) = (int64_ok (sdb_StreamID f) \<and> int64_ok (sdb_MaximumStreamData f))"
| "qframe_ok (QStreamsBlocked f) = count_ok (sb_StreamLimit f)"
| "qframe_ok (QNewConnectionID f) = NewConnectionIDFrame_ok f"
| "qframe_ok (QRetireConnectionID f) = word_ok (rc_SequenceNumber f)"
| "qframe_ok (QPathChallenge f) = (length (pc_Data f) = 8)"
| "qframe_ok (QPathResponse f) = (length (pr_Data f) = 8)"
| "qframe_ok (QConnectionClose f) = ConnectionCloseFrame_ok f"
| "qframe_ok QHandshakeDone = True"
| "qframe_ok (QAckFrequency f) = AckFrequencyFrame_ok f"
| "qframe_ok QImmediateAck = True"
| "qframe_ok (QStream f) = (StreamFrame_ok f \<and> sf_DataLenPresent f)"
| "qframe_ok (QAck f) = ack_codec_ok f"
| "qframe_ok (QDatagram f) = (length (df_Data f) < 2 ^ 62 \<and> df_DataLenPresent f)"

text \<open>The parser decodes ACK delays with the exponent the writer uses.\<close>

definition exponent_ok :: "FrameParser \<Rightarrow> EncryptionLevel \<Rightarrow> bool" where
  "exponent_ok p encLevel = (encLevel \<noteq> Encryption1RTT \<or> fp_ackDelayExponent p = AckDelayExponent)"

lemma stream_type_range: "IsStreamFrameType (StreamFrame_type f)"
  by (simp add: IsStreamFrameType_def StreamFrame_type_def Let_def)

lemma wrap_codec:
  assumes "\<exists>w. (\<forall>b. app b = Inr (b @ t @ w)) \<and> len = Inr (int (length t + length w))
      \<and> (\<forall>rest. parse (w @ rest) = Inr (f, length w))"
    and "\<And>b. parse' b = wrap typ mk (parse b)"
  shows "\<exists>w. (\<forall>b. app b = Inr (b @ t @ w)) \<and> len = Inr (int (length t + length w))
      \<and> (\<forall>rest. parse' (w @ rest) = Inr (mk f, length w))"
  using assms(1) by (auto simp: assms(2) wrap_def)

lemmas type_class_defs = parse_frame_def IsStreamFrameType_def IsAckFrameType_def IsDatagramFrameType_def

lemma parse_frame_type:
  "parse_frame p lvl TypePing b = Inr (QPing, 0)"
  "parse_frame p lvl (ResetStreamFrame_type rs) b
    = wrap (ResetStreamFrame_type rs) QResetStream (parseResetStreamFrame (ResetStreamFrame_type rs = FrameTypeResetStreamAt) b)"
  "parse_frame p lvl FrameTypeStopSending b = wrap FrameTypeStopSending QStopSending (parseStopSendingFrame b)"
  "parse_frame p lvl TypeCrypto b = wrap TypeCrypto QCrypto (parseCryptoFrame b)"
  "parse_frame p lvl FrameTypeNewToken b = wrap FrameTypeNewToken QNewToken (parseNewTokenFrame b)"
  "parse_frame p lvl FrameTypeMaxData b = wrap FrameTypeMaxData QMaxData (parseMaxDataFrame b)"
  "parse_frame p lvl FrameTypeMaxStreamData b = wrap FrameTypeMaxStreamData QMaxStreamData (parseMaxStreamDataFrame b)"
  "parse_frame p lvl (MaxStreamsFrame_type ms) b
    = wrap (MaxStreamsFrame_type ms) QMaxStreams (parseMaxStreamsFrame (MaxStreamsFrame_type ms) b)"
  "parse_frame p lvl FrameTypeDataBlocked b = wrap FrameTypeDataBlocked QDataBlocked (parseDataBlockedFrame b)"
  "parse_frame p lvl FrameTypeStreamDataBlocked b
    = wrap FrameTypeStreamDataBlocked QStreamDataBlocked (parseStreamDataBlockedFrame b)"
  "parse_frame p lvl (StreamsBlockedFrame_type sb) b
    = wrap (StreamsBlockedFrame_type sb) QStreamsBlocked (parseStreamsBlockedFrame (StreamsBlockedFrame_type sb) b)"
  "parse_frame p lvl FrameTypeNewConnectionID b
    = wrap FrameTypeNewConnectionID QNewConnectionID (parseNewConnectionIDFrame b)"
  "parse_frame p lvl FrameTypeRetireConnectionID b
    = wrap FrameTypeRetireConnectionID QRetireConnectionID (parseRetireConnectionIDFrame b)"
  "parse_frame p lvl FrameTypePathChallenge b = wrap FrameTypePathChallenge QPathChallenge (parsePathChallengeFrame b)"
  "parse_frame p lvl FrameTypePathResponse b = wrap FrameTypePathResponse QPathResponse (parsePathResponseFrame b)"
  "parse_frame p lvl (ConnectionCloseFrame_type cc) b
    = wrap (ConnectionCloseFrame_type cc) QConnectionClose (parseConnectionCloseFrame (ConnectionCloseFrame_type cc) b)"
  "parse_frame p lvl FrameTypeHandshakeDone b = Inr (QHandshakeDone, 0)"
  "parse_frame p lvl FrameTypeAckFrequency b = wrap FrameTypeAckFrequency QAckFrequency (parseAckFrequencyFrame b)"
  "parse_frame p lvl FrameTypeImmediateAck b = Inr (QImmediateAck, 0)"
  "parse_frame p lvl (StreamFrame_type sf) b = wrap (StreamFrame_type sf) QStream (ParseStreamFrame (StreamFrame_type sf) b)"
  "exponent_ok p lvl \<Longrightarrow> parse_frame p lvl (AckFrame_type af) b
    = wrap (AckFrame_type af) QAck (parseAckFrame AckDelayExponent (AckFrame_type af) b)"
  "parse_frame p lvl (DatagramFrame_type df) b
    = wrap (DatagramFrame_type df) QDatagram (parseDatagramFrame (DatagramFrame_type df) b)"
proof -
  show "parse_frame p lvl (StreamFrame_type sf) b = wrap (StreamFrame_type sf) QStream (ParseStreamFrame (StreamFrame_type sf) b)"
    by (simp add: parse_frame_def stream_type_range FrameParser_ParseStreamFrame_def)
  show "exponent_ok p lvl \<Longrightarrow> parse_frame p lvl (AckFrame_type af) b
    = wrap (AckFrame_type af) QAck (parseAckFrame AckDelayExponent (AckFrame_type af) b)"
    by (auto simp: type_class_defs AckFrame_type_def FrameParser_ParseAckFrame_def exponent_ok_def Let_def)
  show "parse_frame p lvl (DatagramFrame_type df) b
    = wrap (DatagramFrame_type df) QDatagram (parseDatagramFrame (DatagramFrame_type df) b)"
    by (simp add: type_class_defs DatagramFrame_type_def FrameParser_ParseDatagramFrame_def)
  show "parse_frame p lvl (MaxStreamsFrame_type ms) b
    = wrap (MaxStreamsFrame_type ms) QMaxStreams (parseMaxStreamsFrame (MaxStreamsFrame_type ms) b)"
    by (cases "ms_Type ms") (simp_all add: type_class_defs MaxStreamsFrame_type_def ParseLessCommonFrame_def)
  show "parse_frame p lvl (StreamsBlockedFrame_type sb) b
    = wrap (StreamsBlockedFrame_type sb) QStreamsBlocked (parseStreamsBlockedFrame (StreamsBlockedFrame_type sb) b)"
    by (cases "sb_Type sb") (simp_all add: type_class_defs StreamsBlockedFrame_type_def ParseLessCommonFrame_def)
qed (simp_all add: type_class_defs ParseLessCommonFrame_def ResetStreamFrame_type_def ConnectionCloseFrame_type_def
    word_le_nat_alt)

lemma qframe_codec:
  assumes "qframe_ok f" "exponent_ok p lvl"
  shows "\<exists>w. (\<forall>b. qframe_Append f b = Inr (b @ venc (qframe_type f) @ w))
      \<and> qframe_Length f = Inr (int (length (venc (qframe_type f)) + length w))
      \<and> (\<forall>rest. parse_frame p lvl (qframe_type f) (w @ rest) = Inr (f, length w))"
  using assms
proof (cases f)
  case QPing
  then show ?thesis by (simp add: parse_frame_type PingFrame_Append_def PingFrame_Length_def venc_type)
next
  case QHandshakeDone
  then show ?thesis
    by (simp add: parse_frame_type HandshakeDoneFrame_Append_def HandshakeDoneFrame_Length_def venc_type)
next
  case QImmediateAck
  then show ?thesis using immediate_ack.codec [of "()"] by (simp add: parse_frame_type)
next
  case (QResetStream x)
  then show ?thesis using assms wrap_codec [OF reset_stream.codec parse_frame_type(2)] by simp
next
  case (QStopSending x)
  then show ?thesis using assms wrap_codec [OF stop_sending.codec parse_frame_type(3)] by simp
next
  case (QCrypto x)
  then show ?thesis using assms wrap_codec [OF crypto.codec parse_frame_type(4)] by simp
next
  case (QNewToken x)
  then show ?thesis using assms wrap_codec [OF new_token.codec parse_frame_type(5)] by simp
next
  case (QMaxData x)
  then show ?thesis using assms wrap_codec [OF max_data.codec parse_frame_type(6)] by simp
next
  case (QMaxStreamData x)
  then show ?thesis using assms wrap_codec [OF max_stream_data.codec parse_frame_type(7)] by simp
next
  case (QMaxStreams x)
  then show ?thesis using assms wrap_codec [OF max_streams.codec parse_frame_type(8)] by simp
next
  case (QDataBlocked x)
  then show ?thesis using assms wrap_codec [OF data_blocked.codec parse_frame_type(9)] by simp
next
  case (QStreamDataBlocked x)
  then show ?thesis using assms wrap_codec [OF stream_data_blocked.codec parse_frame_type(10)] by simp
next
  case (QStreamsBlocked x)
  then show ?thesis using assms wrap_codec [OF streams_blocked.codec parse_frame_type(11)] by simp
next
  case (QNewConnectionID x)
  then show ?thesis using assms wrap_codec [OF new_connection_id.codec parse_frame_type(12)] by simp
next
  case (QRetireConnectionID x)
  then show ?thesis using assms wrap_codec [OF retire_connection_id.codec parse_frame_type(13)] by simp
next
  case (QPathChallenge x)
  then show ?thesis using assms wrap_codec [OF path_challenge.codec parse_frame_type(14)] by simp
next
  case (QPathResponse x)
  then show ?thesis using assms wrap_codec [OF path_response.codec parse_frame_type(15)] by simp
next
  case (QConnectionClose x)
  then show ?thesis using assms wrap_codec [OF connection_close.codec parse_frame_type(16)] by simp
next
  case (QAckFrequency x)
  then show ?thesis using assms wrap_codec [OF ack_frequency.codec parse_frame_type(18)] by simp
next
  case (QStream x)
  then show ?thesis using assms wrap_codec [OF stream.codec parse_frame_type(20)] by simp
next
  case (QAck x)
  then show ?thesis using assms wrap_codec [OF ack.codec parse_frame_type(21) [OF assms(2)]] by simp
next
  case (QDatagram x)
  then show ?thesis using assms wrap_codec [OF datagram.codec parse_frame_type(22)] by simp
qed

lemma qframe_type_bound: "unat (qframe_type f) < 2 ^ 62"
proof (cases f)
  case (QStream x)
  then show ?thesis using StreamFrame_type_small [of x] by (simp add: word_less_nat_alt)
next
  case (QMaxStreams x)
  then show ?thesis by (cases "ms_Type x") (simp_all add: MaxStreamsFrame_type_def)
next
  case (QStreamsBlocked x)
  then show ?thesis by (cases "sb_Type x") (simp_all add: StreamsBlockedFrame_type_def)
qed (simp_all add: ResetStreamFrame_type_def ConnectionCloseFrame_type_def AckFrame_type_def DatagramFrame_type_def)

lemma qframe_type_nonzero: "qframe_type f \<noteq> 0"
proof (cases f)
  case (QStream x)
  then show ?thesis by (simp add: StreamFrame_type_def Let_def)
next
  case (QMaxStreams x)
  then show ?thesis by (cases "ms_Type x") (simp_all add: MaxStreamsFrame_type_def)
next
  case (QStreamsBlocked x)
  then show ?thesis by (cases "sb_Type x") (simp_all add: StreamsBlockedFrame_type_def)
qed (simp_all add: ResetStreamFrame_type_def ConnectionCloseFrame_type_def AckFrame_type_def DatagramFrame_type_def)

section \<open>Typing a frame\<close>

lemma Parse_padding: "Parse (0 # b) = Inr (0, 1)"
  by (simp add: Parse_Cons varint_width_def varint_value_def Let_def)

lemma ParseType_skips_padding:
  "ParseType_loop p lvl n (replicate k 0 @ b) = ParseType_loop p lvl (n + k) b"
proof (induction k arbitrary: n)
  case (Suc k)
  have "ParseType_loop p lvl n (0 # replicate k 0 @ b) = ParseType_loop p lvl (Suc n) (replicate k 0 @ b)"
    by (simp add: ParseType_loop.simps [of p lvl n "0 # _"] Parse_padding)
  then show ?case using Suc by simp
qed simp

text \<open>The frames that may be received at an encryption level with what was negotiated.\<close>

definition frame_allowed :: "FrameParser \<Rightarrow> EncryptionLevel \<Rightarrow> qframe \<Rightarrow> bool" where
  "frame_allowed p lvl f = (type_valid p (qframe_type f) \<and> isAllowedAtEncLevel (qframe_type f) lvl = Some True)"

lemma ParseType_frame:
  assumes "frame_allowed p lvl f"
  shows "ParseType p (replicate k 0 @ venc (qframe_type f) @ rest) lvl
    = (Inr (qframe_type f), k + length (venc (qframe_type f)))"
proof -
  have "Parse (venc (qframe_type f) @ rest) = Inr (qframe_type f, length (venc (qframe_type f)))"
    by (rule venc_encoding(4) [OF qframe_type_bound])
  moreover have "venc (qframe_type f) \<noteq> []"
    using venc_encoding(3) [OF qframe_type_bound, of f] by (auto simp: varint_size_def split: if_splits)
  ultimately show ?thesis
    using assms qframe_type_nonzero [of f]
    by (simp add: ParseType_def ParseType_skips_padding ParseType_loop.simps [of p lvl k "_ @ rest"] frame_allowed_def)
qed

text \<open>The classification of received frame types agrees with that of frames: a frame is ack-eliciting or probing
  by its type exactly when it is by its Go type, and a frame type that the parser accepts in an Initial or Handshake
  packet is CRYPTO, ACK, PING or the transport's CONNECTION_CLOSE.\<close>

lemma frame_classes_agree:
  "IsFrameTypeAckEliciting (qframe_type f) = IsFrameAckEliciting f
    \<and> IsProbingFrameType (qframe_type f) = IsProbingFrame f
    \<and> (frame_allowed p EncryptionInitial f = (case f of QCrypto _ \<Rightarrow> True | QAck _ \<Rightarrow> True | QPing \<Rightarrow> True
         | QConnectionClose c \<Rightarrow> \<not> cc_IsApplicationError c | _ \<Rightarrow> False))"
proof (cases f)
  case (QStream x)
  have "StreamFrame_type x \<in> {8, 9, 10, 11, 12, 13, 14, 15}" by (simp add: StreamFrame_type_def Let_def)
  then show ?thesis using QStream
    by (auto simp: IsFrameTypeAckEliciting_def IsFrameAckEliciting_def IsProbingFrameType_def frame_allowed_def
        isAllowedAtEncLevel_def)
next
  case (QMaxStreams x)
  then show ?thesis by (cases "ms_Type x") (simp_all add: MaxStreamsFrame_type_def IsFrameTypeAckEliciting_def
      IsFrameAckEliciting_def IsProbingFrameType_def frame_allowed_def isAllowedAtEncLevel_def)
next
  case (QStreamsBlocked x)
  then show ?thesis by (cases "sb_Type x") (simp_all add: StreamsBlockedFrame_type_def IsFrameTypeAckEliciting_def
      IsFrameAckEliciting_def IsProbingFrameType_def frame_allowed_def isAllowedAtEncLevel_def)
qed (simp_all add: ResetStreamFrame_type_def ConnectionCloseFrame_type_def AckFrame_type_def DatagramFrame_type_def
    IsFrameTypeAckEliciting_def IsFrameAckEliciting_def IsProbingFrameType_def frame_allowed_def isAllowedAtEncLevel_def
    type_valid_def isValidRFC9000_def word_le_nat_alt)

section \<open>Properties\<close>

text \<open>C32: Every frame survives the wire. For each of the 22 frame types, each well-formed frame, each parser that
  supports it at an encryption level that allows it, and any padding before and bytes after it: \<open>Append\<close> writes
  the frame in exactly \<open>Length\<close> bytes, \<open>ParseType\<close> skips the padding and returns the frame's type, and the parsing
  function chosen for that type returns the same frame and consumes exactly the rest of its bytes.\<close>

theorem frame_reads_back:
  assumes "qframe_ok f" "exponent_ok p lvl" "frame_allowed p lvl f"
  shows "\<exists>w t. qframe_Append f b = Inr (b @ w) \<and> qframe_Length f = Inr (int (length w))
    \<and> ParseType p (replicate k 0 @ w @ rest) lvl = (Inr (qframe_type f), k + t)
    \<and> parse_frame p lvl (qframe_type f) (drop (k + t) (replicate k 0 @ w @ rest)) = Inr (f, length w - t)"
proof -
  let ?t = "venc (qframe_type f)"
  obtain w where w: "\<forall>b. qframe_Append f b = Inr (b @ ?t @ w)" "qframe_Length f = Inr (int (length ?t + length w))"
    "\<forall>rest. parse_frame p lvl (qframe_type f) (w @ rest) = Inr (f, length w)"
    using qframe_codec [OF assms(1,2)] by metis
  show ?thesis
    using w ParseType_frame [OF assms(3), of k "w @ rest"]
    by (intro exI [of _ "?t @ w"] exI [of _ "length ?t"]) simp
qed

theorem frame_reads_back_witness:
  "\<exists>w t. qframe_Append (QNewToken \<lparr>nt_Token = [1, 2]\<rparr>) [] = Inr w
    \<and> ParseType (SetAckDelayExponent (NewFrameParser False False False) 3) (replicate 3 0 @ w) Encryption1RTT
      = (Inr FrameTypeNewToken, 3 + t)"
proof -
  let ?f = "QNewToken \<lparr>nt_Token = [1, 2]\<rparr>" and ?p = "SetAckDelayExponent (NewFrameParser False False False) 3"
  have "qframe_ok ?f" "exponent_ok ?p Encryption1RTT" "frame_allowed ?p Encryption1RTT ?f"
    by (simp_all add: exponent_ok_def SetAckDelayExponent_def frame_allowed_def type_valid_def isValidRFC9000_def
        isAllowedAtEncLevel_def)
  from frame_reads_back [OF this, of "[]" 3 "[]"] show ?thesis by auto
qed

end
