(* ===== verification/Quic_Conn_Frames.thy ===== *)
theory Quic_Conn_Frames
  imports Quic_Frame_Parser
begin

text \<open>
  The receiving loop of a QUIC connection (\<open>quic/connection.go\<close>): \<open>handleFrames\<close>, which parses a decrypted
  packet payload frame by frame and hands each frame to its handler, and \<open>handleFrame\<close>, the choice of the
  handler. The connection \<open>'c\<close> is changed only by the handlers of its subsystems (streams map, sent packet handler,
  datagram queue, flow controller, connection ID manager and generator, crypto stream), which are the parameter
  \<open>conn_ops\<close>; every statement holds for all of them. Tracing appears as the list of frames passed to \<open>log\<close>; the debug
  log of \<open>wire.LogFrame\<close> is left out.

  The loop over bytes is shown to refine a loop over frames: a payload that consists of frames, with padding
  anywhere, is handled exactly as the sequence of its frames, errors of the handlers included.
\<close>

section \<open>The connection's handlers\<close>

datatype conn_error =
    FrameError frame_failure
  | RemoteApplicationError "64 word" bytes
  | RemoteTransportError "64 word" "64 word" bytes
  | UnexpectedFrameType qframe
  | HandlerError string

type_synonym 'c handler = "'c \<Rightarrow> conn_error option \<times> 'c"

record 'c conn_ops =
  HandleStreamFrame :: "StreamFrame \<Rightarrow> 'c handler"
  handleAckFrame :: "AckFrame \<Rightarrow> EncryptionLevel \<Rightarrow> 'c handler"
  handleDatagramFrame :: "DatagramFrame \<Rightarrow> 'c handler"
  handleCryptoFrame :: "CryptoFrame \<Rightarrow> EncryptionLevel \<Rightarrow> 'c handler"
  HandleResetStreamFrame :: "ResetStreamFrame \<Rightarrow> 'c handler"
  UpdateSendWindow :: "ByteCount \<Rightarrow> 'c \<Rightarrow> 'c"
  HandleMaxStreamDataFrame :: "MaxStreamDataFrame \<Rightarrow> 'c handler"
  HandleMaxStreamsFrame :: "MaxStreamsFrame \<Rightarrow> 'c \<Rightarrow> 'c"
  HandleStreamDataBlockedFrame :: "StreamDataBlockedFrame \<Rightarrow> 'c handler"
  HandleStopSendingFrame :: "StopSendingFrame \<Rightarrow> 'c handler"
  handlePathChallengeFrame :: "PathChallengeFrame \<Rightarrow> 'c \<Rightarrow> 'c"
  handlePathResponseFrame :: "PathResponseFrame \<Rightarrow> 'c handler"
  handleNewTokenFrame :: "NewTokenFrame \<Rightarrow> 'c handler"
  connIDManager_Add :: "NewConnectionIDFrame \<Rightarrow> 'c handler"
  connIDGenerator_Retire :: "64 word \<Rightarrow> 'c handler"
  handleHandshakeDoneFrame :: "'c handler"
  handshakeComplete :: "'c \<Rightarrow> bool"
  handleHandshakeComplete :: "'c handler"

definition handleConnectionCloseFrame :: "ConnectionCloseFrame \<Rightarrow> conn_error" where
  "handleConnectionCloseFrame frame =
     (if cc_IsApplicationError frame then RemoteApplicationError (cc_ErrorCode frame) (cc_ReasonPhrase frame)
      else RemoteTransportError (cc_ErrorCode frame) (cc_FrameType frame) (cc_ReasonPhrase frame))"

text \<open>The result is the path challenge of the frame, the error, and the connection.\<close>

definition plain :: "conn_error option \<times> 'c \<Rightarrow> PathChallengeFrame option \<times> conn_error option \<times> 'c" where
  "plain r = (None, r)"

fun handleFrame ::
  "'c conn_ops \<Rightarrow> EncryptionLevel \<Rightarrow> qframe \<Rightarrow> 'c \<Rightarrow> PathChallengeFrame option \<times> conn_error option \<times> 'c" where
  "handleFrame ops encLevel (QCrypto frame) c = plain (handleCryptoFrame ops frame encLevel c)"
| "handleFrame ops encLevel (QConnectionClose frame) c = plain (Some (handleConnectionCloseFrame frame), c)"
| "handleFrame ops encLevel (QResetStream frame) c = plain (HandleResetStreamFrame ops frame c)"
| "handleFrame ops encLevel (QMaxData frame) c = plain (None, UpdateSendWindow ops (md_MaximumData frame) c)"
| "handleFrame ops encLevel (QMaxStreamData frame) c = plain (HandleMaxStreamDataFrame ops frame c)"
| "handleFrame ops encLevel (QMaxStreams frame) c = plain (None, HandleMaxStreamsFrame ops frame c)"
| "handleFrame ops encLevel (QDataBlocked frame) c = plain (None, c)"
| "handleFrame ops encLevel (QStreamDataBlocked frame) c = plain (HandleStreamDataBlockedFrame ops frame c)"
| "handleFrame ops encLevel (QStreamsBlocked frame) c = plain (None, c)"
| "handleFrame ops encLevel (QStopSending frame) c = plain (HandleStopSendingFrame ops frame c)"
| "handleFrame ops encLevel QPing c = plain (None, c)"
| "handleFrame ops encLevel (QPathChallenge frame) c = (Some frame, None, handlePathChallengeFrame ops frame c)"
| "handleFrame ops encLevel (QPathResponse frame) c = plain (handlePathResponseFrame ops frame c)"
| "handleFrame ops encLevel (QNewToken frame) c = plain (handleNewTokenFrame ops frame c)"
| "handleFrame ops encLevel (QNewConnectionID frame) c = plain (connIDManager_Add ops frame c)"
| "handleFrame ops encLevel (QRetireConnectionID frame) c = plain (connIDGenerator_Retire ops (rc_SequenceNumber frame) c)"
| "handleFrame ops encLevel QHandshakeDone c = plain (handleHandshakeDoneFrame ops c)"
| "handleFrame ops encLevel f c = plain (Some (UnexpectedFrameType f), c)"

section \<open>The loop\<close>

text \<open>The variables of \<open>handleFrames\<close>, and the connection.\<close>

record 'c frames_state =
  hf_isAckEliciting :: bool
  hf_isNonProbing :: bool
  hf_pathChallenge :: "PathChallengeFrame option"
  hf_frames :: "qframe list"
  hf_handleErr :: "conn_error option"
  hf_skipHandling :: bool
  hf_conn :: 'c

definition note_type :: "FrameType \<Rightarrow> 'c frames_state \<Rightarrow> 'c frames_state" where
  "note_type frameType s =
     s\<lparr>hf_isAckEliciting := (if IsFrameTypeAckEliciting frameType then True else hf_isAckEliciting s),
       hf_isNonProbing := (if \<not> IsProbingFrameType frameType then True else hf_isNonProbing s)\<rparr>"

text \<open>One frame after parsing. \<open>Inl\<close> is the return with an error in the middle of the packet.\<close>

definition handle_parsed ::
  "'c conn_ops \<Rightarrow> EncryptionLevel \<Rightarrow> bool \<Rightarrow> qframe \<Rightarrow> 'c frames_state \<Rightarrow> (conn_error \<times> 'c frames_state) + 'c frames_state"
where
  "handle_parsed ops encLevel logging f s =
     (let s = (if logging then s\<lparr>hf_frames := hf_frames s @ [f]\<rparr> else s) in
      if hf_skipHandling s then Inr s
      else
        let (pc, err, c) =
              (case f of QStream frame \<Rightarrow> plain (HandleStreamFrame ops frame (hf_conn s))
               | QAck frame \<Rightarrow> plain (handleAckFrame ops frame encLevel (hf_conn s))
               | QDatagram frame \<Rightarrow> plain (handleDatagramFrame ops frame (hf_conn s))
               | _ \<Rightarrow> handleFrame ops encLevel f (hf_conn s));
            s = s\<lparr>hf_pathChallenge := (if pc \<noteq> None then pc else hf_pathChallenge s), hf_handleErr := err, hf_conn := c\<rparr> in
        (case err of None \<Rightarrow> Inr s
         | Some e \<Rightarrow> let s = s\<lparr>hf_skipHandling := True\<rparr> in if \<not> logging then Inl (e, s) else Inr s))"

lemma ParseType_length:
  "ParseType_loop p lvl n b = (Inr t, l) \<Longrightarrow> n < l \<and> l \<le> n + length b"
proof (induction p lvl n b rule: ParseType_loop.induct)
  case (1 p lvl n b)
  show ?case
  proof (cases "b = []")
    case True
    then show ?thesis using "1.prems" by (simp add: ParseType_loop.simps [of p lvl n])
  next
    case False
    then obtain ty k where k: "Parse b = Inr (ty, k)"
      using "1.prems" by (cases "Parse b") (auto simp: ParseType_loop.simps [of p lvl n b])
    then have len: "0 < k" "k \<le> length b" using Parse_length [of b ty k] by auto
    show ?thesis
    proof (cases "ty = 0")
      case True
      then have "ParseType_loop p lvl (n + k) (drop k b) = (Inr t, l)"
        using "1.prems" False k by (simp add: ParseType_loop.simps [of p lvl n b])
      then show ?thesis using "1.IH" [OF False k refl refl refl True] len by simp
    next
      case ty: False
      then have "l = n + k" using "1.prems" False k
        by (auto simp: ParseType_loop.simps [of p lvl n b] Let_def split: if_splits option.splits bool.splits)
      then show ?thesis using len by simp
    qed
  qed
qed

function handleFrames_loop ::
  "'c conn_ops \<Rightarrow> FrameParser \<Rightarrow> EncryptionLevel \<Rightarrow> bool \<Rightarrow> bytes \<Rightarrow> 'c frames_state
    \<Rightarrow> (conn_error \<times> 'c frames_state) + 'c frames_state" where
  "handleFrames_loop ops p encLevel logging data s =
     (if data = [] then Inr s
      else case ParseType p data encLevel of
        (Inl EndOfFrames, _) \<Rightarrow> Inr s
      | (Inl e, _) \<Rightarrow> Inl (FrameError e, s)
      | (Inr frameType, l) \<Rightarrow>
          let data = drop l data; s = note_type frameType s in
          (case parse_frame p encLevel frameType data of
             Inl e \<Rightarrow> Inl (FrameError e, s)
           | Inr (f, l) \<Rightarrow>
               let data = drop l data in
               rbind (handle_parsed ops encLevel logging f s) (\<lambda>s. handleFrames_loop ops p encLevel logging data s)))"
  by pat_completeness auto
termination
  by (relation "measure (\<lambda>(ops, p, encLevel, logging, data, s). length data)")
    (auto dest!: ParseType_length [OF sym] simp: ParseType_def)

declare handleFrames_loop.simps [simp del]

text \<open>The result: the error or the three values of the call, the frames that were traced, and the connection.\<close>

definition handleFrames ::
  "'c conn_ops \<Rightarrow> FrameParser \<Rightarrow> EncryptionLevel \<Rightarrow> bool \<Rightarrow> bytes \<Rightarrow> 'c
    \<Rightarrow> (conn_error + (bool \<times> bool \<times> PathChallengeFrame option)) \<times> qframe list option \<times> 'c" where
  "handleFrames ops p encLevel logging data c =
     (let s = \<lparr>hf_isAckEliciting = False, hf_isNonProbing = False, hf_pathChallenge = None, hf_frames = [],
               hf_handleErr = None, hf_skipHandling = False, hf_conn = c\<rparr>;
          handshakeWasComplete = handshakeComplete ops c in
      case handleFrames_loop ops p encLevel logging data s of
        Inl (e, s) \<Rightarrow> (Inl e, None, hf_conn s)
      | Inr s \<Rightarrow>
          let logged = (if logging then Some (hf_frames s) else None);
              result = Inr (hf_isAckEliciting s, hf_isNonProbing s, hf_pathChallenge s) in
          if logging \<and> hf_handleErr s \<noteq> None then (Inl (the (hf_handleErr s)), logged, hf_conn s)
          else if \<not> handshakeWasComplete \<and> handshakeComplete ops (hf_conn s) then
            (case handleHandshakeComplete ops (hf_conn s) of
               (Some e, c) \<Rightarrow> (Inl e, logged, c)
             | (None, c) \<Rightarrow> (result, logged, c))
          else (result, logged, hf_conn s))"

section \<open>Payloads made of frames\<close>

definition qenc :: "qframe \<Rightarrow> bytes" where
  "qenc f = (case qframe_Append f [] of Inl _ \<Rightarrow> [] | Inr w \<Rightarrow> w)"

text \<open>Frames, each with the number of padding bytes before it, and padding at the end.\<close>

fun payload_bytes :: "(nat \<times> qframe) list \<Rightarrow> nat \<Rightarrow> bytes" where
  "payload_bytes [] n = replicate n 0"
| "payload_bytes ((k, f) # fs) n = replicate k 0 @ qenc f @ payload_bytes fs n"

definition receivable :: "FrameParser \<Rightarrow> EncryptionLevel \<Rightarrow> (nat \<times> qframe) list \<Rightarrow> bool" where
  "receivable p lvl fs = (exponent_ok p lvl \<and> (\<forall>(k, f)\<in>set fs. qframe_ok f \<and> frame_allowed p lvl f))"

lemma receivable_Cons:
  "receivable p lvl ((k, f) # fs) \<longleftrightarrow> qframe_ok f \<and> frame_allowed p lvl f \<and> receivable p lvl fs"
  by (auto simp: receivable_def)

text \<open>The loop over frames instead of bytes.\<close>

fun handle_list ::
  "'c conn_ops \<Rightarrow> EncryptionLevel \<Rightarrow> bool \<Rightarrow> qframe list \<Rightarrow> 'c frames_state
    \<Rightarrow> (conn_error \<times> 'c frames_state) + 'c frames_state" where
  "handle_list ops lvl logging [] s = Inr s"
| "handle_list ops lvl logging (f # fs) s =
     rbind (handle_parsed ops lvl logging f (note_type (qframe_type f) s)) (handle_list ops lvl logging fs)"

lemma loop_padding: "handleFrames_loop ops p lvl logging (replicate n 0) s = Inr s"
proof (cases n)
  case (Suc m)
  have "ParseType p (replicate n 0) lvl = (Inl EndOfFrames, n)"
    using ParseType_skips_padding [of p lvl 0 n "[]"] by (simp add: ParseType_def ParseType_loop.simps [of p lvl _ "[]"])
  then show ?thesis by (simp add: handleFrames_loop.simps [of ops p lvl logging])
qed (simp add: handleFrames_loop.simps [of ops p lvl logging])

lemma loop_step:
  assumes "qframe_ok f" "exponent_ok p lvl" "frame_allowed p lvl f"
  shows "handleFrames_loop ops p lvl logging (replicate k 0 @ qenc f @ rest) s =
    rbind (handle_parsed ops lvl logging f (note_type (qframe_type f) s)) (handleFrames_loop ops p lvl logging rest)"
proof -
  let ?t = "venc (qframe_type f)"
  obtain w where w: "qframe_Append f [] = Inr (?t @ w)"
    "\<forall>rest. parse_frame p lvl (qframe_type f) (w @ rest) = Inr (f, length w)"
    using qframe_codec [OF assms(1,2)] by fastforce
  then have enc: "replicate k 0 @ qenc f @ rest = replicate k 0 @ ?t @ w @ rest" by (simp add: qenc_def)
  have ty: "ParseType p (replicate k 0 @ ?t @ w @ rest) lvl = (Inr (qframe_type f), k + length ?t)"
    by (rule ParseType_frame [OF assms(3)])
  have "?t \<noteq> []"
    using venc_encoding(3) [OF qframe_type_bound, of f] by (auto simp: varint_size_def split: if_splits)
  then show ?thesis
    unfolding enc by (subst handleFrames_loop.simps) (simp add: ty w(2) Let_def)
qed

lemma payload_bytes_append: "payload_bytes fs n = payload_bytes fs 0 @ replicate n 0"
  by (induction fs n rule: payload_bytes.induct) auto

lemma loop_prefix:
  assumes "receivable p lvl fs"
  shows "handleFrames_loop ops p lvl logging (payload_bytes fs 0 @ tail) s =
    rbind (handle_list ops lvl logging (map snd fs) s) (handleFrames_loop ops p lvl logging tail)"
  using assms
proof (induction fs arbitrary: s)
  case (Cons kf fs)
  obtain k f where kf: "kf = (k, f)" by (cases kf)
  then have f: "qframe_ok f" "frame_allowed p lvl f" "receivable p lvl fs" "exponent_ok p lvl"
    using Cons.prems by (auto simp: receivable_def)
  have IH: "handleFrames_loop ops p lvl logging (payload_bytes fs 0 @ tail) =
      (\<lambda>s. rbind (handle_list ops lvl logging (map snd fs) s) (handleFrames_loop ops p lvl logging tail))"
    using Cons.IH [OF f(3)] by blast
  show ?case
    using kf loop_step [OF f(1,4,2), of ops logging k "payload_bytes fs 0 @ tail" s] by (simp add: IH rbind_assoc)
qed simp

lemma loop_refines:
  assumes "receivable p lvl fs"
  shows "handleFrames_loop ops p lvl logging (payload_bytes fs n) s = handle_list ops lvl logging (map snd fs) s"
  using loop_prefix [OF assms, of ops logging "replicate n 0" s]
  by (cases "handle_list ops lvl logging (map snd fs) s") (simp_all add: payload_bytes_append [of fs n] loop_padding)

lemma loop_level_error:
  assumes "qframe_ok f" "exponent_ok p lvl" "type_valid p (qframe_type f)" "isAllowedAtEncLevel (qframe_type f) lvl = Some False"
  shows "handleFrames_loop ops p lvl logging (replicate n 0 @ qenc f @ rest) s
    = Inl (FrameError (FrameEncodingError (qframe_type f) (NotAllowedAtLevel lvl)), s)"
proof -
  let ?t = "venc (qframe_type f)"
  obtain w where "qframe_Append f [] = Inr (?t @ w)" using qframe_codec [OF assms(1,2)] by fastforce
  then have enc: "replicate n 0 @ qenc f @ rest = replicate n 0 @ ?t @ w @ rest" by (simp add: qenc_def)
  have "Parse (?t @ w @ rest) = Inr (qframe_type f, length ?t)" by (rule venc_encoding(4) [OF qframe_type_bound])
  moreover have t: "?t \<noteq> []"
    using venc_encoding(3) [OF qframe_type_bound, of f] by (auto simp: varint_size_def split: if_splits)
  ultimately have "ParseType p (replicate n 0 @ ?t @ w @ rest) lvl
      = (Inl (FrameEncodingError (qframe_type f) (NotAllowedAtLevel lvl)), n + length ?t)"
    using assms qframe_type_nonzero [of f]
    by (simp add: ParseType_def ParseType_skips_padding ParseType_loop.simps [of p lvl n "_ @ _"])
  then show ?thesis unfolding enc using t by (subst handleFrames_loop.simps) simp
qed

lemma HasAckEliciting_iff: "HasAckElicitingFrames fs \<longleftrightarrow> (\<exists>f\<in>set fs. IsFrameAckEliciting f)"
  by (induction fs) auto

section \<open>Handlers that fail and handlers that do not\<close>

text \<open>The handling of one frame: the path challenge, the error and the connection after it.\<close>

definition dispatch :: "'c conn_ops \<Rightarrow> EncryptionLevel \<Rightarrow> qframe \<Rightarrow> 'c \<Rightarrow> PathChallengeFrame option \<times> conn_error option \<times> 'c" where
  "dispatch ops lvl f c =
     (case f of QStream frame \<Rightarrow> plain (HandleStreamFrame ops frame c)
      | QAck frame \<Rightarrow> plain (handleAckFrame ops frame lvl c)
      | QDatagram frame \<Rightarrow> plain (handleDatagramFrame ops frame c)
      | _ \<Rightarrow> handleFrame ops lvl f c)"

text \<open>Handling frames in order up to the first error: the specification of the loop.\<close>

fun handle_spec :: "'c conn_ops \<Rightarrow> EncryptionLevel \<Rightarrow> qframe list \<Rightarrow> PathChallengeFrame option \<Rightarrow> 'c
    \<Rightarrow> PathChallengeFrame option \<times> conn_error option \<times> 'c" where
  "handle_spec ops lvl [] pc c = (pc, None, c)"
| "handle_spec ops lvl (f # fs) pc c =
     (let (pc', err, c) = dispatch ops lvl f c; pc = (if pc' \<noteq> None then pc' else pc) in
      if err \<noteq> None then (pc, err, c) else handle_spec ops lvl fs pc c)"

lemma handle_parsed_dispatch:
  assumes "\<not> hf_skipHandling s" "dispatch ops lvl f (hf_conn s) = (pc, err, c)"
  shows "handle_parsed ops lvl logging f s =
    (let s = s\<lparr>hf_frames := (if logging then hf_frames s @ [f] else hf_frames s),
               hf_pathChallenge := (if pc \<noteq> None then pc else hf_pathChallenge s), hf_handleErr := err, hf_conn := c\<rparr> in
     if err = None then Inr s
     else if logging then Inr (s\<lparr>hf_skipHandling := True\<rparr>) else Inl (the err, s\<lparr>hf_skipHandling := True\<rparr>))"
  using assms by (cases err) (auto simp: handle_parsed_def dispatch_def Let_def split: qframe.splits)

lemma note_type_simps [simp]:
  "hf_pathChallenge (note_type t s) = hf_pathChallenge s" "hf_frames (note_type t s) = hf_frames s"
  "hf_handleErr (note_type t s) = hf_handleErr s" "hf_skipHandling (note_type t s) = hf_skipHandling s"
  "hf_conn (note_type t s) = hf_conn s"
  by (simp_all add: note_type_def)

lemma handle_list_skipping:
  assumes "hf_skipHandling s"
  shows "\<exists>s'. handle_list ops lvl True fs s = Inr s' \<and> hf_conn s' = hf_conn s \<and> hf_handleErr s' = hf_handleErr s
    \<and> hf_pathChallenge s' = hf_pathChallenge s \<and> hf_frames s' = hf_frames s @ fs"
  using assms
proof (induction fs arbitrary: s)
  case (Cons f fs)
  then show ?case
    using Cons.IH [of "(note_type (qframe_type f) s)\<lparr>hf_frames := hf_frames s @ [f]\<rparr>"]
    by (simp add: handle_parsed_def Let_def)
qed simp

lemma handle_list_ok:
  assumes "\<not> hf_skipHandling s" "hf_handleErr s = None" "handle_spec ops lvl fs (hf_pathChallenge s) (hf_conn s) = (pc, None, c)"
  shows "handle_list ops lvl logging fs s =
    Inr (s\<lparr>hf_isAckEliciting := hf_isAckEliciting s \<or> (\<exists>f\<in>set fs. IsFrameTypeAckEliciting (qframe_type f)),
           hf_isNonProbing := hf_isNonProbing s \<or> (\<exists>f\<in>set fs. \<not> IsProbingFrameType (qframe_type f)),
           hf_pathChallenge := pc, hf_frames := hf_frames s @ (if logging then fs else []), hf_conn := c\<rparr>)"
  using assms
proof (induction fs arbitrary: s)
  case (Cons f fs)
  obtain pc' c' where d: "dispatch ops lvl f (hf_conn s) = (pc', None, c')"
    using Cons.prems(3) by (cases "dispatch ops lvl f (hf_conn s)") (auto simp: Let_def split: if_splits)
  then show ?case
    using Cons.prems handle_parsed_dispatch [of "note_type (qframe_type f) s" ops lvl f pc' None c' logging]
      Cons.IH [of "(note_type (qframe_type f) s)\<lparr>hf_frames := (if logging then hf_frames s @ [f] else hf_frames s),
        hf_pathChallenge := (if pc' \<noteq> None then pc' else hf_pathChallenge s), hf_handleErr := None, hf_conn := c'\<rparr>"]
    by (auto simp: Let_def note_type_def intro: frames_state.equality)
qed simp

lemma handle_list_error:
  assumes "\<not> hf_skipHandling s" "hf_handleErr s = None" "handle_spec ops lvl fs (hf_pathChallenge s) (hf_conn s) = (pc, Some e, c)"
  shows "if logging then (\<exists>s'. handle_list ops lvl True fs s = Inr s' \<and> hf_handleErr s' = Some e \<and> hf_conn s' = c
      \<and> hf_frames s' = hf_frames s @ fs)
    else (\<exists>s'. handle_list ops lvl False fs s = Inl (e, s') \<and> hf_conn s' = c)"
  using assms
proof (induction fs arbitrary: s)
  case (Cons f fs)
  obtain pc' err c' where d: "dispatch ops lvl f (hf_conn s) = (pc', err, c')"
    by (cases "dispatch ops lvl f (hf_conn s)")
  let ?s = "(note_type (qframe_type f) s)\<lparr>hf_frames := (if logging then hf_frames s @ [f] else hf_frames s),
        hf_pathChallenge := (if pc' \<noteq> None then pc' else hf_pathChallenge s), hf_handleErr := err, hf_conn := c'\<rparr>"
  note step = handle_parsed_dispatch [of "note_type (qframe_type f) s" ops lvl f pc' err c' logging]
  show ?case
  proof (cases err)
    case None
    then show ?thesis using Cons.prems d step Cons.IH [of ?s] by (cases logging) (simp_all add: Let_def split: if_splits)
  next
    case (Some e')
    then have "e' = e" "c' = c" using Cons.prems(3) d by (auto simp: Let_def split: if_splits)
    then show ?thesis
      using Some Cons.prems d step handle_list_skipping [of "?s\<lparr>hf_skipHandling := True\<rparr>" ops lvl fs]
      by (cases logging) (auto simp: Let_def)
  qed
qed simp

section \<open>Properties\<close>

text \<open>C1: The receiving loop implements the specification by frames. For every payload that consists of well-formed
  frames the connection may receive, with any padding between and after them, and for all handlers:
  \<open>handleFrames\<close> hands the frames to their handlers in order, each once, up to the first error; with an error it
  returns that error; otherwise it reports an ack-eliciting packet exactly when some frame is ack-eliciting, a
  non-probing packet exactly when some frame is not a probing frame, and the last path challenge, and completes
  the handshake if the frames completed it. Tracing logs all frames and changes nothing else.\<close>

theorem handleFrames_implements_spec:
  assumes "receivable p lvl fs" "handle_spec ops lvl (map snd fs) None c = (pc, err, c')"
  shows "handleFrames ops p lvl logging (payload_bytes fs n) c =
    (let logged = (if logging then Some (map snd fs) else None);
         result = Inr (HasAckElicitingFrames (map snd fs), \<exists>f\<in>set (map snd fs). \<not> IsProbingFrame f, pc) in
     case err of Some e \<Rightarrow> (Inl e, logged, c')
     | None \<Rightarrow>
         if \<not> handshakeComplete ops c \<and> handshakeComplete ops c' then
           (case handleHandshakeComplete ops c' of (Some e, c'') \<Rightarrow> (Inl e, logged, c'') | (None, c'') \<Rightarrow> (result, logged, c''))
         else (result, logged, c'))"
proof -
  let ?s = "\<lparr>hf_isAckEliciting = False, hf_isNonProbing = False, hf_pathChallenge = None, hf_frames = [],
             hf_handleErr = None, hf_skipHandling = False, hf_conn = c\<rparr>"
  have loop: "handleFrames_loop ops p lvl logging (payload_bytes fs n) ?s = handle_list ops lvl logging (map snd fs) ?s"
    by (rule loop_refines [OF assms(1)])
  have classes: "IsFrameTypeAckEliciting (qframe_type f) = IsFrameAckEliciting f"
    "IsProbingFrameType (qframe_type f) = IsProbingFrame f" for f using frame_classes_agree by blast+
  show ?thesis
  proof (cases err)
    case None
    then show ?thesis
      using handle_list_ok [of ?s ops lvl "map snd fs" pc c' logging] assms(2) loop
      by (cases logging) (simp_all add: handleFrames_def Let_def classes HasAckEliciting_iff)
  next
    case (Some e)
    then show ?thesis
      using handle_list_error [of ?s ops lvl "map snd fs" pc e c' logging] assms(2) loop
      by (cases logging) (auto simp: handleFrames_def Let_def)
  qed
qed

theorem handleFrames_implements_spec_witness:
  "\<forall>ops :: nat conn_ops. handleFrames ops (NewFrameParser False False False) EncryptionInitial False
      (payload_bytes [(2, QPing), (0, QPing)] 3) 7 = (Inr (True, True, None), None, 7)"
proof
  fix ops :: "nat conn_ops"
  have "receivable (NewFrameParser False False False) EncryptionInitial [(2, QPing), (0, QPing)]"
    by (simp add: receivable_def exponent_ok_def frame_allowed_def type_valid_def isValidRFC9000_def
        isAllowedAtEncLevel_def word_le_nat_alt)
  moreover have "handle_spec ops EncryptionInitial (map snd [(2 :: nat, QPing), (0, QPing)]) None 7 = (None, None, 7)"
    by (simp add: dispatch_def plain_def)
  ultimately show "handleFrames ops (NewFrameParser False False False) EncryptionInitial False
      (payload_bytes [(2, QPing), (0, QPing)] 3) 7 = (Inr (True, True, None), None, 7)"
    using handleFrames_implements_spec [of "NewFrameParser False False False" EncryptionInitial "[(2, QPing), (0, QPing)]"
        ops 7 None None 7 False 3]
    by (simp add: IsFrameAckEliciting_def Let_def)
qed

text \<open>C33: A packet at the Initial or Handshake level is rejected as soon as a frame follows that is not allowed there:
  for every sequence of receivable frames before it that the handlers accept, and whatever bytes come after it, a
  frame the level does not allow makes \<open>handleFrames\<close> return a frame encoding error with that frame's type.\<close>

theorem handleFrames_rejects_level:
  assumes "receivable p lvl fs" "handle_spec ops lvl (map snd fs) None c = (pc, None, c')" "qframe_ok f"
    and "type_valid p (qframe_type f)" "isAllowedAtEncLevel (qframe_type f) lvl = Some False"
  shows "handleFrames ops p lvl logging (payload_bytes fs n @ qenc f @ rest) c =
    (Inl (FrameError (FrameEncodingError (qframe_type f) (NotAllowedAtLevel lvl))), None, c')"
proof -
  let ?s = "\<lparr>hf_isAckEliciting = False, hf_isNonProbing = False, hf_pathChallenge = None, hf_frames = [],
             hf_handleErr = None, hf_skipHandling = False, hf_conn = c\<rparr>"
  have "exponent_ok p lvl" using assms(1) by (simp add: receivable_def)
  then have bad: "handleFrames_loop ops p lvl logging (replicate n 0 @ qenc f @ rest) s
      = Inl (FrameError (FrameEncodingError (qframe_type f) (NotAllowedAtLevel lvl)), s)" for s
    using loop_level_error assms(3-5) by blast
  have "payload_bytes fs n @ qenc f @ rest = payload_bytes fs 0 @ replicate n 0 @ qenc f @ rest"
    by (simp add: payload_bytes_append [of fs n])
  then show ?thesis
    using loop_prefix [OF assms(1), of ops logging "replicate n 0 @ qenc f @ rest" ?s]
      handle_list_ok [of ?s ops lvl "map snd fs" pc c' logging] assms(2)
    by (simp add: handleFrames_def Let_def bad)
qed

theorem handleFrames_rejects_level_witness:
  "\<forall>ops :: nat conn_ops. handleFrames ops (NewFrameParser False False False) EncryptionInitial False
      (payload_bytes [(2, QPing)] 3 @ qenc QHandshakeDone @ [1, 2]) 7
    = (Inl (FrameError (FrameEncodingError FrameTypeHandshakeDone (NotAllowedAtLevel EncryptionInitial))), None, 7)"
proof
  fix ops :: "nat conn_ops"
  let ?p = "NewFrameParser False False False"
  have "receivable ?p EncryptionInitial [(2, QPing)]"
    by (simp add: receivable_def exponent_ok_def frame_allowed_def type_valid_def isValidRFC9000_def
        isAllowedAtEncLevel_def word_le_nat_alt)
  moreover have "handle_spec ops EncryptionInitial (map snd [(2 :: nat, QPing)]) None 7 = (None, None, 7)"
    by (simp add: dispatch_def plain_def)
  ultimately show "handleFrames ops ?p EncryptionInitial False
      (payload_bytes [(2, QPing)] 3 @ qenc QHandshakeDone @ [1, 2]) 7
    = (Inl (FrameError (FrameEncodingError FrameTypeHandshakeDone (NotAllowedAtLevel EncryptionInitial))), None, 7)"
    using handleFrames_rejects_level [of ?p EncryptionInitial "[(2, QPing)]" ops 7 None 7 QHandshakeDone False 3 "[1, 2]"]
    by (simp add: type_valid_def isValidRFC9000_def isAllowedAtEncLevel_def)
qed

end
