(* ===== verification/Quic_Frame_Sorter.thy ===== *)
theory Quic_Frame_Sorter
  imports Quic_Stream_Frames "HOL-Library.AList" "HOL-Library.Multiset"
begin

text \<open>
  The frame sorter (\<open>quic/frame_sorter.go\<close>), which puts the data of STREAM and CRYPTO frames into order:
  frames arrive in any order, overlap and repeat, and the reader takes contiguous data from the read position.

  The queue is a Go map, here an association list; nothing depends on its order. The gaps are a linked list; an element
  of it is represented by the list cut at that element, so \<open>findStartGap\<close> returns the elements before, the
  element and the elements after. A \<open>DoneCb\<close> is a number, and every operation returns the callbacks it has
  called, in order. A panic is the left side of the result.

  The specification is a byte stream and the set of its offsets that have arrived. The invariant \<open>sorter_inv\<close> ties the
  sorter to it, and this theory shows what each loop of a push does to it; \<open>Quic_Frame_Sorter_Spec\<close> puts them together.
\<close>

abbreviation MaxStreamFrameSorterGaps :: nat where "MaxStreamFrameSorterGaps \<equiv> 1000"

record byteInterval =
  bi_Start :: ByteCount
  bi_End :: ByteCount

record frameSorterEntry =
  fe_Data :: bytes
  fe_DoneCb :: "nat option"

type_synonym sorter_queue = "(ByteCount \<times> frameSorterEntry) list"

record frameSorter =
  fs_queue :: sorter_queue
  fs_readPos :: ByteCount
  fs_gaps :: "byteInterval list"

datatype sorter_panic = NoGapFound | NilGap | GapsOutOfOrder | ReadPosBeyondGap | SorterSlice panic

datatype push_outcome = Stored | DuplicateStreamData | TooManyGaps

definition newFrameSorter :: frameSorter where
  "newFrameSorter = \<lparr>fs_queue = [], fs_readPos = 0, fs_gaps = [\<lparr>bi_Start = 0, bi_End = MaxByteCount\<rparr>]\<rparr>"

fun findStartGap :: "byteInterval list \<Rightarrow> byteInterval list \<Rightarrow> ByteCount
    \<Rightarrow> sorter_panic + (byteInterval list \<times> byteInterval \<times> byteInterval list \<times> bool)" where
  "findStartGap pre [] offset = Inl NoGapFound"
| "findStartGap pre (gap # rest) offset =
     (if offset \<ge> bi_Start gap \<and> offset \<le> bi_End gap then Inr (pre, gap, rest, True)
      else if offset < bi_Start gap then Inr (pre, gap, rest, False)
      else findStartGap (pre @ [gap]) rest offset)"

text \<open>The gap in which a frame ends, seen from the gap in which it starts: that gap, one after it (with the gaps between
  and after), or the one before it, if there is one.\<close>

datatype end_gap =
    SameGap bool
  | LaterGap "byteInterval list" byteInterval "byteInterval list" bool
  | PreviousGap "byteInterval option"

text \<open>\<open>findEndGap_after\<close> continues the loop behind \<open>startGap\<close>; \<open>gap.Prev()\<close> is the last element passed.\<close>

fun findEndGap_after :: "byteInterval list \<Rightarrow> byteInterval list \<Rightarrow> ByteCount \<Rightarrow> sorter_panic + end_gap" where
  "findEndGap_after mid [] offset = Inl NoGapFound"
| "findEndGap_after mid (gap # post) offset =
     (if offset \<ge> bi_Start gap \<and> offset < bi_End gap then Inr (LaterGap mid gap post True)
      else if offset < bi_Start gap then
        Inr (if mid = [] then SameGap False else LaterGap (butlast mid) (last mid) (gap # post) False)
      else findEndGap_after (mid @ [gap]) post offset)"

definition findEndGap ::
  "byteInterval list \<Rightarrow> byteInterval \<Rightarrow> byteInterval list \<Rightarrow> ByteCount \<Rightarrow> sorter_panic + end_gap" where
  "findEndGap pre startGap rest offset =
     (if offset \<ge> bi_Start startGap \<and> offset < bi_End startGap then Inr (SameGap True)
      else if offset < bi_Start startGap then Inr (PreviousGap (if pre = [] then None else Some (last pre)))
      else findEndGap_after [] rest offset)"

definition called :: "nat option \<Rightarrow> nat list" where
  "called cb = (case cb of None \<Rightarrow> [] | Some n \<Rightarrow> [n])"

lemma delete_shorter [termination_simp]:
  "map_of q pos = Some e \<Longrightarrow> length (AList.delete pos q) < length q"
  by (induction q) (auto simp: AList.delete_eq intro: le_imp_less_Suc)

text \<open>The loop over the entries a new frame replaces. \<open>None\<close> is the return of a duplicate; otherwise the queue, the
  position where the frame is cut, if it is, whether an entry was replaced, and the callbacks.\<close>

function replace_loop :: "sorter_queue \<Rightarrow> ByteCount \<Rightarrow> ByteCount \<Rightarrow> bool \<Rightarrow> nat list
    \<Rightarrow> (sorter_queue \<times> ByteCount option \<times> bool \<times> nat list) option" where
  "replace_loop queue end pos hasReplaced cbs =
     (case map_of queue pos of
        None \<Rightarrow> Some (queue, None, hasReplaced, cbs)
      | Some oldEntry \<Rightarrow>
          let oldEntryLen = int (length (fe_Data oldEntry)) in
          if end - pos > oldEntryLen \<or> (hasReplaced \<and> end - pos = oldEntryLen)
          then replace_loop (AList.delete pos queue) end (pos + oldEntryLen) True (cbs @ called (fe_DoneCb oldEntry))
          else if \<not> hasReplaced then None
          else Some (queue, Some pos, hasReplaced, cbs))"
  by pat_completeness auto
termination
  by (relation "measure (\<lambda>(queue, end, pos, hasReplaced, cbs). length queue)") (auto simp: delete_shorter)

function deleteConsecutive :: "sorter_queue \<Rightarrow> ByteCount \<Rightarrow> nat list \<Rightarrow> sorter_queue \<times> nat list" where
  "deleteConsecutive queue pos cbs =
     (case map_of queue pos of
        None \<Rightarrow> (queue, cbs)
      | Some oldEntry \<Rightarrow>
          deleteConsecutive (AList.delete pos queue) (pos + int (length (fe_Data oldEntry)))
            (cbs @ called (fe_DoneCb oldEntry)))"
  by pat_completeness auto
termination
  by (relation "measure (\<lambda>(queue, pos, cbs). length queue)") (auto simp: delete_shorter)

declare replace_loop.simps [simp del] deleteConsecutive.simps [simp del]

text \<open>The loop over the gaps between the two: a gap before \<open>endGapStart\<close> is removed with the frames behind it.\<close>

fun delete_between :: "sorter_queue \<Rightarrow> ByteCount \<Rightarrow> byteInterval list \<Rightarrow> nat list
    \<Rightarrow> sorter_queue \<times> byteInterval list \<times> nat list" where
  "delete_between queue endGapStart [] cbs = (queue, [], cbs)"
| "delete_between queue endGapStart (gap # mid) cbs =
     (if bi_End gap < endGapStart then
        let (queue, cbs) = deleteConsecutive queue (bi_End gap) cbs in delete_between queue endGapStart mid cbs
      else (queue, gap # mid, cbs))"

text \<open>A slice of the frame's data; the bounds are \<open>ByteCount\<close>s.\<close>

definition data_slice :: "bytes \<Rightarrow> ByteCount \<Rightarrow> ByteCount \<Rightarrow> sorter_panic + bytes" where
  "data_slice data a b =
     (if a < 0 \<or> b < 0 then Inl (SorterSlice SliceOutOfRange) else slice SorterSlice data (nat a) (nat b))"

text \<open>The end of \<open>push\<close>: a small piece is copied so that its buffer can be released, and the entry is stored.\<close>

definition store_entry :: "frameSorter \<Rightarrow> bytes \<Rightarrow> ByteCount \<Rightarrow> nat option \<Rightarrow> bool \<Rightarrow> sorter_queue \<Rightarrow> byteInterval list \<Rightarrow> nat list
    \<Rightarrow> push_outcome \<times> frameSorter \<times> nat list" where
  "store_entry s data start doneCb wasCut queue gaps cbs =
     (let (cbs, doneCb) =
            (if wasCut \<and> length data < MinStreamFrameBufferSize then (cbs @ called doneCb, None) else (cbs, doneCb)) in
      if length gaps > MaxStreamFrameSorterGaps then (TooManyGaps, s\<lparr>fs_queue := queue, fs_gaps := gaps\<rparr>, cbs)
      else
        (Stored, s\<lparr>fs_queue := (start, \<lparr>fe_Data = data, fe_DoneCb = doneCb\<rparr>) # AList.delete start queue,
                   fs_gaps := gaps\<rparr>, cbs))"

text \<open>The part of \<open>push\<close> after the two gaps are found. \<open>endGap\<close> is \<open>None\<close> if it is \<open>startGap\<close>.\<close>

definition push_into ::
  "frameSorter \<Rightarrow> bytes \<Rightarrow> ByteCount \<Rightarrow> nat option \<Rightarrow> byteInterval list \<Rightarrow> byteInterval \<Rightarrow> byteInterval list \<Rightarrow> bool
    \<Rightarrow> (byteInterval list \<times> byteInterval \<times> byteInterval list) option \<Rightarrow> bool
    \<Rightarrow> sorter_panic + (push_outcome \<times> frameSorter \<times> nat list)" where
  "push_into s data start doneCb pre startGap rest startsInGap endGap endsInGap =
     (let end = start + int (length data);
          startGapEnd = bi_End startGap;
          endGapStart = (case endGap of None \<Rightarrow> bi_Start startGap | Some (_, g, _) \<Rightarrow> bi_Start g);
          endGapEnd = (case endGap of None \<Rightarrow> bi_End startGap | Some (_, g, _) \<Rightarrow> bi_End g) in
      case replace_loop (fs_queue s) end start False [] of
        None \<Rightarrow> Inr (DuplicateStreamData, s, [])
      | Some (queue, cutPos, hasReplacedAtLeastOne, cbs) \<Rightarrow>
      rbind (case cutPos of None \<Rightarrow> Inr (data, end, False)
             | Some pos \<Rightarrow> rbind (data_slice data 0 (pos - start)) (\<lambda>data. Inr (data, pos, True))) (\<lambda>(data, end, wasCut).
      rbind (if \<not> startsInGap \<and> \<not> hasReplacedAtLeastOne then
               rbind (data_slice data (bi_Start startGap - start) (int (length data))) (\<lambda>data.
               Inr (data, bi_Start startGap, True))
             else Inr (data, start, wasCut)) (\<lambda>(data, start, wasCut).
      let (startGap', adjustedStartGapEnd) =
            (if start \<le> bi_Start startGap then
               (if end \<ge> bi_End startGap then [] else [startGap\<lparr>bi_Start := end\<rparr>], False)
             else if \<not> hasReplacedAtLeastOne then ([startGap\<lparr>bi_End := start\<rparr>], True)
             else ([startGap], False));
          (queue, mid, cbs) =
            (case endGap of None \<Rightarrow> (queue, [], cbs)
             | Some (mid, _, _) \<Rightarrow>
                 let (queue, cbs) = deleteConsecutive queue startGapEnd cbs in
                 delete_between queue endGapStart mid cbs) in
      rbind (if \<not> endsInGap \<and> start \<noteq> endGapEnd \<and> end > endGapEnd then
               rbind (data_slice data 0 (endGapEnd - start)) (\<lambda>data. Inr (data, endGapEnd, True))
             else Inr (data, end, wasCut)) (\<lambda>(data, end, wasCut).
      let gaps =
            (case endGap of
               None \<Rightarrow>
                 pre @ startGap'
                 @ (if end \<noteq> endGapEnd \<and> adjustedStartGapEnd then [\<lparr>bi_Start = end, bi_End = startGapEnd\<rparr>] else [])
                 @ rest
             | Some (_, g, post) \<Rightarrow>
                 pre @ startGap' @ mid @ (if end = endGapEnd then [] else [g\<lparr>bi_Start := end\<rparr>]) @ post) in
      Inr (store_entry s data start doneCb wasCut queue gaps cbs)))))"

text \<open>The gap before \<open>startGap\<close> starts before \<open>startGap\<close> ends, in an ordered list.\<close>

definition push ::
  "frameSorter \<Rightarrow> bytes \<Rightarrow> ByteCount \<Rightarrow> nat option \<Rightarrow> sorter_panic + (push_outcome \<times> frameSorter \<times> nat list)" where
  "push s data offset doneCb =
     (if length data = 0 then Inr (DuplicateStreamData, s, [])
      else
        let start = offset; end = offset + int (length data) in
        case fs_gaps s of [] \<Rightarrow> Inl NilGap
        | front # _ \<Rightarrow>
        if end \<le> bi_Start front then Inr (DuplicateStreamData, s, [])
        else
          rbind (findStartGap [] (fs_gaps s) start) (\<lambda>(pre, startGap, rest, startsInGap).
          rbind (findEndGap pre startGap rest end) (\<lambda>endGap.
          case endGap of
            PreviousGap None \<Rightarrow> Inl NilGap
          | PreviousGap (Some g) \<Rightarrow>
              if bi_End startGap \<ge> bi_Start g \<and> end \<le> bi_Start startGap then Inr (DuplicateStreamData, s, [])
              else Inl GapsOutOfOrder
          | SameGap endsInGap \<Rightarrow>
              if end \<le> bi_Start startGap then Inr (DuplicateStreamData, s, [])
              else push_into s data start doneCb pre startGap rest startsInGap None endsInGap
          | LaterGap mid g post endsInGap \<Rightarrow>
              if bi_End startGap \<ge> bi_Start g \<and> end \<le> bi_Start startGap then Inr (DuplicateStreamData, s, [])
              else push_into s data start doneCb pre startGap rest startsInGap (Some (mid, g, post)) endsInGap)))"

text \<open>\<open>Push\<close> calls the callback of a duplicate itself.\<close>

definition Push ::
  "frameSorter \<Rightarrow> bytes \<Rightarrow> ByteCount \<Rightarrow> nat option \<Rightarrow> sorter_panic + (bool \<times> frameSorter \<times> nat list)" where
  "Push s data offset doneCb =
     rbind (push s data offset doneCb) (\<lambda>(outcome, s, cbs).
     Inr (case outcome of DuplicateStreamData \<Rightarrow> (True, s, cbs @ called doneCb)
          | Stored \<Rightarrow> (True, s, cbs) | TooManyGaps \<Rightarrow> (False, s, cbs)))"

definition Pop :: "frameSorter \<Rightarrow> sorter_panic + (ByteCount \<times> bytes option \<times> nat option \<times> frameSorter)" where
  "Pop s =
     (case map_of (fs_queue s) (fs_readPos s) of
        None \<Rightarrow> Inr (fs_readPos s, None, None, s)
      | Some entry \<Rightarrow>
          let offset = fs_readPos s;
              s = s\<lparr>fs_queue := AList.delete (fs_readPos s) (fs_queue s),
                    fs_readPos := fs_readPos s + int (length (fe_Data entry))\<rparr> in
          case fs_gaps s of [] \<Rightarrow> Inl NilGap
          | front # _ \<Rightarrow>
              if bi_End front \<le> fs_readPos s then Inl ReadPosBeyondGap
              else Inr (offset, Some (fe_Data entry), fe_DoneCb entry, s))"

definition HasMoreData :: "frameSorter \<Rightarrow> bool" where
  "HasMoreData s = (length (fs_queue s) > 0)"

text \<open>\<open>Peek\<close>: the two loops, each with \<open>fuel\<close> turns; \<open>None\<close> is a loop that has not ended. An entry holds at least
  one byte, so that a turn per byte is enough.\<close>

fun peek_check :: "nat \<Rightarrow> sorter_queue \<Rightarrow> ByteCount \<Rightarrow> nat \<Rightarrow> bool option" where
  "peek_check 0 queue pos left = None"
| "peek_check (Suc fuel) queue pos left =
     (if left = 0 then Some True
      else case map_of queue pos of
        None \<Rightarrow> Some False
      | Some entry \<Rightarrow>
          if left \<le> length (fe_Data entry) then Some True
          else peek_check fuel queue (pos + int (length (fe_Data entry))) (left - length (fe_Data entry)))"

fun peek_copy :: "nat \<Rightarrow> sorter_queue \<Rightarrow> ByteCount \<Rightarrow> nat \<Rightarrow> bytes \<Rightarrow> bytes option" where
  "peek_copy 0 queue pos n copied = None"
| "peek_copy (Suc fuel) queue pos n copied =
     (if length copied < n then
        let entry = (case map_of queue pos of None \<Rightarrow> [] | Some e \<Rightarrow> fe_Data e) in
        peek_copy fuel queue (pos + int (length entry)) n (copied @ take (n - length copied) entry)
      else Some copied)"

text \<open>The outer option is whether the call returns, the inner one the bytes, \<open>None\<close> for \<open>errTooLittleData\<close>.\<close>

definition Peek :: "frameSorter \<Rightarrow> ByteCount \<Rightarrow> nat \<Rightarrow> bytes option option" where
  "Peek s offset n =
     (if n = 0 then Some (Some [])
      else case peek_check (Suc n) (fs_queue s) offset n of
        None \<Rightarrow> None
      | Some False \<Rightarrow> Some None
      | Some True \<Rightarrow> map_option Some (peek_copy (Suc n) (fs_queue s) offset n []))"

section \<open>The state as sets of offsets\<close>

definition ivl :: "byteInterval \<Rightarrow> int set" where
  "ivl g = {bi_Start g..<bi_End g}"

definition gap_set :: "byteInterval list \<Rightarrow> int set" where
  "gap_set gs = (\<Union>g\<in>set gs. ivl g)"

lemma gap_set_simps [simp]:
  "gap_set [] = {}" "gap_set (g # gs) = ivl g \<union> gap_set gs" "gap_set (gs @ hs) = gap_set gs \<union> gap_set hs"
  by (auto simp: gap_set_def)

text \<open>Gaps are not empty, do not touch, and the last one has no end.\<close>

definition gaps_ok :: "byteInterval list \<Rightarrow> bool" where
  "gaps_ok gs = (sorted_wrt (\<lambda>g h. bi_End g < bi_Start h) gs \<and> (\<forall>g\<in>set gs. 0 \<le> bi_Start g \<and> bi_Start g < bi_End g)
     \<and> gs \<noteq> [] \<and> bi_End (last gs) = MaxByteCount)"

abbreviation span :: "int \<Rightarrow> frameSorterEntry \<Rightarrow> int set" where
  "span p e \<equiv> {p..<p + int (length (fe_Data e))}"

definition queued :: "sorter_queue \<Rightarrow> int set" where
  "queued q = {x. \<exists>p e. map_of q p = Some e \<and> x \<in> span p e}"

text \<open>The data is that of the stream \<open>S\<close> from an offset on.\<close>

definition matches :: "(int \<Rightarrow> byte) \<Rightarrow> int \<Rightarrow> bytes \<Rightarrow> bool" where
  "matches S a data = (\<forall>i<length data. data ! i = S (a + int i))"

definition queue_ok :: "(int \<Rightarrow> byte) \<Rightarrow> sorter_queue \<Rightarrow> bool" where
  "queue_ok S q = (distinct (map fst q)
     \<and> (\<forall>p e. map_of q p = Some e \<longrightarrow> fe_Data e \<noteq> [] \<and> matches S p (fe_Data e))
     \<and> (\<forall>p e p' e'. map_of q p = Some e \<longrightarrow> map_of q p' = Some e' \<longrightarrow> p < p' \<longrightarrow> p + int (length (fe_Data e)) \<le> p'))"

text \<open>\<open>R\<close> is the set of offsets received so far.\<close>

definition sorter_inv :: "(int \<Rightarrow> byte) \<Rightarrow> int set \<Rightarrow> frameSorter \<Rightarrow> bool" where
  "sorter_inv S R s = (gaps_ok (fs_gaps s) \<and> queue_ok S (fs_queue s) \<and> 0 \<le> fs_readPos s
     \<and> R = {0..<MaxByteCount} - gap_set (fs_gaps s) \<and> {0..<fs_readPos s} \<subseteq> R
     \<and> queued (fs_queue s) = R \<inter> {fs_readPos s..})"

text \<open>The callbacks held by the queue.\<close>

definition held :: "sorter_queue \<Rightarrow> nat multiset" where
  "held q = mset (concat (map (\<lambda>(p, e). called (fe_DoneCb e)) q))"

lemma queue_okD:
  assumes "queue_ok S q" "map_of q p = Some e"
  shows "0 < length (fe_Data e)" "matches S p (fe_Data e)" "{p..<p + int (length (fe_Data e))} \<subseteq> queued q"
    "map_of q p' = Some e' \<Longrightarrow> p < p' \<Longrightarrow> p + int (length (fe_Data e)) \<le> p'"
proof -
  show "{p..<p + int (length (fe_Data e))} \<subseteq> queued q"
    using assms(2) by (auto simp: queued_def intro!: exI [of _ p] exI [of _ e])
qed (use assms in \<open>auto simp: queue_ok_def\<close>)

lemma key_queued: "queue_ok S q \<Longrightarrow> map_of q p = Some e \<Longrightarrow> p \<in> queued q"
  using queue_okD(1,3) [of S q p e] by (auto simp: subset_iff)

lemma queuedE:
  assumes "x \<in> queued q"
  obtains p e where "map_of q p = Some e" "p \<le> x" "x < p + int (length (fe_Data e))"
  using assms by (auto simp: queued_def)

text \<open>A queued offset whose predecessor is not queued is where an entry starts.\<close>

lemma queued_boundary:
  assumes "x \<in> queued q" "x - 1 \<notin> queued q"
  shows "\<exists>e. map_of q x = Some e"
proof -
  obtain p e where p: "map_of q p = Some e" "p \<le> x" "x < p + int (length (fe_Data e))"
    using assms(1) by (rule queuedE)
  have "p = x"
  proof (rule ccontr)
    assume "p \<noteq> x"
    then have "x - 1 \<in> queued q" using p by (auto simp: queued_def intro!: exI [of _ p] exI [of _ e])
    then show False using assms(2) by simp
  qed
  then show ?thesis using p by auto
qed

lemma held_delete:
  assumes "distinct (map fst q)" "map_of q p = Some e"
  shows "held q = held (AList.delete p q) + mset (called (fe_DoneCb e))"
  using assms
proof (induction q)
  case (Cons a q)
  obtain k v where a: "a = (k, v)" by (cases a)
  show ?case
  proof (cases "k = p")
    case True
    then have "p \<notin> fst ` set q" using Cons.prems(1) a by simp
    then have "AList.delete p q = q" by (force simp: AList.delete_eq filter_id_conv)
    then show ?thesis using True Cons.prems(2) a by (simp add: held_def)
  next
    case False
    then show ?thesis using Cons a by (simp add: held_def)
  qed
qed simp

lemma queue_ok_delete:
  assumes "queue_ok S q" "map_of q p = Some e"
  shows "queue_ok S (AList.delete p q)" "queued (AList.delete p q) = queued q - span p e"
    "held q = held (AList.delete p q) + mset (called (fe_DoneCb e))"
proof -
  have m: "map_of (AList.delete p q) x = (if x = p then None else map_of q x)" for x
    by (simp add: delete_conv')
  have d: "distinct (map fst (AList.delete p q))" using assms(1) by (simp add: queue_ok_def distinct_delete)
  show "queue_ok S (AList.delete p q)" using assms(1) d unfolding queue_ok_def m by auto
  show "queued (AList.delete p q) = queued q - span p e"
  proof (intro set_eqI iffI)
    fix x
    assume "x \<in> queued (AList.delete p q)"
    then obtain p' e' where x: "map_of (AList.delete p q) p' = Some e'" "p' \<le> x" "x < p' + int (length (fe_Data e'))"
      by (rule queuedE)
    then have p': "map_of q p' = Some e'" "p' \<noteq> p" by (auto simp: m split: if_splits)
    have "p' + int (length (fe_Data e')) \<le> p \<or> p + int (length (fe_Data e)) \<le> p'"
      using queue_okD(4) [OF assms(1) p'(1) assms(2)] queue_okD(4) [OF assms p'(1)] p'(2) by force
    then show "x \<in> queued q - span p e" using x p' by (auto simp: queued_def)
  next
    fix x
    assume x: "x \<in> queued q - span p e"
    then obtain p' e' where x': "map_of q p' = Some e'" "p' \<le> x" "x < p' + int (length (fe_Data e'))"
      using queuedE by blast
    then have "p' \<noteq> p" using x assms(2) by auto
    then show "x \<in> queued (AList.delete p q)" using x' by (auto simp: queued_def m)
  qed
  show "held q = held (AList.delete p q) + mset (called (fe_DoneCb e))"
    using held_delete assms by (simp add: queue_ok_def)
qed

section \<open>Runs of entries\<close>

text \<open>Consecutive entries from one offset to another.\<close>

inductive tiles :: "sorter_queue \<Rightarrow> int \<Rightarrow> int \<Rightarrow> bool" for q where
  tiles_nil: "tiles q a a"
| tiles_step: "map_of q a = Some e \<Longrightarrow> tiles q (a + int (length (fe_Data e))) b \<Longrightarrow> tiles q a b"

lemma tiles_le: "queue_ok S q \<Longrightarrow> tiles q a b \<Longrightarrow> a \<le> b"
  by (rotate_tac 1, induction rule: tiles.induct) auto

lemma tiles_queued:
  assumes "queue_ok S q" "tiles q a b"
  shows "{a..<b} \<subseteq> queued q"
  using assms(2)
proof (induction rule: tiles.induct)
  case (tiles_step a e b)
  have "{a..<b} \<subseteq> span a e \<union> {a + int (length (fe_Data e))..<b}" by auto
  then show ?case using tiles_step queue_okD(3) [OF assms(1) tiles_step(1)] by blast
qed simp

text \<open>A run removed from the queue: what both loops do.\<close>

definition run_removed :: "(int \<Rightarrow> byte) \<Rightarrow> sorter_queue \<Rightarrow> int \<Rightarrow> int \<Rightarrow> sorter_queue \<Rightarrow> nat list \<Rightarrow> bool" where
  "run_removed S q a b q' cbs = (a \<le> b \<and> tiles q a b \<and> queue_ok S q' \<and> queued q' = queued q - {a..<b}
     \<and> held q = held q' + mset cbs \<and> (\<forall>x. map_of q' x = (if a \<le> x \<and> x < b then None else map_of q x)))"

lemma run_removed_nil: "queue_ok S q \<Longrightarrow> run_removed S q a a q []"
  by (auto simp: run_removed_def tiles_nil)

lemma tiles_delete:
  assumes "queue_ok S q" "map_of q a = Some e" "tiles (AList.delete a q) c b" "a < c"
  shows "tiles q c b"
  using assms(3,4)
proof (induction rule: tiles.induct)
  case (tiles_step c f b)
  then have "map_of q c = Some f" by (auto simp: delete_conv' split: if_splits)
  then show ?case using tiles_step by (auto intro: tiles.tiles_step)
qed (auto intro: tiles_nil)

lemma run_removed_step:
  assumes "queue_ok S q" "map_of q a = Some e"
    and "run_removed S (AList.delete a q) (a + int (length (fe_Data e))) b q' cbs"
  shows "run_removed S q a b q' (called (fe_DoneCb e) @ cbs)"
proof -
  let ?l = "int (length (fe_Data e))"
  have l: "0 < ?l" using queue_okD(1) [OF assms(1,2)] by simp
  note r = assms(3) [unfolded run_removed_def]
  note d = queue_ok_delete [OF assms(1,2)]
  have t: "tiles q a b"
    using tiles_delete [OF assms(1,2), of "a + ?l" b] r l assms(2) by (auto intro: tiles_step)
  have le: "a + ?l \<le> b" using r by simp
  have none: "map_of q x = None" if "a < x" "x < a + ?l" for x
  proof (cases "map_of q x")
    case (Some f)
    then show ?thesis using queue_okD(4) [OF assms(1,2) Some] that by simp
  qed
  have "map_of q' x = (if a \<le> x \<and> x < b then None else map_of q x)" for x
    using r none [of x] le l by (auto simp: delete_conv')
  moreover have "queued q' = queued q - {a..<b}" using r d(2) le l by auto
  ultimately show ?thesis using r t le d(3) unfolding run_removed_def by (simp add: ac_simps)
qed

text \<open>The end of a maximal run is not queued.\<close>

lemma run_end_not_queued:
  assumes "queue_ok S q" "tiles q a b" "a < b" "map_of q b = None"
  shows "b \<notin> queued q"
proof
  assume "b \<in> queued q"
  then obtain p e where p: "map_of q p = Some e" "p \<le> b" "b < p + int (length (fe_Data e))" by (rule queuedE)
  then have "p < b" using assms(4) by (cases "p = b") auto
  have "p + int (length (fe_Data e)) \<le> b" using assms(2,3) p(1) \<open>p < b\<close>
  proof (induction rule: tiles.induct)
    case (tiles_step a f b)
    show ?case
    proof (cases "p < a + int (length (fe_Data f))")
      case True
      consider "p < a" | "p = a" | "a < p" by linarith
      then show ?thesis
      proof cases
        case 1
        then show ?thesis using queue_okD(4) [OF assms(1) p(1) tiles_step(1)] tiles_step.prems by simp
      next
        case 2
        then show ?thesis using tiles_le [OF assms(1) tiles_step(2)] tiles_step(1) p(1) by simp
      next
        case 3
        then show ?thesis using queue_okD(4) [OF assms(1) tiles_step(1) p(1)] True by simp
      qed
    next
      case False
      then show ?thesis using tiles_step p(1) by simp
    qed
  qed simp
  then show False using p(3) by simp
qed

lemma deleteConsecutive_spec:
  assumes "queue_ok S q"
  shows "\<exists>b new. run_removed S q a b (fst (deleteConsecutive q a cbs)) new \<and> snd (deleteConsecutive q a cbs) = cbs @ new
    \<and> map_of q b = None"
  using assms
proof (induction q a cbs rule: deleteConsecutive.induct)
  case (1 q a cbs)
  show ?case
  proof (cases "map_of q a")
    case None
    then show ?thesis using "1.prems" run_removed_nil [of S q a]
      by (auto simp: deleteConsecutive.simps [of q a])
  next
    case (Some e)
    let ?a = "a + int (length (fe_Data e))"
    obtain b new where b: "run_removed S (AList.delete a q) ?a b
          (fst (deleteConsecutive (AList.delete a q) ?a (cbs @ called (fe_DoneCb e)))) new"
      "snd (deleteConsecutive (AList.delete a q) ?a (cbs @ called (fe_DoneCb e))) = (cbs @ called (fe_DoneCb e)) @ new"
      "map_of (AList.delete a q) b = None"
      using "1.IH" [OF Some] queue_ok_delete(1) [OF "1.prems" Some] by blast
    have "?a \<le> b" using b(1) by (simp add: run_removed_def)
    then have "map_of q b = None" using b(3) queue_okD(1) [OF "1.prems" Some]
      by (auto simp: delete_conv' split: if_splits)
    then show ?thesis
      using b run_removed_step [OF "1.prems" Some b(1)] Some by (auto simp: deleteConsecutive.simps [of q a])
  qed
qed

definition replaced :: "(int \<Rightarrow> byte) \<Rightarrow> sorter_queue \<Rightarrow> int \<Rightarrow> int \<Rightarrow> bool \<Rightarrow> sorter_queue \<Rightarrow> int option \<Rightarrow> bool \<Rightarrow> nat list \<Rightarrow> int \<Rightarrow> bool"
where
  "replaced S q end pos has q' cutPos has' new b = (run_removed S q pos b q' new \<and> b \<le> end \<and> (has' \<longleftrightarrow> has \<or> pos < b)
     \<and> (case cutPos of None \<Rightarrow> map_of q b = None
        | Some c \<Rightarrow> c = b \<and> has' \<and> (\<exists>e. map_of q b = Some e \<and> end < b + int (length (fe_Data e)))))"

lemma replace_loop_spec:
  assumes "queue_ok S q" "pos \<le> end"
  shows "(replace_loop q end pos has cbs = None \<and> \<not> has
      \<and> (\<exists>e. map_of q pos = Some e \<and> end \<le> pos + int (length (fe_Data e))))
    \<or> (\<exists>q' cutPos has' new b. replace_loop q end pos has cbs = Some (q', cutPos, has', cbs @ new)
      \<and> replaced S q end pos has q' cutPos has' new b)"
  using assms
proof (induction q "end" pos has cbs rule: replace_loop.induct)
  case (1 q "end" pos has cbs)
  show ?case
  proof (cases "map_of q pos")
    case None
    then have "replaced S q end pos has q None has [] pos"
      using 1 run_removed_nil [of S q pos] by (simp add: replaced_def)
    then show ?thesis using None by (auto simp: replace_loop.simps [of q "end" pos])
  next
    case (Some e)
    let ?l = "int (length (fe_Data e))"
    have l: "0 < ?l" using queue_okD(1) [OF "1.prems"(1) Some] by simp
    show ?thesis
    proof (cases "end - pos > ?l \<or> (has \<and> end - pos = ?l)")
      case True
      then have step: "replace_loop q end pos has cbs =
          replace_loop (AList.delete pos q) end (pos + ?l) True (cbs @ called (fe_DoneCb e))"
        using Some by (simp add: replace_loop.simps [of q "end" pos])
      have "pos + ?l \<le> end" using True by auto
      then obtain q' cutPos has' new b where r:
        "replace_loop (AList.delete pos q) end (pos + ?l) True (cbs @ called (fe_DoneCb e))
          = Some (q', cutPos, has', (cbs @ called (fe_DoneCb e)) @ new)"
        "replaced S (AList.delete pos q) end (pos + ?l) True q' cutPos has' new b"
        using "1.IH" [OF Some refl True] queue_ok_delete(1) [OF "1.prems"(1) Some] by blast
      note rr = r(2) [unfolded replaced_def]
      have b: "pos + ?l \<le> b" using rr by (simp add: run_removed_def)
      then have pb: "pos < b" and "b \<noteq> pos" using l by linarith+
      then have m: "map_of (AList.delete pos q) b = map_of q b" by (simp add: delete_conv')
      have "replaced S q end pos has q' cutPos has' (called (fe_DoneCb e) @ new) b"
        using rr run_removed_step [OF "1.prems"(1) Some, of b q' new] b pb m
        by (auto simp: replaced_def split: option.splits)
      then show ?thesis using step r(1) by auto
    next
      case False
      show ?thesis
      proof (cases has)
        case True
        then have "replaced S q end pos has q (Some pos) has [] pos"
          using 1 run_removed_nil [of S q pos] Some False l by (auto simp: replaced_def)
        moreover have "replace_loop q end pos has cbs = Some (q, Some pos, has, cbs @ [])"
          using True False Some by (auto simp: replace_loop.simps [of q "end" pos])
        ultimately show ?thesis by blast
      next
        case hasnot: False
        then have "replace_loop q end pos has cbs = None" using False Some by (auto simp: replace_loop.simps [of q "end" pos])
        then show ?thesis using hasnot False Some by auto
      qed
    qed
  qed
qed

section \<open>Finding the gaps\<close>

lemma findStartGap_spec:
  assumes "gs \<noteq> []" "start \<le> bi_End (last gs)"
  shows "\<exists>pre' sg rest b. findStartGap pre gs start = Inr (pre @ pre', sg, rest, b) \<and> gs = pre' @ sg # rest
    \<and> (\<forall>g\<in>set pre'. bi_End g < start \<or> bi_End g < bi_Start g) \<and> b = (bi_Start sg \<le> start) \<and> (b \<longrightarrow> start \<le> bi_End sg)"
  using assms
proof (induction gs arbitrary: pre)
  case (Cons g gs)
  consider "bi_Start g \<le> start" "start \<le> bi_End g" | "start < bi_Start g"
    | "bi_Start g \<le> start" "bi_End g < start" by linarith
  then show ?case
  proof cases
    case 3
    then have "gs \<noteq> []" "start \<le> bi_End (last gs)" using Cons.prems by (auto split: if_splits)
    from Cons.IH [OF this, of "pre @ [g]"] obtain pre' sg rest b where
      "findStartGap (pre @ [g]) gs start = Inr ((pre @ [g]) @ pre', sg, rest, b)" "gs = pre' @ sg # rest"
      "\<forall>g\<in>set pre'. bi_End g < start \<or> bi_End g < bi_Start g" "b = (bi_Start sg \<le> start)" "b \<longrightarrow> start \<le> bi_End sg"
      by blast
    then show ?thesis using 3 by (intro exI [of _ "g # pre'"]) auto
  qed (auto intro!: exI [of _ "[]"])
qed simp

lemma findEndGap_after_spec:
  assumes "gs \<noteq> []" "end < bi_End (last gs)"
  shows "(\<exists>m g post. findEndGap_after mid gs end = Inr (LaterGap (mid @ m) g post True) \<and> gs = m @ g # post
      \<and> bi_Start g \<le> end \<and> end < bi_End g)
    \<or> (\<exists>m h post. findEndGap_after mid gs end = Inr (if mid @ m = [] then SameGap False
          else LaterGap (butlast (mid @ m)) (last (mid @ m)) (h # post) False)
      \<and> gs = m @ h # post \<and> end < bi_Start h \<and> (\<forall>g\<in>set m. bi_Start g \<le> end \<and> bi_End g \<le> end))"
  using assms
proof (induction gs arbitrary: mid)
  case (Cons g gs)
  consider "bi_Start g \<le> end" "end < bi_End g" | "end < bi_Start g" | "bi_Start g \<le> end" "bi_End g \<le> end" by linarith
  then show ?case
  proof cases
    case 1
    then have "findEndGap_after mid (g # gs) end = Inr (LaterGap (mid @ []) g gs True) \<and> g # gs = [] @ g # gs" by simp
    then show ?thesis using 1 by blast
  next
    case 2
    then have "findEndGap_after mid (g # gs) end = Inr (if mid @ [] = [] then SameGap False
          else LaterGap (butlast (mid @ [])) (last (mid @ [])) (g # gs) False) \<and> g # gs = [] @ g # gs" by simp
    then show ?thesis using 2 by (metis empty_iff list.set(1))
  next
    case 3
    then have gs: "gs \<noteq> []" "end < bi_End (last gs)" using Cons.prems by (auto split: if_splits)
    have step: "findEndGap_after mid (g # gs) end = findEndGap_after (mid @ [g]) gs end" using 3 by simp
    from Cons.IH [OF gs, of "mid @ [g]"] show ?thesis
    proof (elim disjE exE conjE)
      fix m h post
      assume "findEndGap_after (mid @ [g]) gs end = Inr (LaterGap ((mid @ [g]) @ m) h post True)" "gs = m @ h # post"
        "bi_Start h \<le> end" "end < bi_End h"
      then show ?thesis using step by (intro disjI1 exI [of _ "g # m"] exI [of _ h] exI [of _ post]) simp
    next
      fix m h post
      assume "findEndGap_after (mid @ [g]) gs end = Inr (if (mid @ [g]) @ m = [] then SameGap False
          else LaterGap (butlast ((mid @ [g]) @ m)) (last ((mid @ [g]) @ m)) (h # post) False)" "gs = m @ h # post"
        "end < bi_Start h" "\<forall>g\<in>set m. bi_Start g \<le> end \<and> bi_End g \<le> end"
      then show ?thesis using step 3 by (intro disjI2 exI [of _ "g # m"] exI [of _ h] exI [of _ post]) auto
    qed
  qed
qed simp

lemma gaps_okD:
  assumes "gaps_ok (pre @ g # rest)"
  shows "0 \<le> bi_Start g" "bi_Start g < bi_End g" "bi_End g \<le> MaxByteCount"
    "\<forall>h\<in>set pre. bi_End h < bi_Start g" "\<forall>h\<in>set rest. bi_End g < bi_Start h"
    "rest = [] \<Longrightarrow> bi_End g = MaxByteCount" "rest \<noteq> [] \<Longrightarrow> bi_End (last rest) = MaxByteCount"
    "\<forall>h\<in>set pre. bi_Start h < bi_End h" "\<forall>h\<in>set rest. bi_Start h < bi_End h"
    "\<forall>x\<in>gap_set pre. x < bi_Start g" "\<forall>x\<in>gap_set rest. bi_End g < x"
proof -
  note ok = assms [unfolded gaps_ok_def sorted_wrt_append]
  show "0 \<le> bi_Start g" "bi_Start g < bi_End g" "\<forall>h\<in>set pre. bi_End h < bi_Start g"
    "\<forall>h\<in>set rest. bi_End g < bi_Start h" "rest = [] \<Longrightarrow> bi_End g = MaxByteCount"
    "rest \<noteq> [] \<Longrightarrow> bi_End (last rest) = MaxByteCount" "\<forall>h\<in>set pre. bi_Start h < bi_End h"
    "\<forall>h\<in>set rest. bi_Start h < bi_End h" using ok by auto
  then show "\<forall>x\<in>gap_set pre. x < bi_Start g" "\<forall>x\<in>gap_set rest. bi_End g < x"
    by (fastforce simp: gap_set_def ivl_def)+
  show "bi_End g \<le> MaxByteCount"
  proof (cases "rest = []")
    case False
    then have "last rest \<in> set rest" by simp
    then have "bi_End g < bi_Start (last rest)" "bi_Start (last rest) < bi_End (last rest)" using ok by simp_all
    moreover have "bi_End (last rest) = MaxByteCount" using ok False by simp
    ultimately show ?thesis by linarith
  qed (use ok in simp)
qed

text \<open>Where a frame starts and ends, as \<open>push\<close> finds it.\<close>

lemma find_start:
  assumes "gaps_ok gs" "start < MaxByteCount"
  obtains pre sg rest where "findStartGap [] gs start = Inr (pre, sg, rest, bi_Start sg \<le> start)" "gs = pre @ sg # rest"
    "\<forall>x\<in>gap_set pre. x < start" "start \<le> bi_End sg"
proof -
  have "gs \<noteq> []" "start \<le> bi_End (last gs)" using assms by (auto simp: gaps_ok_def)
  from findStartGap_spec [OF this, of "[]"] obtain pre sg rest where f:
    "findStartGap [] gs start = Inr (pre, sg, rest, bi_Start sg \<le> start)" "gs = pre @ sg # rest"
    "\<forall>g\<in>set pre. bi_End g < start \<or> bi_End g < bi_Start g" "bi_Start sg \<le> start \<longrightarrow> start \<le> bi_End sg" by auto
  have "gaps_ok (pre @ sg # rest)" using f(2) assms(1) by simp
  note ok = gaps_okD [OF this]
  have "\<forall>x\<in>gap_set pre. x < start" using f(3) ok(8) by (fastforce simp: gap_set_def ivl_def)
  moreover have "start \<le> bi_End sg" using f(4) ok(2) by fastforce
  ultimately show ?thesis using f that by blast
qed

lemma find_end:
  assumes "gaps_ok (pre @ sg # rest)" "end < MaxByteCount"
  shows "(end < bi_Start sg \<and> findEndGap pre sg rest end = Inr (PreviousGap (if pre = [] then None else Some (last pre))))
    \<or> (bi_Start sg \<le> end \<and> end < bi_End sg \<and> findEndGap pre sg rest end = Inr (SameGap True))
    \<or> (\<exists>h post. bi_End sg \<le> end \<and> rest = h # post \<and> end < bi_Start h \<and> findEndGap pre sg rest end = Inr (SameGap False))
    \<or> (\<exists>mid g post. rest = mid @ g # post \<and> bi_Start g \<le> end \<and> end < bi_End g
        \<and> findEndGap pre sg rest end = Inr (LaterGap mid g post True))
    \<or> (\<exists>mid g h post. rest = mid @ g # h # post \<and> bi_End g \<le> end \<and> end < bi_Start h
        \<and> findEndGap pre sg rest end = Inr (LaterGap mid g (h # post) False))"
proof -
  note ok = gaps_okD [OF assms(1)]
  consider "end < bi_Start sg" | "bi_Start sg \<le> end" "end < bi_End sg" | "bi_End sg \<le> end" by linarith
  then show ?thesis
  proof cases
    case 3
    then have rest: "rest \<noteq> []" using ok(6) assms(2) by auto
    then have last: "end < bi_End (last rest)" using ok(7) assms(2) by simp
    have e: "findEndGap pre sg rest end = findEndGap_after [] rest end" using 3 ok(2) by (auto simp: findEndGap_def)
    from findEndGap_after_spec [OF rest last, of "[]"] show ?thesis
    proof (elim disjE exE conjE)
      fix m g post
      assume "findEndGap_after [] rest end = Inr (LaterGap ([] @ m) g post True)" "rest = m @ g # post"
        "bi_Start g \<le> end" "end < bi_End g"
      then show ?thesis using e by auto
    next
      fix m h post
      assume m: "findEndGap_after [] rest end = Inr (if [] @ m = [] then SameGap False
          else LaterGap (butlast ([] @ m)) (last ([] @ m)) (h # post) False)" "rest = m @ h # post" "end < bi_Start h"
        "\<forall>g\<in>set m. bi_Start g \<le> end \<and> bi_End g \<le> end"
      show ?thesis
      proof (cases "m = []")
        case True
        then show ?thesis using m e 3 by auto
      next
        case False
        then have "rest = butlast m @ last m # h # post" "bi_End (last m) \<le> end" using m by auto
        then show ?thesis using m e False by auto
      qed
    qed
  qed (auto simp: findEndGap_def)
qed

section \<open>Removing the entries between two gaps\<close>

lemma delete_run:
  assumes "queue_ok S q" "a < b" "{a..<b} \<subseteq> queued q \<or> (\<forall>x\<in>{a..<b}. x \<notin> queued q)" "a - 1 \<notin> queued q" "b \<notin> queued q"
  shows "\<exists>q' new. deleteConsecutive q a cbs = (q', cbs @ new) \<and> queue_ok S q' \<and> queued q' = queued q - {a..<b}
    \<and> held q = held q' + mset new"
proof (cases "a \<in> queued q")
  case True
  then obtain e where e: "map_of q a = Some e" using queued_boundary assms(4) by blast
  obtain c new where c: "run_removed S q a c (fst (deleteConsecutive q a cbs)) new"
    "snd (deleteConsecutive q a cbs) = cbs @ new" "map_of q c = None"
    using deleteConsecutive_spec [OF assms(1)] by blast
  note r = c(1) [unfolded run_removed_def]
  have "a \<noteq> c" using c(3) e by auto
  then have ac: "a < c" using r by simp
  then have "c \<notin> queued q" using run_end_not_queued [OF assms(1)] r c(3) by blast
  moreover have "{a..<b} \<subseteq> queued q" using assms(2,3) True by force
  ultimately have "\<not> c < b" using ac by (metis atLeastLessThan_iff less_imp_le subsetD)
  moreover have "{a..<c} \<subseteq> queued q" using tiles_queued [OF assms(1), of a c] r by blast
  then have "\<not> b < c" using assms(2,5) by (metis atLeastLessThan_iff less_imp_le subsetD)
  ultimately have "c = b" by linarith
  then show ?thesis using r c(2) by (metis prod.collapse)
next
  case False
  moreover have "a \<in> {a..<b}" using assms(2) by simp
  ultimately have d: "\<forall>x\<in>{a..<b}. x \<notin> queued q" using assms(3) by blast
  have "map_of q a = None" using False key_queued [OF assms(1)] by (cases "map_of q a") auto
  then have "deleteConsecutive q a cbs = (q, cbs @ [])" by (simp add: deleteConsecutive.simps [of q a])
  then show ?thesis using assms(1) d by auto
qed

lemma delete_between_spec:
  assumes "queue_ok S q" "sorted_wrt (\<lambda>g h. bi_End g < bi_Start h) (g # mid @ [eg])"
    and "\<forall>h\<in>set (g # mid @ [eg]). bi_Start h < bi_End h \<and> (\<forall>x\<in>ivl h. x \<notin> queued q)"
    and "{bi_End g..<bi_Start (hd (mid @ [eg]))} \<subseteq> queued q \<or> (\<forall>x\<in>{bi_End g..<bi_Start (hd (mid @ [eg]))}. x \<notin> queued q)"
    and "\<forall>x\<in>{bi_Start (hd (mid @ [eg]))..<bi_Start eg}. x \<in> gap_set mid \<or> x \<in> queued q"
  shows "\<exists>q' new. delete_between q (bi_Start eg) (g # mid) cbs = (q', [], cbs @ new) \<and> queue_ok S q'
    \<and> queued q' = queued q - {bi_End g..<bi_Start eg} \<and> held q = held q' + mset new"
  using assms
proof (induction mid arbitrary: g q cbs)
  case Nil
  have "bi_End g - 1 \<notin> queued q" "bi_Start eg \<notin> queued q" using Nil.prems(3) by (auto simp: ivl_def)
  then obtain q' new where "deleteConsecutive q (bi_End g) cbs = (q', cbs @ new)" "queue_ok S q'"
    "queued q' = queued q - {bi_End g..<bi_Start eg}" "held q = held q' + mset new"
    using delete_run [OF Nil.prems(1), of "bi_End g" "bi_Start eg" cbs] Nil.prems by auto
  then show ?case using Nil.prems(2) by auto
next
  case (Cons h mid)
  have g: "bi_End g < bi_Start h" "bi_End g < bi_Start eg" "bi_End h < bi_Start eg" "\<forall>k\<in>set (mid @ [eg]). bi_End h < bi_Start k"
    using Cons.prems(2) by auto
  have "bi_End g - 1 \<notin> queued q" "bi_Start h \<notin> queued q" using Cons.prems(3) by (auto simp: ivl_def)
  then obtain q1 new where q1: "deleteConsecutive q (bi_End g) cbs = (q1, cbs @ new)" "queue_ok S q1"
    "queued q1 = queued q - {bi_End g..<bi_Start h}" "held q = held q1 + mset new"
    using delete_run [OF Cons.prems(1), of "bi_End g" "bi_Start h" cbs] Cons.prems(4) g(1) by auto
  let ?N = "bi_Start (hd (mid @ [eg]))"
  have N: "bi_End h < ?N" "?N \<le> bi_Start eg"
    using g(3,4) Cons.prems(2,3) by (cases mid; force)+
  have above: "x \<notin> gap_set mid" if "x < ?N" for x
  proof (cases mid)
    case (Cons k ks)
    have "\<forall>y\<in>gap_set (k # ks). bi_Start k \<le> y"
      using \<open>sorted_wrt _ (g # (h # mid) @ [eg])\<close> Cons.prems(3) Cons by (fastforce simp: gap_set_def ivl_def)
    then show ?thesis using that Cons by (metis append_Cons leD list.sel(1))
  qed simp
  have seg: "{bi_End h..<?N} \<subseteq> queued q1"
  proof
    fix x
    assume x: "x \<in> {bi_End h..<?N}"
    have h: "bi_Start h < bi_End h" using Cons.prems(3) by simp
    then have "x \<in> {bi_Start (hd ((h # mid) @ [eg]))..<bi_Start eg}" using x N by simp
    then have "x \<in> gap_set (h # mid) \<or> x \<in> queued q" using Cons.prems(5) by blast
    then show "x \<in> queued q1" using x above [of x] q1(3) h by (auto simp: ivl_def)
  qed
  have tail: "\<forall>x\<in>{?N..<bi_Start eg}. x \<in> gap_set mid \<or> x \<in> queued q1"
  proof
    fix x
    assume x: "x \<in> {?N..<bi_Start eg}"
    have h: "bi_Start h < bi_End h" using Cons.prems(3) by simp
    then have "x \<in> {bi_Start (hd ((h # mid) @ [eg]))..<bi_Start eg}" using x N by simp
    then have "x \<in> gap_set (h # mid) \<or> x \<in> queued q" using Cons.prems(5) by blast
    then show "x \<in> gap_set mid \<or> x \<in> queued q1" using x N h q1(3) by (auto simp: ivl_def)
  qed
  have "\<forall>k\<in>set (h # mid @ [eg]). bi_Start k < bi_End k \<and> (\<forall>x\<in>ivl k. x \<notin> queued q1)"
    using Cons.prems(3) q1(3) by auto
  then obtain q' new' where "delete_between q1 (bi_Start eg) (h # mid) (cbs @ new) = (q', [], (cbs @ new) @ new')"
    "queue_ok S q'" "queued q' = queued q1 - {bi_End h..<bi_Start eg}" "held q1 = held q' + mset new'"
    using Cons.IH [OF q1(2), of h "cbs @ new"] Cons.prems(2) seg tail by auto
  moreover have "queued q1 - {bi_End h..<bi_Start eg} = queued q - {bi_End g..<bi_Start eg}"
  proof -
    have h: "\<forall>x\<in>ivl h. x \<notin> queued q" "bi_Start h < bi_End h" using Cons.prems(3) by simp_all
    have "x \<in> queued q1 - {bi_End h..<bi_Start eg} \<longleftrightarrow> x \<in> queued q - {bi_End g..<bi_Start eg}" for x
      using h(2) bspec [OF h(1), of x] g q1(3) by (auto simp: ivl_def)
    then show ?thesis by blast
  qed
  ultimately show ?case using q1(1,4) g(2) by (auto simp: ac_simps)
qed

section \<open>Storing a frame\<close>

lemma matches_slice:
  assumes "matches S a data" "0 \<le> x" "x \<le> y" "y \<le> int (length data)"
  shows "\<exists>d. data_slice data x y = Inr d \<and> matches S (a + x) d \<and> int (length d) = y - x"
proof -
  have "data_slice data x y = Inr (take (nat y - nat x) (drop (nat x) data))"
    using assms by (simp add: data_slice_def slice_def nat_le_iff)
  moreover have "matches S (a + x) (take (nat y - nat x) (drop (nat x) data))"
    using assms by (auto simp: matches_def algebra_simps)
  ultimately show ?thesis using assms by (auto simp: nat_le_iff)
qed

lemma inv_facts:
  assumes "sorter_inv S R s" "fs_gaps s = pre @ g # rest"
  shows "gaps_ok (pre @ g # rest)" "queue_ok S (fs_queue s)" "fs_readPos s \<le> bi_Start g"
    "\<forall>x\<in>gap_set (pre @ g # rest). x \<notin> queued (fs_queue s)"
    "\<And>x. fs_readPos s \<le> x \<Longrightarrow> x < MaxByteCount \<Longrightarrow> x \<notin> gap_set (pre @ g # rest) \<Longrightarrow> x \<in> queued (fs_queue s)"
    "\<And>x. x \<in> queued (fs_queue s) \<Longrightarrow> fs_readPos s \<le> x"
proof -
  note i = assms(1) [unfolded sorter_inv_def assms(2)]
  show ok: "gaps_ok (pre @ g # rest)" "queue_ok S (fs_queue s)" using i by auto
  show "\<forall>x\<in>gap_set (pre @ g # rest). x \<notin> queued (fs_queue s)" "\<And>x. x \<in> queued (fs_queue s) \<Longrightarrow> fs_readPos s \<le> x"
    using i by auto
  show "\<And>x. fs_readPos s \<le> x \<Longrightarrow> x < MaxByteCount \<Longrightarrow> x \<notin> gap_set (pre @ g # rest) \<Longrightarrow> x \<in> queued (fs_queue s)"
    using i by auto
  have "bi_Start g \<in> gap_set (pre @ g # rest)" using gaps_okD(2) [OF ok(1)] by (simp add: ivl_def)
  then have "bi_Start g \<notin> {0..<fs_readPos s}" using i by blast
  then show "fs_readPos s \<le> bi_Start g" using gaps_okD(1) [OF ok(1)] by simp
qed

lemma insert_entry:
  assumes "queue_ok S q" "\<forall>x\<in>{a..<a + int (length (fe_Data e))}. x \<notin> queued q" "fe_Data e \<noteq> []" "matches S a (fe_Data e)"
  shows "queue_ok S ((a, e) # AList.delete a q)" "queued ((a, e) # AList.delete a q) = queued q \<union> span a e"
    "AList.delete a q = q"
proof -
  have "a \<in> {a..<a + int (length (fe_Data e))}" using assms(3) by simp
  then have none: "map_of q a = None"
    using key_queued [OF assms(1), of a] assms(2) by (cases "map_of q a") blast+
  then show del: "AList.delete a q = q" by (force simp: AList.delete_eq filter_id_conv map_of_eq_None_iff)
  have m: "map_of ((a, e) # q) x = (if x = a then Some e else map_of q x)" for x by simp
  have key: "p \<notin> {a..<a + int (length (fe_Data e))}" if "map_of q p = Some f" for p f
    using key_queued [OF assms(1) that] assms(2) by blast
  have before: "p + int (length (fe_Data f)) \<le> a" if f: "map_of q p = Some f" "p < a" for p f
  proof (rule ccontr)
    assume "\<not> p + int (length (fe_Data f)) \<le> a"
    then have "a \<in> queued q" using queue_okD(3) [OF assms(1) f(1)] f(2) by (auto simp: subset_iff)
    moreover have "a \<in> {a..<a + int (length (fe_Data e))}" using assms(3) by simp
    ultimately show False using assms(2) by blast
  qed
  have "distinct (map fst ((a, e) # q))" using assms(1) none by (simp add: queue_ok_def map_of_eq_None_iff)
  moreover have "\<forall>p f. map_of ((a, e) # q) p = Some f \<longrightarrow> fe_Data f \<noteq> [] \<and> matches S p (fe_Data f)"
    using assms(1,3,4) unfolding queue_ok_def m by (auto split: if_splits)
  moreover have "p + int (length (fe_Data f)) \<le> p'"
    if "map_of ((a, e) # q) p = Some f" "map_of ((a, e) # q) p' = Some f'" "p < p'" for p f p' f'
    using that before [of p f] key [of p' f'] queue_okD(4) [OF assms(1), of p f p' f'] unfolding m
    by (auto split: if_splits)
  ultimately show "queue_ok S ((a, e) # AList.delete a q)" unfolding del queue_ok_def by blast
  show "queued ((a, e) # AList.delete a q) = queued q \<union> span a e"
  proof (rule set_eqI)
    fix x
    show "x \<in> queued ((a, e) # AList.delete a q) \<longleftrightarrow> x \<in> queued q \<union> span a e"
      unfolding del queued_def using none by (force split: if_splits)
  qed
qed

lemma sorter_inv_insert:
  assumes "sorter_inv S R s" "queue_ok S q'" "queued q' = queued (fs_queue s) - {a..<b}"
    and "gaps_ok gs'" "gap_set gs' = gap_set (fs_gaps s) - {a..<b}"
    and "fs_readPos s \<le> a" "a < b" "b \<le> MaxByteCount"
    and "matches S a (fe_Data e)" "int (length (fe_Data e)) = b - a"
  shows "sorter_inv S (R \<union> {a..<b}) (s\<lparr>fs_queue := (a, e) # AList.delete a q', fs_gaps := gs'\<rparr>)"
proof -
  note i = assms(1) [unfolded sorter_inv_def]
  have e: "fe_Data e \<noteq> []" "a + int (length (fe_Data e)) = b" using assms(7,10) by auto
  have free: "\<forall>x\<in>{a..<a + int (length (fe_Data e))}. x \<notin> queued q'" using assms(3) e(2) by simp
  note ins = insert_entry [OF assms(2) free e(1) assms(9)]
  have "0 \<le> a" using i assms(6) by simp
  then have "R \<union> {a..<b} = {0..<MaxByteCount} - gap_set gs'" using i assms(5,8) by auto
  moreover have "queued ((a, e) # AList.delete a q') = (R \<union> {a..<b}) \<inter> {fs_readPos s..}"
    using ins(2) assms(3,6) i e(2) by auto
  ultimately show ?thesis using i ins(1) assms(4) unfolding sorter_inv_def by auto
qed

section \<open>The parts of a push\<close>

text \<open>What \<open>replace_loop\<close> does, by where the frame starts: before or inside its gap, or right at the end of the gap.\<close>

definition rep_inside :: "(int \<Rightarrow> byte) \<Rightarrow> frameSorter \<Rightarrow> byteInterval \<Rightarrow> int \<Rightarrow> sorter_queue \<Rightarrow> bool \<Rightarrow> nat list \<Rightarrow> bool" where
  "rep_inside S s sg start q' has new = (start < bi_End sg \<and> queue_ok S q' \<and> held (fs_queue s) = held q' + mset new
     \<and> (has \<longrightarrow> start < bi_Start sg \<and> fs_readPos s \<le> start \<and> queued q' = queued (fs_queue s) - {start..<bi_Start sg})
     \<and> (\<not> has \<longrightarrow> queued q' = queued (fs_queue s)))"

definition rep_at_end :: "(int \<Rightarrow> byte) \<Rightarrow> frameSorter \<Rightarrow> byteInterval \<Rightarrow> int \<Rightarrow> int \<Rightarrow> sorter_queue \<Rightarrow> int option \<Rightarrow> nat list \<Rightarrow> int \<Rightarrow> bool"
where
  "rep_at_end S s sg start end q' cutPos new b = (start = bi_End sg \<and> queue_ok S q'
     \<and> held (fs_queue s) = held q' + mset new \<and> start < b \<and> b \<le> end \<and> {start..<b} \<subseteq> queued (fs_queue s)
     \<and> queued q' = queued (fs_queue s) - {start..<b}
     \<and> (if cutPos = None then b \<notin> queued (fs_queue s) else cutPos = Some b \<and> {start..end} \<subseteq> queued (fs_queue s)))"

lemma replace_cases:
  assumes "sorter_inv S R s" "fs_gaps s = pre @ sg # rest" "start < end" "end < MaxByteCount"
    and "bi_Start sg < end" "start \<le> bi_End sg" "\<forall>x\<in>gap_set pre. x < start"
  defines "q \<equiv> fs_queue s"
  shows "(replace_loop q end start False [] = None \<and> {start..<end} \<subseteq> queued q)
    \<or> (\<exists>q' new has. replace_loop q end start False [] = Some (q', None, has, new) \<and> rep_inside S s sg start q' has new)
    \<or> (\<exists>q' cutPos new b. replace_loop q end start False [] = Some (q', cutPos, True, new)
        \<and> rep_at_end S s sg start end q' cutPos new b)"
proof -
  note inv = inv_facts [OF assms(1,2), folded q_def]
  note g = gaps_okD [OF inv(1)]
  have sg: "x \<notin> queued q" if "bi_Start sg \<le> x" "x < bi_End sg" for x using inv(4) that by (auto simp: ivl_def)
  have "start \<le> end" using assms(3) by simp
  from replace_loop_spec [OF inv(2) this, of False "[]"] show ?thesis
  proof (elim disjE exE conjE)
    fix e
    assume "replace_loop q end start False [] = None" "map_of q start = Some e" "end \<le> start + int (length (fe_Data e))"
    moreover have "{start..<end} \<subseteq> span start e" using calculation(3) by auto
    ultimately show ?thesis using queue_okD(3) [OF inv(2), of start e] by blast
  next
    fix q' cutPos has new b
    assume loop: "replace_loop q end start False [] = Some (q', cutPos, has, [] @ new)"
      and r: "replaced S q end start False q' cutPos has new b"
    note rr = r [unfolded replaced_def run_removed_def]
    have run: "{start..<b} \<subseteq> queued q" "start \<le> b" "has \<longleftrightarrow> start < b" "queue_ok S q'" "queued q' = queued q - {start..<b}"
      "held q = held q' + mset new" "b \<le> end" "tiles q start b" using tiles_queued [OF inv(2), of start b] rr by auto
    have cutSome: "\<exists>e. cutPos = Some b \<and> map_of q b = Some e \<and> end < b + int (length (fe_Data e))" if "cutPos \<noteq> None"
      using rr that by auto
    have cutNone: "b \<notin> queued q" if "cutPos = None" "start < b"
      using run_end_not_queued [OF inv(2) run(8)] rr that by auto
    show ?thesis
    proof (cases "start < bi_End sg")
      case inside: True
      have b: "start < b \<Longrightarrow> start < bi_Start sg \<and> b \<le> bi_Start sg"
      proof -
        assume sb: "start < b"
        then have "start \<in> queued q" using run(1) by (auto simp: subset_iff)
        then have lt: "start < bi_Start sg" using sg [of start] inside by linarith
        moreover have "\<not> bi_Start sg < b"
        proof
          assume "bi_Start sg < b"
          then have "bi_Start sg \<in> queued q" using run(1) lt by (auto simp: subset_iff)
          then show False using sg [of "bi_Start sg"] g(2) by simp
        qed
        ultimately show "start < bi_Start sg \<and> b \<le> bi_Start sg" by simp
      qed
      have "cutPos = None"
      proof (rule ccontr)
        assume "cutPos \<noteq> None"
        then obtain e where e: "map_of q b = Some e" "end < b + int (length (fe_Data e))" "start < b"
          using cutSome rr run(3) by auto
        then have "bi_Start sg \<in> queued q" using queue_okD(3) [OF inv(2) e(1)] b assms(5) by (auto simp: subset_iff)
        then show False using sg g(2) by blast
      qed
      moreover have "fs_readPos s \<le> start \<and> b = bi_Start sg" if "start < b"
      proof -
        have rp: "fs_readPos s \<le> start" using inv(6) run(1) that by (auto simp: subset_iff)
        have "b \<notin> gap_set (pre @ sg # rest)" if "b < bi_Start sg"
          using that \<open>start < b\<close> assms(7) g(2,11) by (fastforce simp: ivl_def)
        then have "\<not> b < bi_Start sg" using inv(5) [of b] cutNone \<open>cutPos = None\<close> that rp run(7) assms(4) by auto
        then show ?thesis using b [OF that] rp by simp
      qed
      ultimately have "replace_loop q end start False [] = Some (q', None, has, new)" "rep_inside S s sg start q' has new"
        unfolding rep_inside_def q_def [symmetric] using inside loop run b by auto
      then show ?thesis by blast
    next
      case False
      then have st: "start = bi_End sg" using assms(6) by simp
      have "start \<notin> gap_set (pre @ sg # rest)" using st assms(7) g(11) by (auto simp: ivl_def)
      then have "start \<in> queued q" using inv(3,5) st g(2) assms(3,4) by auto
      moreover have "start - 1 \<notin> queued q" using sg [of "start - 1"] st g(2) by simp
      ultimately obtain e where e: "map_of q start = Some e" using queued_boundary by blast
      have sb: "start < b"
      proof (rule ccontr)
        assume "\<not> start < b"
        then have "b = start" "\<not> has" using run(2,3) by auto
        then show False using rr e by (auto split: option.splits)
      qed
      have "{start..end} \<subseteq> queued q" "cutPos = Some b" if c: "cutPos \<noteq> None"
      proof -
        obtain f where f: "cutPos = Some b" "map_of q b = Some f" "end < b + int (length (fe_Data f))"
          using cutSome [OF c] by blast
        have "{start..end} \<subseteq> {start..<b} \<union> span b f" using f(3) by auto
        then show "{start..end} \<subseteq> queued q" "cutPos = Some b" using run(1) queue_okD(3) [OF inv(2) f(2)] f(1) by blast+
      qed
      then have "rep_at_end S s sg start end q' cutPos new b"
        unfolding rep_at_end_def q_def [symmetric] using st run sb cutNone by auto
      moreover have "replace_loop q end start False [] = Some (q', cutPos, True, new)" using loop run(3) sb by simp
      ultimately show ?thesis by blast
    qed
  qed
qed

lemma gaps_ok_replace:
  assumes "gaps_ok (pre @ old @ post)" "old \<noteq> []" "sorted_wrt (\<lambda>g h. bi_End g < bi_Start h) new"
    and "\<forall>m\<in>set new. bi_Start (hd old) \<le> bi_Start m \<and> bi_Start m < bi_End m \<and> bi_End m \<le> bi_End (last old)"
    and "post = [] \<Longrightarrow> new \<noteq> [] \<and> bi_End (last new) = bi_End (last old)"
  shows "gaps_ok (pre @ new @ post)"
proof -
  note ok = assms(1) [unfolded gaps_ok_def sorted_wrt_append]
  have old: "hd old \<in> set old" "last old \<in> set old" using assms(2) by auto
  have nonneg: "0 \<le> bi_Start (hd old)" using ok old(1) by auto
  have pre: "\<forall>g\<in>set pre. bi_End g < bi_Start (hd old)" and post: "\<forall>g\<in>set post. bi_End (last old) < bi_Start g"
    using ok old by auto
  have "\<forall>g\<in>set pre. \<forall>h\<in>set new. bi_End g < bi_Start h" using pre assms(4) by fastforce
  moreover have "\<forall>g\<in>set new. \<forall>h\<in>set post. bi_End g < bi_Start h" using post assms(4) by fastforce
  moreover have "\<forall>g\<in>set new. 0 \<le> bi_Start g" using nonneg assms(4) by fastforce
  moreover have "bi_End (last (pre @ new @ post)) = MaxByteCount"
  proof (cases "post = []")
    case True
    then show ?thesis using assms(5) ok assms(2) by auto
  qed (use ok in auto)
  ultimately show ?thesis using ok assms(3,4,5) unfolding gaps_ok_def sorted_wrt_append by auto
qed

text \<open>A push that is not a duplicate: the gaps stay in order, and a stored frame extends what was received.\<close>

definition pushed :: "(int \<Rightarrow> byte) \<Rightarrow> int set \<Rightarrow> frameSorter \<Rightarrow> int \<Rightarrow> int \<Rightarrow> nat option \<Rightarrow> push_outcome \<times> frameSorter \<times> nat list \<Rightarrow> bool"
where
  "pushed S R s start end doneCb r = (case r of (out, s', cbs) \<Rightarrow>
     (out = Stored \<and> sorter_inv S (R \<union> {start..<end}) s' \<and> fs_readPos s' = fs_readPos s \<and> length (fs_gaps s') \<le> MaxStreamFrameSorterGaps
        \<and> held (fs_queue s) + mset (called doneCb) = held (fs_queue s') + mset cbs)
     \<or> (out = TooManyGaps \<and> length (fs_gaps s') > MaxStreamFrameSorterGaps \<and> gaps_ok (fs_gaps s')
        \<and> R \<union> {start..<end} = {0..<MaxByteCount} - gap_set (fs_gaps s')))"

lemma store_entry_spec:
  assumes "sorter_inv S R s" "queue_ok S q'" "queued q' = queued (fs_queue s) - {a..<b}"
    and "gaps_ok gs'" "gap_set gs' = gap_set (fs_gaps s) - {a..<b}" "fs_readPos s \<le> a" "a < b" "b \<le> MaxByteCount"
    and "matches S a data" "int (length data) = b - a" "held (fs_queue s) = held q' + mset cbs"
    and "start \<le> a" "b \<le> end" "{start..<end} \<subseteq> R \<union> {a..<b}"
  shows "pushed S R s start end doneCb (store_entry s data a doneCb wasCut q' gs' cbs)"
proof (cases "length gs' > MaxStreamFrameSorterGaps")
  case True
  have "R \<union> {start..<end} = {0..<MaxByteCount} - gap_set gs'"
    using assms(1,6-8,12-14) unfolding sorter_inv_def assms(5) by auto
  then show ?thesis using True assms(4) by (auto simp: pushed_def store_entry_def Let_def split: prod.splits)
next
  case False
  have R: "R \<union> {start..<end} = R \<union> {a..<b}" using assms(12-14) by auto
  have "sorter_inv S (R \<union> {a..<b}) (s\<lparr>fs_queue := (a, \<lparr>fe_Data = data, fe_DoneCb = cb\<rparr>) # AList.delete a q', fs_gaps := gs'\<rparr>)"
    for cb using sorter_inv_insert [OF assms(1-8), of "\<lparr>fe_Data = data, fe_DoneCb = cb\<rparr>"] assms(9,10) by simp
  moreover have "AList.delete a q' = q'"
    using insert_entry(3) [OF assms(2), of a "\<lparr>fe_Data = data, fe_DoneCb = None\<rparr>"] assms(3,7,9,10) by force
  ultimately show ?thesis using False assms(11)
    by (auto simp: pushed_def store_entry_def R held_def called_def split: option.splits)
qed

text \<open>The entries between the two gaps.\<close>

lemma between_gaps:
  assumes "sorter_inv S R s" "fs_gaps s = pre @ sg # mid @ eg # post" "queue_ok S q'"
    and "queued q' \<subseteq> queued (fs_queue s)"
    and "\<And>x. bi_Start (hd (mid @ [eg])) \<le> x \<Longrightarrow> x \<in> queued (fs_queue s) \<Longrightarrow> x \<in> queued q'"
    and "{bi_End sg..<bi_Start (hd (mid @ [eg]))} \<subseteq> queued q'
      \<or> (\<forall>x\<in>{bi_End sg..<bi_Start (hd (mid @ [eg]))}. x \<notin> queued q')"
  shows "\<exists>q'' new. (let (queue, cbs) = deleteConsecutive q' (bi_End sg) cbs in delete_between queue (bi_Start eg) mid cbs)
      = (q'', [], cbs @ new)
    \<and> queue_ok S q'' \<and> queued q'' = queued q' - {bi_End sg..<bi_Start eg} \<and> held q' = held q'' + mset new"
proof -
  note inv = inv_facts [OF assms(1,2)]
  note g = gaps_okD [OF inv(1)]
  have inv1: "gaps_ok ((pre @ sg # mid) @ eg # post)" using inv(1) by simp
  note ge = gaps_okD [OF inv1]
  have srt: "sorted_wrt (\<lambda>g h. bi_End g < bi_Start h) (sg # mid @ [eg])"
    using inv(1) by (auto simp: gaps_ok_def sorted_wrt_append)
  have ne: "\<forall>h\<in>set (sg # mid @ [eg]). bi_Start h < bi_End h \<and> (\<forall>x\<in>ivl h. x \<notin> queued q')"
  proof
    fix h
    assume h: "h \<in> set (sg # mid @ [eg])"
    then have "ivl h \<subseteq> gap_set (pre @ sg # mid @ eg # post)" by (auto simp: gap_set_def)
    then show "bi_Start h < bi_End h \<and> (\<forall>x\<in>ivl h. x \<notin> queued q')" using h g(2,9) ge(2) inv(4) assms(4) by auto
  qed
  have hdN: "hd (mid @ [eg]) \<in> set (mid @ eg # post)" by (cases mid) auto
  have tail: "\<forall>x\<in>{bi_Start (hd (mid @ [eg]))..<bi_Start eg}. x \<in> gap_set mid \<or> x \<in> queued q'"
  proof
    fix x
    assume x: "x \<in> {bi_Start (hd (mid @ [eg]))..<bi_Start eg}"
    have "bi_End sg < bi_Start (hd (mid @ [eg]))" using g(5) hdN by blast
    then have lo: "bi_End sg < x" using x by auto
    have "x \<in> queued (fs_queue s)" if "x \<notin> gap_set mid"
    proof (rule inv(5))
      show "fs_readPos s \<le> x" "x < MaxByteCount" using x lo inv(3) g(2) ge(2,3) by auto
      show "x \<notin> gap_set (pre @ sg # mid @ eg # post)"
        using that lo x g(2,10) ge(11,2) by (fastforce simp: ivl_def)
    qed
    then show "x \<in> gap_set mid \<or> x \<in> queued q'" using assms(5) x by auto
  qed
  have "bi_End sg < bi_Start eg" using srt by simp
  then show ?thesis using delete_between_spec [OF assms(3) srt ne assms(6) tail, of cbs] by (simp split: prod.splits)
qed

end
