(* ===== verification/Quic_Frame_Sorter_Push.thy ===== *)
theory Quic_Frame_Sorter_Push
  imports Quic_Frame_Sorter
begin

text \<open>
  \<open>push\<close> of the frame sorter for a frame that starts before or inside a gap: it ends in that gap or behind it,
  or at a later one. Both cases compute the offsets \<open>a\<close> and \<open>b\<close> of the data that is stored and end in \<open>store_entry_spec\<close>.
\<close>

section \<open>A push with both ends found\<close>

text \<open>The frame's data is cut at the start of its gap, unless it replaces entries before the gap.\<close>

definition cut_start :: "byteInterval \<Rightarrow> int \<Rightarrow> bool \<Rightarrow> int" where
  "cut_start sg start has = (if start < bi_Start sg \<and> \<not> has then bi_Start sg else start)"

lemma slice_start:
  assumes "matches S start data" "end = start + int (length data)" "bi_Start sg < end"
  shows "\<exists>d. (if \<not> bi_Start sg \<le> start \<and> \<not> has then
        rbind (data_slice data (bi_Start sg - start) (int (length data))) (\<lambda>data. Inr (data, bi_Start sg, True))
      else Inr (data, start, False)) = Inr (d, cut_start sg start has, cut_start sg start has \<noteq> start)
    \<and> matches S (cut_start sg start has) d \<and> int (length d) = end - cut_start sg start has"
proof (cases "start < bi_Start sg \<and> \<not> has")
  case True
  then show ?thesis using matches_slice [OF assms(1), of "bi_Start sg - start" "int (length data)"] assms(2,3)
    by (auto simp: algebra_simps cut_start_def)
next
  case False
  then show ?thesis using assms by (auto simp: cut_start_def)
qed

text \<open>It is cut at the end of the last gap it reaches.\<close>

lemma slice_end:
  assumes "matches S a d" "int (length d) = end - a" "a < E" "a < end" "endsInGap \<longleftrightarrow> end < E"
  shows "\<exists>d' wasCut'. (if \<not> endsInGap \<and> a \<noteq> E \<and> end > E then
        rbind (data_slice d 0 (E - a)) (\<lambda>data. Inr (data, E, True))
      else Inr (d, end, wasCut)) = Inr (d', min end E, wasCut')
    \<and> matches S a d' \<and> int (length d') = min end E - a"
proof (cases "end > E")
  case True
  then show ?thesis using matches_slice [OF assms(1), of 0 "E - a"] assms(2-5) by auto
qed (use assms in auto)

lemma push_into_inside_same:
  assumes "sorter_inv S R s" "fs_gaps s = pre @ sg # rest" "matches S start data"
    and e: "end = start + int (length data)" "end < MaxByteCount" "bi_Start sg < end" "0 \<le> start" "start < end"
    and "\<forall>x\<in>gap_set pre. x < start" "endsInGap \<longleftrightarrow> end < bi_End sg" "\<forall>h\<in>set rest. end < bi_Start h"
    and loop: "replace_loop (fs_queue s) end start False [] = Some (q', None, has, new)"
    and rep: "rep_inside S s sg start q' has new"
  shows "\<exists>r. push_into s data start doneCb pre sg rest (bi_Start sg \<le> start) None endsInGap = Inr r
    \<and> pushed S R s start end doneCb r"
proof -
  note inv = inv_facts [OF assms(1,2)]
  note g = gaps_okD [OF inv(1)]
  note rr = rep [unfolded rep_inside_def]
  define a where "a = cut_start sg start has"
  define b where "b = min end (bi_End sg)"
  have a: "start \<le> a" "a < end" "a < bi_End sg" "has \<Longrightarrow> a = start" "fs_readPos s \<le> a" "a = start \<or> a = bi_Start sg"
    "bi_Start sg \<le> start \<Longrightarrow> a = start" "start < bi_Start sg \<Longrightarrow> \<not> has \<Longrightarrow> a = bi_Start sg"
    using rr e g(2) inv(3) by (auto simp: a_def cut_start_def)
  have ab: "a < b" "b \<le> end" "b \<le> bi_End sg" using a g(2) e(3) by (auto simp: b_def)
  obtain d1 where d1: "(if \<not> bi_Start sg \<le> start \<and> \<not> has then
        rbind (data_slice data (bi_Start sg - start) (int (length data))) (\<lambda>data. Inr (data, bi_Start sg, True))
      else Inr (data, start, False)) = Inr (d1, a, a \<noteq> start)" "matches S a d1" "int (length d1) = end - a"
    using slice_start [OF assms(3) e(1,3), of has] unfolding a_def by blast
  obtain d2 wasCut where d2: "(if \<not> endsInGap \<and> a \<noteq> bi_End sg \<and> end > bi_End sg then
        rbind (data_slice d1 0 (bi_End sg - a)) (\<lambda>data. Inr (data, bi_End sg, True))
      else Inr (d1, end, a \<noteq> start)) = Inr (d2, b, wasCut)" "matches S a d2" "int (length d2) = b - a"
    using slice_end [OF d1(2,3) a(3,2) assms(10), of "a \<noteq> start"] unfolding b_def by blast
  define new_gaps where "new_gaps = (if a \<le> bi_Start sg then (if end \<ge> bi_End sg then [] else [sg\<lparr>bi_Start := end\<rparr>])
    else sg\<lparr>bi_End := a\<rparr> # (if b \<noteq> bi_End sg then [\<lparr>bi_Start = b, bi_End = bi_End sg\<rparr>] else []))"
  have ok: "gaps_ok (pre @ new_gaps @ rest)"
  proof (rule gaps_ok_replace [of pre "[sg]"])
    show "gaps_ok (pre @ [sg] @ rest)" using inv(1) by simp
    assume "rest = []"
    then have "end < bi_End sg" using g(6) e(2) by simp
    then show "new_gaps \<noteq> [] \<and> bi_End (last new_gaps) = bi_End (last [sg])" by (auto simp: new_gaps_def b_def)
  qed (use g(2) a ab e in \<open>auto simp: new_gaps_def b_def\<close>)
  have above: "\<forall>x\<in>gap_set rest. end < x" using assms(11) g(9) by (force simp: gap_set_def ivl_def)
  have set: "gap_set (pre @ new_gaps @ rest) = gap_set (fs_gaps s) - {a..<b}"
  proof (rule set_eqI)
    fix x
    have "x \<in> gap_set pre \<Longrightarrow> x < a" "x \<in> gap_set rest \<Longrightarrow> b \<le> x" using assms(9) above a(1) ab(2) by force+
    moreover have "x \<in> gap_set new_gaps \<longleftrightarrow> x \<in> ivl sg \<and> x \<notin> {a..<b}"
      using a ab e(3) by (auto simp: new_gaps_def ivl_def b_def min_def split: if_splits)
    ultimately show "x \<in> gap_set (pre @ new_gaps @ rest) \<longleftrightarrow> x \<in> gap_set (fs_gaps s) - {a..<b}"
      using assms(2) by auto
  qed
  have q: "queued q' = queued (fs_queue s) - {a..<b}"
  proof (rule set_eqI)
    fix x
    have "x \<notin> queued (fs_queue s)" if "bi_Start sg \<le> x" "x < bi_End sg" using inv(4) that by (auto simp: ivl_def)
    then show "x \<in> queued q' \<longleftrightarrow> x \<in> queued (fs_queue s) - {a..<b}"
      using rr a ab e(3) g(2) by (cases has; cases "start < bi_Start sg") (auto simp: b_def)
  qed
  have cover: "{start..<end} \<subseteq> R \<union> {a..<b}"
  proof
    fix x
    assume x: "x \<in> {start..<end}"
    then have "x \<in> gap_set (fs_gaps s) \<Longrightarrow> x \<in> {a..<b}"
      using assms(2,9) above a by (auto simp: ivl_def b_def)
    then show "x \<in> R \<union> {a..<b}" using assms(1) x e by (auto simp: sorter_inv_def)
  qed
  have "pushed S R s start end doneCb (store_entry s d2 a doneCb wasCut q' (pre @ new_gaps @ rest) new)"
    using store_entry_spec [OF assms(1) _ q ok set a(5) ab(1) _ d2(2,3) _ a(1) ab(2) cover] rr ab(3) g(3) by simp
  moreover have "push_into s data start doneCb pre sg rest (bi_Start sg \<le> start) None endsInGap
      = Inr (store_entry s d2 a doneCb wasCut q' (pre @ new_gaps @ rest) new)"
    unfolding push_into_def Let_def e(1) [symmetric]
    using d1(1) d2(1) rr a by (auto simp: loop new_gaps_def)
  ultimately show ?thesis by blast
qed

text \<open>Between a gap and the next one everything is queued.\<close>

lemma next_gap:
  assumes "sorter_inv S R s" "fs_gaps s = pre @ sg # h # rest"
  shows "bi_End sg < bi_Start h" "{bi_End sg..<bi_Start h} \<subseteq> queued (fs_queue s)" "bi_Start h \<notin> queued (fs_queue s)"
proof -
  note inv = inv_facts [OF assms]
  note g = gaps_okD [OF inv(1)]
  have "gaps_ok ((pre @ [sg]) @ h # rest)" using inv(1) by simp
  note gh = gaps_okD [OF this]
  show "bi_End sg < bi_Start h" using g(5) by simp
  show "{bi_End sg..<bi_Start h} \<subseteq> queued (fs_queue s)"
  proof
    fix x
    assume x: "x \<in> {bi_End sg..<bi_Start h}"
    have "x \<notin> gap_set pre" "x \<notin> gap_set rest" "x \<notin> ivl sg" "x \<notin> ivl h"
      using x g(2) gh(2) bspec [OF g(10), of x] bspec [OF gh(11), of x] by (auto simp: ivl_def)
    then have "x \<notin> gap_set (pre @ sg # h # rest)" by simp
    moreover have "fs_readPos s \<le> x" "x < MaxByteCount" using x inv(3) g(2) gh(2,3) by auto
    ultimately show "x \<in> queued (fs_queue s)" using inv(5) by blast
  qed
  have "bi_Start h \<in> gap_set (pre @ sg # h # rest)" using gh(2) by (simp add: ivl_def)
  then show "bi_Start h \<notin> queued (fs_queue s)" using inv(4) by blast
qed

lemma push_into_inside_later:
  assumes "sorter_inv S R s" "fs_gaps s = pre @ sg # mid @ eg # post" "matches S start data"
    and e: "end = start + int (length data)" "end < MaxByteCount" "bi_Start eg \<le> end" "0 \<le> start"
    and "\<forall>x\<in>gap_set pre. x < start" "endsInGap \<longleftrightarrow> end < bi_End eg" "\<forall>h\<in>set post. end < bi_Start h"
    and loop: "replace_loop (fs_queue s) end start False [] = Some (q', None, has, new)"
    and rep: "rep_inside S s sg start q' has new"
  shows "\<exists>r. push_into s data start doneCb pre sg (mid @ eg # post) (bi_Start sg \<le> start) (Some (mid, eg, post)) endsInGap = Inr r
    \<and> pushed S R s start end doneCb r"
proof -
  note inv = inv_facts [OF assms(1,2)]
  note g = gaps_okD [OF inv(1)]
  have inv1: "gaps_ok ((pre @ sg # mid) @ eg # post)" using inv(1) by simp
  note ge = gaps_okD [OF inv1]
  note rr = rep [unfolded rep_inside_def]
  have eg: "bi_End sg < bi_Start eg" "\<forall>h\<in>set mid. bi_End sg < bi_Start h" using g(5) by auto
  define a where "a = cut_start sg start has"
  define b where "b = min end (bi_End eg)"
  have a: "start \<le> a" "a < bi_End sg" "has \<Longrightarrow> a = start" "fs_readPos s \<le> a" "bi_Start sg \<le> start \<Longrightarrow> a = start"
    "start < bi_Start sg \<Longrightarrow> \<not> has \<Longrightarrow> a = bi_Start sg"
    using rr g(2) inv(3) by (auto simp: a_def cut_start_def)
  have ab: "a < b" "b \<le> end" "b \<le> bi_End eg" "bi_Start eg \<le> b" "a < end" "a < bi_End eg"
    using a eg(1) e(3) ge(2) by (auto simp: b_def)
  obtain d1 where d1: "(if \<not> bi_Start sg \<le> start \<and> \<not> has then
        rbind (data_slice data (bi_Start sg - start) (int (length data))) (\<lambda>data. Inr (data, bi_Start sg, True))
      else Inr (data, start, False)) = Inr (d1, a, a \<noteq> start)" "matches S a d1" "int (length d1) = end - a"
    using slice_start [OF assms(3) e(1), of sg has] eg(1) e(3) g(2) unfolding a_def by force
  obtain d2 wasCut where d2: "(if \<not> endsInGap \<and> a \<noteq> bi_End eg \<and> end > bi_End eg then
        rbind (data_slice d1 0 (bi_End eg - a)) (\<lambda>data. Inr (data, bi_End eg, True))
      else Inr (d1, end, a \<noteq> start)) = Inr (d2, b, wasCut)" "matches S a d2" "int (length d2) = b - a"
    using slice_end [OF d1(2,3) ab(6,5) assms(9), of "a \<noteq> start"] unfolding b_def by blast
  define N where "N = bi_Start (hd (mid @ [eg]))"
  obtain h r where h: "mid @ eg # post = h # r" "N = bi_Start h" by (cases mid) (auto simp: N_def)
  have hs: "fs_gaps s = pre @ sg # h # r" using assms(2) h(1) by simp
  note nx = next_gap [OF assms(1) hs, folded h(2)]
  have N: "bi_End sg < N" using nx(1) .
  have seg: "{bi_End sg..<N} \<subseteq> queued q'"
  proof
    fix x
    assume x: "x \<in> {bi_End sg..<N}"
    then have "x \<in> queued (fs_queue s)" using nx(2) by blast
    then show "x \<in> queued q'" using rr x g(2) by (cases has) auto
  qed
  have sub: "queued q' \<subseteq> queued (fs_queue s)" "\<And>x. N \<le> x \<Longrightarrow> x \<in> queued (fs_queue s) \<Longrightarrow> x \<in> queued q'"
    using rr N g(2) by (cases has; auto)+
  obtain q'' new' where del: "(let (queue, cbs) = deleteConsecutive q' (bi_End sg) new in delete_between queue (bi_Start eg) mid cbs)
      = (q'', [], new @ new')" "queue_ok S q''" "queued q'' = queued q' - {bi_End sg..<bi_Start eg}" "held q' = held q'' + mset new'"
    using between_gaps [OF assms(1,2), of q' new] rr sub seg unfolding N_def by blast
  define new_gaps where "new_gaps = (if a \<le> bi_Start sg then [] else [sg\<lparr>bi_End := a\<rparr>])
    @ (if b = bi_End eg then [] else [eg\<lparr>bi_Start := b\<rparr>])"
  have ok: "gaps_ok (pre @ new_gaps @ post)"
  proof (rule gaps_ok_replace [of pre "sg # mid @ [eg]"])
    show "gaps_ok (pre @ (sg # mid @ [eg]) @ post)" using inv(1) by simp
    assume "post = []"
    then have "b < bi_End eg" using ge(6) e(2) by (simp add: b_def)
    then show "new_gaps \<noteq> [] \<and> bi_End (last new_gaps) = bi_End (last (sg # mid @ [eg]))" by (simp add: new_gaps_def)
  qed (use g(2) a ab eg in \<open>auto simp: new_gaps_def\<close>)
  have midr: "bi_End sg < x \<and> x < bi_Start eg" if m: "x \<in> gap_set mid" for x
  proof -
    obtain k where k: "k \<in> set mid" "bi_Start k \<le> x" "x < bi_End k" using m by (auto simp: gap_set_def ivl_def)
    then have "bi_End sg < bi_Start k" "bi_End k < bi_Start eg" using eg(2) ge(4) by auto
    then show ?thesis using k by simp
  qed
  have above: "\<forall>x\<in>gap_set post. end < x" using assms(10) ge(9) by (force simp: gap_set_def ivl_def)
  have set: "gap_set (pre @ new_gaps @ post) = gap_set (fs_gaps s) - {a..<b}"
  proof (rule set_eqI)
    fix x
    have mid: "x \<in> gap_set mid \<Longrightarrow> a \<le> x \<and> x < b" using midr [of x] a(2) ab(4) by simp
    have "x \<in> gap_set pre \<Longrightarrow> x < a" "x \<in> gap_set post \<Longrightarrow> b \<le> x" using assms(8) above a(1) ab(2) by force+
    moreover have "x \<in> gap_set new_gaps \<longleftrightarrow> x \<in> ivl sg \<union> ivl eg \<and> x \<notin> {a..<b}"
      using a ab eg g(2) ge(2) by (auto simp: new_gaps_def ivl_def split: if_splits)
    ultimately show "x \<in> gap_set (pre @ new_gaps @ post) \<longleftrightarrow> x \<in> gap_set (fs_gaps s) - {a..<b}"
      using assms(2) mid by auto
  qed
  have q: "queued q'' = queued (fs_queue s) - {a..<b}"
  proof (rule set_eqI)
    fix x
    have "x \<notin> queued (fs_queue s)" if "bi_Start sg \<le> x \<and> x < bi_End sg \<or> bi_Start eg \<le> x \<and> x < bi_End eg"
      using inv(4) that by (auto simp: ivl_def)
    then show "x \<in> queued q'' \<longleftrightarrow> x \<in> queued (fs_queue s) - {a..<b}"
      using rr a ab eg(1) g(2) del(3) by (cases has; cases "start < bi_Start sg") auto
  qed
  have cover: "{start..<end} \<subseteq> R \<union> {a..<b}"
  proof
    fix x
    assume x: "x \<in> {start..<end}"
    have "x \<in> gap_set mid \<Longrightarrow> a \<le> x \<and> x < b" using midr [of x] a(2) ab(4) by simp
    then have "x \<in> gap_set (fs_gaps s) \<Longrightarrow> x \<in> {a..<b}"
      using x assms(2,8) above a(5,6) ab eg(1) rr a(3) g(2) by (cases has; cases "start < bi_Start sg") (auto simp: ivl_def b_def)
    then show "x \<in> R \<union> {a..<b}" using assms(1) x e by (auto simp: sorter_inv_def)
  qed
  have "held (fs_queue s) = held q'' + mset (new @ new')" using rr del(4) by simp
  then have "pushed S R s start end doneCb (store_entry s d2 a doneCb wasCut q'' (pre @ new_gaps @ post) (new @ new'))"
    using store_entry_spec [OF assms(1) del(2) q ok set a(4) ab(1) _ d2(2,3) _ a(1) ab(2) cover] ab(3) ge(3) by simp
  moreover have "bi_End sg \<le> end" using eg(1) e(3) by simp
  then have "push_into s data start doneCb pre sg (mid @ eg # post) (bi_Start sg \<le> start) (Some (mid, eg, post)) endsInGap
      = Inr (store_entry s d2 a doneCb wasCut q'' (pre @ new_gaps @ post) (new @ new'))"
    unfolding push_into_def e(1) [symmetric]
    using d1(1) d2(1) rr a(3,5) del(1) by (auto simp: loop new_gaps_def Let_def)
  ultimately show ?thesis by blast
qed

end
