(* ===== verification/Quic_Frame_Sorter_Spec.thy ===== *)
theory Quic_Frame_Sorter_Spec
  imports Quic_Frame_Sorter_Push
begin

text \<open>
  The frame sorter against its specification, a byte stream \<open>S\<close> and the set \<open>R\<close> of the offsets that have arrived:
  the remaining cases of \<open>push\<close>, the operations, and all sequences of them as a step relation.
\<close>

section \<open>A push that starts at the end of a gap\<close>

lemma push_into_end_same:
  assumes "sorter_inv S R s" "fs_gaps s = pre @ sg # h # rest" "matches S start data"
    and e: "end = start + int (length data)" "end < MaxByteCount" "end < bi_Start h"
    and loop: "replace_loop (fs_queue s) end start False [] = Some (q', cutPos, True, new)"
    and rep: "rep_at_end S s sg start end q' cutPos new b"
  shows "\<exists>r. push_into s data start doneCb pre sg (h # rest) True None False = Inr r \<and> pushed S R s start end doneCb r"
proof -
  note inv = inv_facts [OF assms(1,2)]
  note g = gaps_okD [OF inv(1)]
  note nx = next_gap [OF assms(1,2)]
  note rr = rep [unfolded rep_at_end_def]
  have "cutPos \<noteq> None"
  proof
    assume "cutPos = None"
    then have "b \<notin> queued (fs_queue s)" using rr by simp
    moreover have "b \<in> {bi_End sg..<bi_Start h}" using rr e(3) by auto
    ultimately show False using nx(2) by blast
  qed
  then have c: "cutPos = Some b" "{start..end} \<subseteq> queued (fs_queue s)" using rr by metis+
  have b: "start < b" "b \<le> end" "start = bi_End sg" using rr by auto
  obtain d where d: "data_slice data 0 (b - start) = Inr d" "matches S start d" "int (length d) = b - start"
    using matches_slice [OF assms(3), of 0 "b - start"] b e(1) by auto
  have R: "queued (fs_queue s) = R \<inter> {fs_readPos s..}" "R = {0..<MaxByteCount} - gap_set (fs_gaps s)"
    using assms(1) by (auto simp: sorter_inv_def)
  have sub: "{start..<end} \<subseteq> R" using c(2) R(1) by fastforce
  have "\<forall>x\<in>{start..<b}. x \<notin> gap_set (fs_gaps s)" using sub b(2) R(2) by fastforce
  then have set: "gap_set (fs_gaps s) = gap_set (fs_gaps s) - {start..<b}" by blast
  have "pushed S R s start end doneCb (store_entry s d start doneCb True q' (fs_gaps s) new)"
    using store_entry_spec [OF assms(1) _ _ _ set _ b(1) _ d(2,3) _ order_refl b(2), of q' new doneCb True] rr sub b e(2) inv g(2)
      assms(2) by force
  moreover have "\<not> start \<le> bi_Start sg" using b(3) g(2) by simp
  then have "push_into s data start doneCb pre sg (h # rest) True None False
      = Inr (store_entry s d start doneCb True q' (fs_gaps s) new)"
    unfolding push_into_def e(1) [symmetric] using d(1) c(1) by (simp add: loop assms(2) Let_def b(3) [symmetric])
  ultimately show ?thesis by blast
qed

lemma push_into_end_later:
  assumes "sorter_inv S R s" "fs_gaps s = pre @ sg # mid @ eg # post" "matches S start data"
    and e: "end = start + int (length data)" "end < MaxByteCount" "bi_Start eg \<le> end"
    and "endsInGap \<longleftrightarrow> end < bi_End eg" "\<forall>h\<in>set post. end < bi_Start h"
    and loop: "replace_loop (fs_queue s) end start False [] = Some (q', cutPos, True, new)"
    and rep: "rep_at_end S s sg start end q' cutPos new c"
  shows "\<exists>r. push_into s data start doneCb pre sg (mid @ eg # post) True (Some (mid, eg, post)) endsInGap = Inr r
    \<and> pushed S R s start end doneCb r"
proof -
  note inv = inv_facts [OF assms(1,2)]
  note g = gaps_okD [OF inv(1)]
  have inv1: "gaps_ok ((pre @ sg # mid) @ eg # post)" using inv(1) by simp
  note ge = gaps_okD [OF inv1]
  note rr = rep [unfolded rep_at_end_def]
  have st: "start = bi_End sg" "start < c" "c \<le> end" "queued q' = queued (fs_queue s) - {start..<c}" using rr by auto
  have eg: "bi_End sg < bi_Start eg" "\<forall>h\<in>set mid. bi_End sg < bi_Start h" using g(5) by auto
  define N where "N = bi_Start (hd (mid @ [eg]))"
  obtain h r where h: "mid @ eg # post = h # r" "N = bi_Start h" by (cases mid) (auto simp: N_def)
  have hs: "fs_gaps s = pre @ sg # h # r" using assms(2) h(1) by simp
  note nx = next_gap [OF assms(1) hs, folded h(2)]
  have "h = eg \<or> h \<in> set mid" using h(1) by (cases mid) auto
  then have Nle: "N \<le> bi_Start eg" using h(2) ge(4,8) by (force intro: less_imp_le order.strict_trans)
  have none: "cutPos = None"
  proof (rule ccontr)
    assume "cutPos \<noteq> None"
    then have "{start..end} \<subseteq> queued (fs_queue s)" using rr by metis
    moreover have "N \<in> {start..end}" using st(1) nx(1) Nle e(3) by simp
    ultimately show False using nx(3) by blast
  qed
  have "c = N"
  proof (rule ccontr)
    assume "c \<noteq> N"
    moreover have "c \<notin> queued (fs_queue s)" "{start..<c} \<subseteq> queued (fs_queue s)" using rr none by metis+
    ultimately show False using nx st by (metis atLeastLessThan_iff less_imp_le not_less_iff_gr_or_eq subsetD)
  qed
  then have c: "queued q' = queued (fs_queue s) - {bi_End sg..<N}" using st by simp
  have seg: "\<forall>x\<in>{bi_End sg..<N}. x \<notin> queued q'" "queued q' \<subseteq> queued (fs_queue s)"
    "\<And>x. N \<le> x \<Longrightarrow> x \<in> queued (fs_queue s) \<Longrightarrow> x \<in> queued q'" using c by auto
  obtain q'' new' where del: "(let (queue, cbs) = deleteConsecutive q' (bi_End sg) new in delete_between queue (bi_Start eg) mid cbs)
      = (q'', [], new @ new')" "queue_ok S q''" "queued q'' = queued q' - {bi_End sg..<bi_Start eg}" "held q' = held q'' + mset new'"
    using between_gaps [OF assms(1,2), of q' new] rr seg unfolding N_def by blast
  define b where "b = min end (bi_End eg)"
  have ab: "start < b" "b \<le> end" "b \<le> bi_End eg" "bi_Start eg \<le> b" "start < end" "start < bi_End eg"
    using st eg(1) e(3) ge(2) by (auto simp: b_def)
  obtain d wasCut where d: "(if \<not> endsInGap \<and> start \<noteq> bi_End eg \<and> end > bi_End eg then
        rbind (data_slice data 0 (bi_End eg - start)) (\<lambda>data. Inr (data, bi_End eg, True))
      else Inr (data, end, False)) = Inr (d, b, wasCut)" "matches S start d" "int (length d) = b - start"
    using slice_end [OF assms(3) _ ab(6,5) assms(7), of False] e(1) unfolding b_def by force
  define new_gaps where "new_gaps = sg # (if b = bi_End eg then [] else [eg\<lparr>bi_Start := b\<rparr>])"
  have ok: "gaps_ok (pre @ new_gaps @ post)"
  proof (rule gaps_ok_replace [of pre "sg # mid @ [eg]"])
    show "gaps_ok (pre @ (sg # mid @ [eg]) @ post)" using inv(1) by simp
    assume "post = []"
    then have "b < bi_End eg" using ge(6) e(2) by (simp add: b_def)
    then show "new_gaps \<noteq> [] \<and> bi_End (last new_gaps) = bi_End (last (sg # mid @ [eg]))" by (simp add: new_gaps_def)
  qed (use g(2) ab eg ge(2) in \<open>auto simp: new_gaps_def\<close>)
  have midr: "bi_End sg < x \<and> x < bi_Start eg" if m: "x \<in> gap_set mid" for x
  proof -
    obtain k where k: "k \<in> set mid" "bi_Start k \<le> x" "x < bi_End k" using m by (auto simp: gap_set_def ivl_def)
    then have "bi_End sg < bi_Start k" "bi_End k < bi_Start eg" using eg(2) ge(4) by auto
    then show ?thesis using k by simp
  qed
  have above: "\<forall>x\<in>gap_set post. end < x" using assms(8) ge(9) by (force simp: gap_set_def ivl_def)
  have set: "gap_set (pre @ new_gaps @ post) = gap_set (fs_gaps s) - {start..<b}"
  proof (rule set_eqI)
    fix x
    have "x \<in> gap_set pre \<Longrightarrow> x < start" "x \<in> gap_set post \<Longrightarrow> b \<le> x" "x \<in> gap_set mid \<Longrightarrow> start \<le> x \<and> x < b"
      using g(2) bspec [OF g(10), of x] st(1) bspec [OF above, of x] ab midr [of x] by auto
    moreover have "x \<in> gap_set new_gaps \<longleftrightarrow> x \<in> ivl sg \<union> ivl eg \<and> x \<notin> {start..<b}"
      using st(1) ab eg(1) g(2) ge(2) by (auto simp: new_gaps_def ivl_def split: if_splits)
    ultimately show "x \<in> gap_set (pre @ new_gaps @ post) \<longleftrightarrow> x \<in> gap_set (fs_gaps s) - {start..<b}"
      using assms(2) by auto
  qed
  have q: "queued q'' = queued (fs_queue s) - {start..<b}"
  proof (rule set_eqI)
    fix x
    have "x \<notin> queued (fs_queue s)" if "bi_Start eg \<le> x \<and> x < bi_End eg" using inv(4) that by (auto simp: ivl_def)
    then show "x \<in> queued q'' \<longleftrightarrow> x \<in> queued (fs_queue s) - {start..<b}" using st(1) ab del(3) c Nle by auto
  qed
  have cover: "{start..<end} \<subseteq> R \<union> {start..<b}"
  proof
    fix x
    assume x: "x \<in> {start..<end}"
    have "0 \<le> start" using st(1) g(1,2) by simp
    moreover have "x \<in> gap_set (fs_gaps s) \<Longrightarrow> x \<in> {start..<b}"
      using x assms(2) bspec [OF g(10), of x] bspec [OF above, of x] midr [of x] st(1) ab eg(1) g(2) by (auto simp: ivl_def b_def)
    ultimately show "x \<in> R \<union> {start..<b}" using assms(1) x e by (auto simp: sorter_inv_def)
  qed
  have "held (fs_queue s) = held q'' + mset (new @ new')" using rr del(4) by simp
  moreover have "fs_readPos s \<le> start" using inv(3) st(1) g(2) by simp
  ultimately have "pushed S R s start end doneCb (store_entry s d start doneCb wasCut q'' (pre @ new_gaps @ post) (new @ new'))"
    using store_entry_spec [OF assms(1) del(2) q ok set _ ab(1) _ d(2,3) _ order_refl ab(2) cover] ab(3) ge(3) by simp
  moreover have "\<not> start \<le> bi_Start sg" using st(1) g(2) by simp
  then have "push_into s data start doneCb pre sg (mid @ eg # post) True (Some (mid, eg, post)) endsInGap
      = Inr (store_entry s d start doneCb wasCut q'' (pre @ new_gaps @ post) (new @ new'))"
    unfolding push_into_def e(1) [symmetric] using d(1) del(1) none by (auto simp: loop new_gaps_def Let_def)
  ultimately show ?thesis by blast
qed

lemma push_later:
  assumes "sorter_inv S R s" "fs_gaps s = pre @ sg # mid @ eg # post" "matches S start data"
    and e: "end = start + int (length data)" "end < MaxByteCount" "bi_Start eg \<le> end" "0 \<le> start" "start < end"
    and "\<forall>x\<in>gap_set pre. x < start" "start \<le> bi_End sg" "endsInGap \<longleftrightarrow> end < bi_End eg" "\<forall>h\<in>set post. end < bi_Start h"
  shows "\<exists>r. (if bi_End sg \<ge> bi_Start eg \<and> end \<le> bi_Start sg then Inr (DuplicateStreamData, s, [])
      else push_into s data start doneCb pre sg (mid @ eg # post) (bi_Start sg \<le> start) (Some (mid, eg, post)) endsInGap) = Inr r
    \<and> (r = (DuplicateStreamData, s, []) \<and> {start..<end} \<subseteq> R \<or> pushed S R s start end doneCb r)"
proof -
  note g = gaps_okD [OF inv_facts(1) [OF assms(1,2)]]
  have s_e: "bi_Start sg < end" "\<not> end \<le> bi_Start sg" using g(2,5) e(3) by auto
  from replace_cases [OF assms(1,2) e(5,2) s_e(1) assms(10,9)] show ?thesis
  proof (elim disjE exE conjE)
    assume "replace_loop (fs_queue s) end start False [] = None" "{start..<end} \<subseteq> queued (fs_queue s)"
    then show ?thesis using s_e(2) assms(1) by (auto simp: push_into_def e(1) [symmetric] sorter_inv_def)
  next
    fix q' new has
    assume r: "replace_loop (fs_queue s) end start False [] = Some (q', None, has, new)" "rep_inside S s sg start q' has new"
    show ?thesis
      using push_into_inside_later [OF assms(1-3) e(1-4) assms(9,11,12) r, of doneCb] s_e(2) by auto
  next
    fix q' cutPos new b
    assume r: "replace_loop (fs_queue s) end start False [] = Some (q', cutPos, True, new)"
      "rep_at_end S s sg start end q' cutPos new b"
    then have "bi_Start sg \<le> start" using g(2) by (simp add: rep_at_end_def)
    then show ?thesis
      using push_into_end_later [OF assms(1-3) e(1-3) assms(11,12) r, of doneCb] s_e(2) by auto
  qed
qed

section \<open>The operations\<close>

lemma not_in_gaps_received:
  assumes "sorter_inv S R s" "0 \<le> a" "b \<le> MaxByteCount" "\<forall>x\<in>{a..<b}. x \<notin> gap_set (fs_gaps s)"
  shows "{a..<b} \<subseteq> R"
proof
  fix x
  assume "x \<in> {a..<b}"
  then show "x \<in> R" using assms by (auto simp: sorter_inv_def)
qed

lemma push_spec:
  assumes "sorter_inv S R s" "matches S offset data" "0 \<le> offset" "offset + int (length data) < MaxByteCount"
  shows "\<exists>r. push s data offset doneCb = Inr r \<and> (r = (DuplicateStreamData, s, []) \<and> {offset..<offset + int (length data)} \<subseteq> R
    \<or> pushed S R s offset (offset + int (length data)) doneCb r)"
proof (cases "data = []")
  case True
  then show ?thesis by (simp add: push_def)
next
  case False
  define e where "e = offset + int (length data)"
  have oe: "offset < e" "e < MaxByteCount" "offset < MaxByteCount" using False assms(4) by (auto simp: e_def)
  have ok: "gaps_ok (fs_gaps s)" using assms(1) by (simp add: sorter_inv_def)
  then obtain front gs where fr: "fs_gaps s = front # gs" by (cases "fs_gaps s") (auto simp: gaps_ok_def)
  have fok: "gaps_ok ([] @ front # gs)" using ok fr by simp
  note gf = gaps_okD [OF fok]
  have dup: "{offset..<e} \<subseteq> R" if "\<forall>x\<in>{offset..<e}. x \<notin> gap_set (fs_gaps s)"
    using not_in_gaps_received [OF assms(1,3)] oe(2) that by simp
  show ?thesis
  proof (cases "e \<le> bi_Start front")
    case True
    have "x \<notin> gap_set (fs_gaps s)" if "x \<in> {offset..<e}" for x
      using that True gf(2) bspec [OF gf(11), of x] by (auto simp: fr ivl_def)
    then show ?thesis using True dup False by (auto simp: push_def fr e_def [symmetric])
  next
    case front: False
    obtain pre sg rest where st: "findStartGap [] (fs_gaps s) offset = Inr (pre, sg, rest, bi_Start sg \<le> offset)"
      "fs_gaps s = pre @ sg # rest" "\<forall>x\<in>gap_set pre. x < offset" "offset \<le> bi_End sg"
      using find_start [OF ok oe(3)] by blast
    have gok: "gaps_ok (pre @ sg # rest)" using ok st(2) by simp
    note g = gaps_okD [OF gok]
    have push: "push s data offset doneCb = rbind (findEndGap pre sg rest e) (\<lambda>endGap.
          case endGap of
            PreviousGap None \<Rightarrow> Inl NilGap
          | PreviousGap (Some g) \<Rightarrow>
              if bi_End sg \<ge> bi_Start g \<and> e \<le> bi_Start sg then Inr (DuplicateStreamData, s, [])
              else Inl GapsOutOfOrder
          | SameGap endsInGap \<Rightarrow>
              if e \<le> bi_Start sg then Inr (DuplicateStreamData, s, [])
              else push_into s data offset doneCb pre sg rest (bi_Start sg \<le> offset) None endsInGap
          | LaterGap mid g post endsInGap \<Rightarrow>
              if bi_End sg \<ge> bi_Start g \<and> e \<le> bi_Start sg then Inr (DuplicateStreamData, s, [])
              else push_into s data offset doneCb pre sg rest (bi_Start sg \<le> offset) (Some (mid, g, post)) endsInGap)"
      using False front st(1) by (simp add: push_def fr e_def [symmetric])
    have early: "\<forall>x\<in>{offset..<e}. x \<notin> gap_set (fs_gaps s)" if "e \<le> bi_Start sg"
    proof
      fix x
      assume x: "x \<in> {offset..<e}"
      then show "x \<notin> gap_set (fs_gaps s)"
        using that st(2) bspec [OF st(3), of x] bspec [OF g(11), of x] g(2) by (auto simp: ivl_def)
    qed
    have dupl: "\<exists>r. Inr (DuplicateStreamData, s, []) = Inr r \<and> (r = (DuplicateStreamData, s, []) \<and> {offset..<e} \<subseteq> R
      \<or> pushed S R s offset e doneCb r)" if "e \<le> bi_Start sg" using dup early [OF that] by simp
    note cases = replace_cases [OF assms(1) st(2) oe(1,2) _ st(4,3)]
    note dupq = assms(1) [unfolded sorter_inv_def]
    show ?thesis unfolding e_def [symmetric]
      using find_end [OF gok oe(2)]
    proof (elim disjE exE conjE)
      assume p: "e < bi_Start sg" "findEndGap pre sg rest e = Inr (PreviousGap (if pre = [] then None else Some (last pre)))"
      have "pre \<noteq> []" using p(1) front fr st(2) by auto
      then have "last pre \<in> set pre" by simp
      then have "bi_End (last pre) < bi_Start sg" "bi_Start (last pre) < bi_End (last pre)" using g(4,8) by auto
      then have "bi_Start (last pre) \<le> bi_End sg" using g(2) by linarith
      then show "\<exists>r. push s data offset doneCb = Inr r \<and> (r = (DuplicateStreamData, s, []) \<and> {offset..<e} \<subseteq> R
        \<or> pushed S R s offset e doneCb r)"
        unfolding push p(2) using \<open>pre \<noteq> []\<close> p(1) dupl by simp
    next
      assume p: "bi_Start sg \<le> e" "e < bi_End sg" "findEndGap pre sg rest e = Inr (SameGap True)"
      have above: "\<forall>h\<in>set rest. e < bi_Start h" using p(2) g(5) by force
      show "\<exists>r. push s data offset doneCb = Inr r \<and> (r = (DuplicateStreamData, s, []) \<and> {offset..<e} \<subseteq> R
        \<or> pushed S R s offset e doneCb r)"
      proof (cases "e \<le> bi_Start sg")
        case True
        then show ?thesis unfolding push p(3) using dupl by simp
      next
        case False
        then have s_e: "bi_Start sg < e" by simp
        have "offset < bi_End sg" using oe(1) p(2) by simp
        with cases [OF s_e] show ?thesis
        proof (elim disjE exE conjE)
          assume "replace_loop (fs_queue s) e offset False [] = None" "{offset..<e} \<subseteq> queued (fs_queue s)"
          then show ?thesis unfolding push p(3) using False dupq by (auto simp: push_into_def e_def [symmetric])
        next
          fix q' new has
          assume r: "replace_loop (fs_queue s) e offset False [] = Some (q', None, has, new)" "rep_inside S s sg offset q' has new"
          show ?thesis unfolding push p(3)
            using push_into_inside_same [OF assms(1) st(2) assms(2) e_def oe(2) s_e assms(3) oe(1) st(3) _ above r, of True doneCb]
              p(2) False by auto
        next
          fix q' cutPos new b
          assume "rep_at_end S s sg offset e q' cutPos new b" "offset < bi_End sg"
          then show ?thesis by (simp add: rep_at_end_def)
        qed
      qed
    next
      fix h post
      assume p: "bi_End sg \<le> e" "rest = h # post" "e < bi_Start h" "findEndGap pre sg rest e = Inr (SameGap False)"
      have s_e: "bi_Start sg < e" using p(1) g(2) by simp
      have sth: "fs_gaps s = pre @ sg # h # post" using st(2) p(2) by simp
      have "gaps_ok ((pre @ [sg]) @ h # post)" using gok p(2) by simp
      then have above: "\<forall>k\<in>set rest. e < bi_Start k" using p gaps_okD(2,5) by fastforce
      from cases [OF s_e] show "\<exists>r. push s data offset doneCb = Inr r \<and> (r = (DuplicateStreamData, s, []) \<and> {offset..<e} \<subseteq> R
        \<or> pushed S R s offset e doneCb r)"
      proof (elim disjE exE conjE)
        assume "replace_loop (fs_queue s) e offset False [] = None" "{offset..<e} \<subseteq> queued (fs_queue s)"
        then show ?thesis unfolding push p(4) using s_e dupq by (auto simp: push_into_def e_def [symmetric])
      next
        fix q' new has
        assume r: "replace_loop (fs_queue s) e offset False [] = Some (q', None, has, new)" "rep_inside S s sg offset q' has new"
        show ?thesis unfolding push p(4)
          using push_into_inside_same [OF assms(1) st(2) assms(2) e_def oe(2) s_e assms(3) oe(1) st(3) _ above r, of False doneCb]
            p(1) s_e by auto
      next
        fix q' cutPos new b
        assume r: "replace_loop (fs_queue s) e offset False [] = Some (q', cutPos, True, new)"
          "rep_at_end S s sg offset e q' cutPos new b"
        then have "bi_Start sg \<le> offset" using g(2) by (simp add: rep_at_end_def)
        then show ?thesis unfolding push p(4)
          using push_into_end_same [OF assms(1) sth assms(2) e_def oe(2) p(3) r, of doneCb] p(2) s_e by auto
      qed
    next
      fix mid eg post
      assume p: "rest = mid @ eg # post" "bi_Start eg \<le> e" "e < bi_End eg" "findEndGap pre sg rest e = Inr (LaterGap mid eg post True)"
      have sth: "fs_gaps s = pre @ sg # mid @ eg # post" using st(2) p(1) by simp
      have "gaps_ok ((pre @ sg # mid) @ eg # post)" using gok p(1) by simp
      then have above: "\<forall>k\<in>set post. e < bi_Start k" using p(3) gaps_okD(5) by fastforce
      show "\<exists>r. push s data offset doneCb = Inr r \<and> (r = (DuplicateStreamData, s, []) \<and> {offset..<e} \<subseteq> R
        \<or> pushed S R s offset e doneCb r)"
        unfolding push p(4) using push_later [OF assms(1) sth assms(2) e_def oe(2) p(2) assms(3) oe(1) st(3,4) _ above, of True doneCb] p(1,3)
        by (auto split: if_splits)
    next
      fix mid eg h post
      assume p: "rest = mid @ eg # h # post" "bi_End eg \<le> e" "e < bi_Start h"
        "findEndGap pre sg rest e = Inr (LaterGap mid eg (h # post) False)"
      have sth: "fs_gaps s = pre @ sg # mid @ eg # h # post" using st(2) p(1) by simp
      have "gaps_ok ((pre @ sg # mid) @ eg # h # post)" using gok p(1) by simp
      note ge = gaps_okD [OF this]
      have "gaps_ok ((pre @ sg # mid @ [eg]) @ h # post)" using gok p(1) by simp
      then have above: "\<forall>k\<in>set (h # post). e < bi_Start k" using p(3) gaps_okD(2,5) by fastforce
      have "bi_Start eg \<le> e" using p(2) ge(2) by simp
      then show "\<exists>r. push s data offset doneCb = Inr r \<and> (r = (DuplicateStreamData, s, []) \<and> {offset..<e} \<subseteq> R
        \<or> pushed S R s offset e doneCb r)"
        unfolding push p(4) using push_later [OF assms(1) sth assms(2) e_def oe(2) _ assms(3) oe(1) st(3,4) _ above, of False doneCb] p(1,2)
        by (auto split: if_splits)
    qed
  qed
qed

lemma newFrameSorter_inv: "sorter_inv S {} newFrameSorter"
  by (simp add: sorter_inv_def newFrameSorter_def gaps_ok_def queue_ok_def queued_def ivl_def)

lemma Push_spec:
  assumes "sorter_inv S R s" "matches S offset data" "0 \<le> offset" "offset + int (length data) < MaxByteCount"
  shows "\<exists>ok s' cbs. Push s data offset doneCb = Inr (ok, s', cbs)
    \<and> (if ok then sorter_inv S (R \<union> {offset..<offset + int (length data)}) s' \<and> fs_readPos s' = fs_readPos s
         \<and> held (fs_queue s) + mset (called doneCb) = held (fs_queue s') + mset cbs
       else length (fs_gaps s') > MaxStreamFrameSorterGaps \<and> gaps_ok (fs_gaps s')
         \<and> R \<union> {offset..<offset + int (length data)} = {0..<MaxByteCount} - gap_set (fs_gaps s'))"
proof -
  obtain r where r: "push s data offset doneCb = Inr r"
    "r = (DuplicateStreamData, s, []) \<and> {offset..<offset + int (length data)} \<subseteq> R
      \<or> pushed S R s offset (offset + int (length data)) doneCb r"
    using push_spec [OF assms] by blast
  from r(2) show ?thesis
  proof (elim disjE conjE)
    assume "r = (DuplicateStreamData, s, [])" "{offset..<offset + int (length data)} \<subseteq> R"
    then show ?thesis using r(1) assms(1) by (auto simp: Push_def Un_absorb2)
  next
    assume "pushed S R s offset (offset + int (length data)) doneCb r"
    then show ?thesis using r(1) by (cases r) (auto simp: Push_def pushed_def)
  qed
qed

text \<open>There are at most as many gaps as received frames, and one more: every gap but the first starts where some frame
  ends.\<close>

lemma gaps_count:
  assumes "gaps_ok gs" "{0..<MaxByteCount} - gap_set gs = (\<Union>i\<in>I. {f i..<g i})" "finite I"
  shows "length gs \<le> card I + 1"
proof -
  have ok: "sorted_wrt (\<lambda>g h. bi_End g < bi_Start h) gs" "\<forall>g\<in>set gs. 0 \<le> bi_Start g \<and> bi_Start g < bi_End g" "gs \<noteq> []"
    "bi_End (last gs) = MaxByteCount" using assms(1) by (auto simp: gaps_ok_def)
  obtain g0 rest where gs: "gs = g0 # rest" using ok(3) by (cases gs) auto
  have start: "bi_Start h \<in> g ` I" if h: "h \<in> set rest" for h
  proof -
    obtain xs ys where r: "rest = xs @ h # ys" using split_list [OF h] by blast
    have pos: "bi_End g0 < bi_Start h" "0 \<le> bi_Start g0" "bi_Start g0 < bi_End g0" "bi_Start h < bi_End h"
      "\<forall>k\<in>set xs. bi_End k < bi_Start h" "\<forall>k\<in>set ys. bi_End h < bi_Start k"
      using ok(1,2) h by (auto simp: gs r sorted_wrt_append)
    have "bi_End h \<le> MaxByteCount"
    proof (cases "ys = []")
      case True
      then show ?thesis using ok(4) by (simp add: gs r)
    next
      case False
      then have "last ys \<in> set gs" "bi_End h < bi_Start (last ys)" "bi_End (last ys) = MaxByteCount"
        using pos(6) ok(4) by (auto simp: gs r)
      then show ?thesis using ok(2) by force
    qed
    then have "bi_Start h - 1 \<in> {0..<MaxByteCount} - gap_set gs"
      using pos by (force simp: gs r ivl_def gap_set_def)
    then obtain i where i: "i \<in> I" "f i \<le> bi_Start h - 1" "bi_Start h - 1 < g i" unfolding assms(2) by auto
    have "bi_Start h \<in> gap_set gs" using pos(4) by (auto simp: gs r ivl_def)
    then have "bi_Start h \<notin> {f i..<g i}" using assms(2) i(1) by blast
    then have "bi_Start h = g i" using i by auto
    then show ?thesis using i(1) by blast
  qed
  have "sorted_wrt (\<lambda>g h. bi_Start g < bi_Start h) rest"
    by (rule sorted_wrt_mono_rel [where P = "\<lambda>g h. bi_End g < bi_Start h"]) (use ok(1,2) in \<open>force simp: gs\<close>)+
  then have "distinct (map bi_Start rest)" using strict_sorted_iff [of "map bi_Start rest"] by (simp add: sorted_wrt_map)
  then have "length rest = card (bi_Start ` set rest)" using distinct_card [of "map bi_Start rest"] by simp
  also have "\<dots> \<le> card (g ` I)" using start assms(3) by (intro card_mono) auto
  also have "\<dots> \<le> card I" by (rule card_image_le [OF assms(3)])
  finally show ?thesis by (simp add: gs)
qed

lemma Pop_spec:
  assumes "sorter_inv S R s"
  shows "if fs_readPos s \<in> R
    then \<exists>d cb s'. Pop s = Inr (fs_readPos s, Some d, cb, s') \<and> d \<noteq> [] \<and> matches S (fs_readPos s) d \<and> sorter_inv S R s'
      \<and> fs_readPos s' = fs_readPos s + int (length d) \<and> held (fs_queue s) = held (fs_queue s') + mset (called cb)
    else Pop s = Inr (fs_readPos s, None, None, s)"
proof -
  note i = assms [unfolded sorter_inv_def]
  have q: "queue_ok S (fs_queue s)" "queued (fs_queue s) = R \<inter> {fs_readPos s..}" using i by auto
  show ?thesis
  proof (cases "fs_readPos s \<in> R")
    case True
    have "fs_readPos s - 1 \<notin> queued (fs_queue s)" "fs_readPos s \<in> queued (fs_queue s)" using q(2) True by auto
    then obtain e where e: "map_of (fs_queue s) (fs_readPos s) = Some e" using queued_boundary by blast
    let ?p = "fs_readPos s + int (length (fe_Data e))"
    let ?s = "s\<lparr>fs_queue := AList.delete (fs_readPos s) (fs_queue s), fs_readPos := ?p\<rparr>"
    note d = queue_ok_delete [OF q(1) e]
    have l: "0 < length (fe_Data e)" "matches S (fs_readPos s) (fe_Data e)" "span (fs_readPos s) e \<subseteq> R"
      using queue_okD [OF q(1) e] q(2) by auto
    have "{0..<?p} \<subseteq> {0..<fs_readPos s} \<union> span (fs_readPos s) e" by auto
    then have before: "{0..<?p} \<subseteq> R" using i l(3) by blast
    have inv: "sorter_inv S R ?s"
      using i d(1,2) q(2) before by (auto simp: sorter_inv_def)
    obtain front gs where fr: "fs_gaps s = front # gs" using i by (cases "fs_gaps s") (auto simp: gaps_ok_def)
    have "fs_gaps ?s = [] @ front # gs" using fr by simp
    note f = inv_facts [OF inv this]
    have "?p < bi_End front" using f(3) gaps_okD(2) [OF f(1)] by simp
    then have "Pop s = Inr (fs_readPos s, Some (fe_Data e), fe_DoneCb e, ?s)" using e fr by (simp add: Pop_def Let_def)
    then show ?thesis using True inv l d(3) by auto
  next
    case False
    then have "map_of (fs_queue s) (fs_readPos s) = None"
      using key_queued [OF q(1)] q(2) by (cases "map_of (fs_queue s) (fs_readPos s)") auto
    then show ?thesis using False by (simp add: Pop_def)
  qed
qed

section \<open>Peeking\<close>

inductive_cases tilesE: "tiles q a b"

lemma peek_check_spec:
  assumes "queue_ok S q" "n < fuel"
  shows "\<exists>b. peek_check fuel q pos n = Some b \<and> (b \<longrightarrow> (\<exists>stop. tiles q pos stop \<and> pos + int n \<le> stop))
    \<and> (\<not> b \<longrightarrow> (\<exists>stop. tiles q pos stop \<and> map_of q stop = None \<and> stop < pos + int n))"
  using assms(2)
proof (induction fuel arbitrary: pos n)
  case (Suc fuel)
  show ?case
  proof (cases "n = 0")
    case True
    then show ?thesis using tiles_nil by auto
  next
    case n: False
    show ?thesis
    proof (cases "map_of q pos")
      case None
      then show ?thesis using n tiles_nil [of q pos] by (intro exI [of _ False]) auto
    next
      case (Some e)
      have l: "0 < length (fe_Data e)" using queue_okD(1) [OF assms(1) Some] .
      show ?thesis
      proof (cases "n \<le> length (fe_Data e)")
        case True
        then have "peek_check (Suc fuel) q pos n = Some True" using Some n by simp
        moreover have "tiles q pos (pos + int (length (fe_Data e)))" by (rule tiles_step [OF Some tiles_nil])
        ultimately show ?thesis using True by (intro exI [of _ True]) auto
      next
        case False
        then have "n - length (fe_Data e) < fuel" using Suc.prems l by linarith
        then obtain b where b: "peek_check fuel q (pos + int (length (fe_Data e))) (n - length (fe_Data e)) = Some b"
          "b \<longrightarrow> (\<exists>stop. tiles q (pos + int (length (fe_Data e))) stop
            \<and> pos + int (length (fe_Data e)) + int (n - length (fe_Data e)) \<le> stop)"
          "\<not> b \<longrightarrow> (\<exists>stop. tiles q (pos + int (length (fe_Data e))) stop \<and> map_of q stop = None
            \<and> stop < pos + int (length (fe_Data e)) + int (n - length (fe_Data e)))" using Suc.IH by blast
        have sum: "pos + int (length (fe_Data e)) + int (n - length (fe_Data e)) = pos + int n" using False by simp
        have "peek_check (Suc fuel) q pos n = Some b" using b(1) Some n False by simp
        then show ?thesis using b(2,3) tiles_step [OF Some] unfolding sum by blast
      qed
    qed
  qed
qed simp

lemma peek_copy_spec:
  assumes "queue_ok S q" "tiles q pos stop" "pos + int (n - length copied) \<le> stop" "n - length copied < fuel"
    and "matches S a copied" "pos = a + int (length copied)" "length copied \<le> n"
  shows "\<exists>d. peek_copy fuel q pos n copied = Some d \<and> length d = n \<and> matches S a d"
  using assms(2-)
proof (induction fuel arbitrary: pos copied)
  case (Suc fuel)
  show ?case
  proof (cases "length copied < n")
    case True
    then have "pos < stop" using Suc.prems by simp
    then obtain e where e: "map_of q pos = Some e" "tiles q (pos + int (length (fe_Data e))) stop"
      using tilesE [OF Suc.prems(1)] by auto
    have l: "0 < length (fe_Data e)" "matches S pos (fe_Data e)" using queue_okD(1,2) [OF assms(1) e(1)] by auto
    let ?c = "copied @ take (n - length copied) (fe_Data e)"
    have m: "matches S a ?c"
      using Suc.prems(4,5) l(2) by (auto simp: matches_def nth_append algebra_simps of_nat_diff)
    have step: "peek_copy (Suc fuel) q pos n copied = peek_copy fuel q (pos + int (length (fe_Data e))) n ?c"
      using True e(1) by (simp add: Let_def)
    show ?thesis
    proof (cases "length (fe_Data e) \<le> n - length copied")
      case fits: True
      then have "length ?c = length copied + length (fe_Data e)" by simp
      moreover have "n - (length copied + length (fe_Data e)) < fuel" "length copied + length (fe_Data e) \<le> n"
        using Suc.prems(3) l(1) True fits by linarith+
      ultimately show ?thesis unfolding step using Suc.IH [OF e(2), of ?c] Suc.prems m fits by simp
    next
      case False
      then have c: "length ?c = n" using True by simp
      have "0 < fuel" using Suc.prems(3) True by simp
      then obtain f where "fuel = Suc f" by (cases fuel) auto
      then have "peek_copy fuel q (pos + int (length (fe_Data e))) n ?c = Some ?c" using c by simp
      then show ?thesis unfolding step using c m by auto
    qed
  qed (use Suc.prems in auto)
qed simp

section \<open>A push that is refused\<close>

text \<open>Only a frame that splits a gap adds one. Such a frame replaces nothing and is not cut, so that a push that is refused
  has changed the gaps and nothing else.\<close>

lemma findStartGap_split: "findStartGap pre gs x = Inr (p, sg, rest, b) \<Longrightarrow> p @ sg # rest = pre @ gs"
  by (induction pre gs x rule: findStartGap.induct) (auto split: if_splits)

lemma findEndGap_after_later: "findEndGap_after mid gs x = Inr (LaterGap m g post b) \<Longrightarrow> m @ g # post = mid @ gs"
  by (induction mid gs x rule: findEndGap_after.induct) (auto split: if_splits)

lemma findEndGap_later: "findEndGap pre sg rest x = Inr (LaterGap m g post b) \<Longrightarrow> rest = m @ g # post"
  by (auto simp: findEndGap_def dest: findEndGap_after_later split: if_splits)

lemma replace_loop_flag: "replace_loop q e p True cbs = Some (q', cutPos, has, new) \<Longrightarrow> has"
proof (induction q e p True cbs rule: replace_loop.induct)
  case (1 q e p cbs)
  then show ?case by (subst (asm) (2) replace_loop.simps) (auto simp: Let_def split: option.splits if_splits)
qed

lemma replace_loop_kept:
  assumes "replace_loop q e p False [] = Some (q', cutPos, False, new)"
  shows "q' = q \<and> cutPos = None \<and> new = []"
  using assms by (subst (asm) replace_loop.simps) (auto simp: Let_def dest: replace_loop_flag split: option.splits if_splits)

lemma delete_between_length: "delete_between q e mid cbs = (q', mid', cbs') \<Longrightarrow> length mid' \<le> length mid"
  by (induction mid arbitrary: q cbs) (fastforce simp: Let_def split: if_splits prod.splits)+

lemma store_entry_refused:
  assumes "store_entry s data start doneCb wasCut q gs cbs = (TooManyGaps, s', cbs')"
  shows "length gs > MaxStreamFrameSorterGaps" "s' = s\<lparr>fs_queue := q, fs_gaps := gs\<rparr>" "\<not> wasCut \<Longrightarrow> cbs' = cbs"
  using assms by (auto simp: store_entry_def Let_def split: if_splits)

lemma push_into_same_refused:
  assumes p: "push_into s data start doneCb pre sg rest b None b' = Inr (TooManyGaps, s', cbs)"
    and max: "length (pre @ sg # rest) \<le> MaxStreamFrameSorterGaps"
  shows "fs_queue s' = fs_queue s \<and> fs_readPos s' = fs_readPos s \<and> cbs = []"
proof -
  define e where "e = start + int (length data)"
  obtain q cutPos has new where r: "replace_loop (fs_queue s) e start False [] = Some (q, cutPos, has, new)"
    using p by (cases "replace_loop (fs_queue s) e start False []") (auto simp: push_into_def e_def)
  define A where "A = (case cutPos of None \<Rightarrow> Inr (data, e, False)
      | Some pos \<Rightarrow> rbind (data_slice data 0 (pos - start)) (\<lambda>data. Inr (data, pos, True)))"
  define B where "B d1 w1 = (if \<not> b \<and> \<not> has then
        rbind (data_slice d1 (bi_Start sg - start) (int (length d1))) (\<lambda>data. Inr (data, bi_Start sg, True))
      else Inr (d1, start, w1))" for d1 w1
  define G where "G st e1 = (if st \<le> bi_Start sg then (if e1 \<ge> bi_End sg then [] else [sg\<lparr>bi_Start := e1\<rparr>], False)
      else if \<not> has then ([sg\<lparr>bi_End := st\<rparr>], True) else ([sg], False))" for st e1
  define D where "D d2 st e1 w2 = (if \<not> b' \<and> st \<noteq> bi_End sg \<and> e1 > bi_End sg then
        rbind (data_slice d2 0 (bi_End sg - st)) (\<lambda>data. Inr (data, bi_End sg, True))
      else Inr (d2, e1, w2))" for d2 st e1 w2
  have eq: "push_into s data start doneCb pre sg rest b None b' =
      rbind A (\<lambda>(d1, e1, w1). rbind (B d1 w1) (\<lambda>(d2, st, w2). rbind (D d2 st e1 w2) (\<lambda>(d3, e3, w3).
      Inr (store_entry s d3 st doneCb w3 q (pre @ fst (G st e1)
        @ (if e3 \<noteq> bi_End sg \<and> snd (G st e1) then [\<lparr>bi_Start = e3, bi_End = bi_End sg\<rparr>] else []) @ rest) new))))"
    unfolding push_into_def e_def [symmetric] r A_def B_def D_def G_def Let_def option.case prod.case case_prod_beta fst_conv snd_conv ..
  from p [unfolded eq] obtain d1 e1 w1 d2 st w2 d3 e3 w3 where
    d1: "A = Inr (d1, e1, w1)" and d2: "B d1 w1 = Inr (d2, st, w2)" and d3: "D d2 st e1 w2 = Inr (d3, e3, w3)" and
    store: "store_entry s d3 st doneCb w3 q (pre @ fst (G st e1)
        @ (if e3 \<noteq> bi_End sg \<and> snd (G st e1) then [\<lparr>bi_Start = e3, bi_End = bi_End sg\<rparr>] else []) @ rest) new = (TooManyGaps, s', cbs)"
    by (auto simp: rbind_eq_Inr)
  note ref = store_entry_refused [OF store]
  have len: "length (fst (G st e1)) \<le> 1" by (simp add: G_def)
  have split: "e3 \<noteq> bi_End sg" "snd (G st e1)" using ref(1) max len by (auto split: if_splits)
  then have st: "\<not> has" "\<not> st \<le> bi_Start sg" by (auto simp: G_def split: if_splits)
  then have kept: "q = fs_queue s" "cutPos = None" "new = []" using replace_loop_kept r by auto
  have "b" using d2 st by (auto simp: B_def rbind_eq_Inr split: if_splits)
  then have "\<not> w2" using d1 d2 kept by (auto simp: A_def B_def split: if_splits)
  then have "\<not> w3" using d3 split(1) by (auto simp: D_def rbind_eq_Inr split: if_splits)
  then show ?thesis using ref(2,3) kept by simp
qed

lemma push_into_later_not_refused:
  assumes "length (pre @ sg # mid @ eg # post) \<le> MaxStreamFrameSorterGaps"
  shows "push_into s data start doneCb pre sg (mid @ eg # post) b (Some (mid, eg, post)) b' \<noteq> Inr (TooManyGaps, s', cbs)"
proof
  assume p: "push_into s data start doneCb pre sg (mid @ eg # post) b (Some (mid, eg, post)) b' = Inr (TooManyGaps, s', cbs)"
  define e where "e = start + int (length data)"
  obtain q cutPos has new where r: "replace_loop (fs_queue s) e start False [] = Some (q, cutPos, has, new)"
    using p by (cases "replace_loop (fs_queue s) e start False []") (auto simp: push_into_def e_def)
  define A where "A = (case cutPos of None \<Rightarrow> Inr (data, e, False)
      | Some pos \<Rightarrow> rbind (data_slice data 0 (pos - start)) (\<lambda>data. Inr (data, pos, True)))"
  define B where "B d1 w1 = (if \<not> b \<and> \<not> has then
        rbind (data_slice d1 (bi_Start sg - start) (int (length d1))) (\<lambda>data. Inr (data, bi_Start sg, True))
      else Inr (d1, start, w1))" for d1 w1
  define G where "G st e1 = (if st \<le> bi_Start sg then (if e1 \<ge> bi_End sg then [] else [sg\<lparr>bi_Start := e1\<rparr>], False)
      else if \<not> has then ([sg\<lparr>bi_End := st\<rparr>], True) else ([sg], False))" for st e1
  define M where "M = delete_between (fst (deleteConsecutive q (bi_End sg) new)) (bi_Start eg) mid
      (snd (deleteConsecutive q (bi_End sg) new))"
  define D where "D d2 st e1 w2 = (if \<not> b' \<and> st \<noteq> bi_End eg \<and> e1 > bi_End eg then
        rbind (data_slice d2 0 (bi_End eg - st)) (\<lambda>data. Inr (data, bi_End eg, True))
      else Inr (d2, e1, w2))" for d2 st e1 w2
  have eq: "push_into s data start doneCb pre sg (mid @ eg # post) b (Some (mid, eg, post)) b' =
      rbind A (\<lambda>(d1, e1, w1). rbind (B d1 w1) (\<lambda>(d2, st, w2). rbind (D d2 st e1 w2) (\<lambda>(d3, e3, w3).
      Inr (store_entry s d3 st doneCb w3 (fst M) (pre @ fst (G st e1) @ fst (snd M)
        @ (if e3 = bi_End eg then [] else [eg\<lparr>bi_Start := e3\<rparr>]) @ post) (snd (snd M))))))"
    unfolding push_into_def e_def [symmetric] r A_def B_def D_def G_def M_def Let_def option.case prod.case case_prod_beta fst_conv snd_conv ..
  from p [unfolded eq] obtain d st w e1 e3 where "store_entry s d st doneCb w (fst M) (pre @ fst (G st e1) @ fst (snd M)
        @ (if e3 = bi_End eg then [] else [eg\<lparr>bi_Start := e3\<rparr>]) @ post) (snd (snd M)) = (TooManyGaps, s', cbs)"
    by (auto simp: rbind_eq_Inr)
  note ref = store_entry_refused(1) [OF this]
  have "length (fst (G st e1)) \<le> 1" by (simp add: G_def)
  moreover have "length (fst (snd M)) \<le> length mid"
    by (rule delete_between_length [of _ _ _ _ "fst M" _ "snd (snd M)"]) (simp add: M_def)
  moreover have "length (if e3 = bi_End eg then [] else [eg\<lparr>bi_Start := e3\<rparr>]) \<le> 1" by simp
  ultimately show False using ref assms by (simp only: length_append length_Cons)
qed

lemma push_refused:
  assumes "push s data offset doneCb = Inr (TooManyGaps, s', cbs)" "length (fs_gaps s) \<le> MaxStreamFrameSorterGaps"
  shows "fs_queue s' = fs_queue s \<and> fs_readPos s' = fs_readPos s \<and> cbs = []"
proof -
  obtain pre sg rest b eg where f: "findStartGap [] (fs_gaps s) offset = Inr (pre, sg, rest, b)"
    "findEndGap pre sg rest (offset + int (length data)) = Inr eg"
    using assms(1) by (auto simp: push_def Let_def rbind_eq_Inr split: if_splits list.splits)
  have gs: "fs_gaps s = pre @ sg # rest" using findStartGap_split [OF f(1)] by simp
  show ?thesis
  proof (cases eg)
    case (SameGap b')
    then have "push_into s data offset doneCb pre sg rest b None b' = Inr (TooManyGaps, s', cbs)"
      using assms(1) f by (auto simp: push_def Let_def split: if_splits list.splits)
    then show ?thesis by (rule push_into_same_refused) (use assms(2) gs in simp)
  next
    case (LaterGap mid g post b')
    then have "rest = mid @ g # post" using findEndGap_later f(2) by blast
    moreover have "push_into s data offset doneCb pre sg rest b (Some (mid, g, post)) b' = Inr (TooManyGaps, s', cbs)"
      using assms(1) f LaterGap by (auto simp: push_def Let_def split: if_splits list.splits)
    ultimately show ?thesis using push_into_later_not_refused assms(2) gs by metis
  next
    case (PreviousGap g)
    then show ?thesis using assms(1) f by (auto simp: push_def Let_def split: if_splits list.splits option.splits)
  qed
qed

section \<open>Sequences of operations\<close>

text \<open>The sorter in use. \<open>R\<close> is the set of offsets received, \<open>out\<close> the bytes popped so far, \<open>G\<close> the callbacks given to
  \<open>Push\<close> and \<open>C\<close> those called by the sorter or returned to the reader. Every frame pushed is a part of the stream
  \<open>S\<close>; a push that fails closes the connection and ends the sequence.\<close>

inductive sorter_run :: "(int \<Rightarrow> byte) \<Rightarrow> int set \<Rightarrow> bytes \<Rightarrow> nat multiset \<Rightarrow> nat multiset \<Rightarrow> frameSorter \<Rightarrow> bool" for S where
  run_new: "sorter_run S {} [] {#} {#} newFrameSorter"
| run_push: "sorter_run S R out G C s \<Longrightarrow> matches S offset data \<Longrightarrow> 0 \<le> offset
    \<Longrightarrow> offset + int (length data) < MaxByteCount \<Longrightarrow> Push s data offset doneCb = Inr (True, s', cbs)
    \<Longrightarrow> sorter_run S (R \<union> {offset..<offset + int (length data)}) out (G + mset (called doneCb)) (C + mset cbs) s'"
| run_pop: "sorter_run S R out G C s \<Longrightarrow> Pop s = Inr (offset, Some d, cb, s')
    \<Longrightarrow> sorter_run S R (out @ d) G (C + mset (called cb)) s'"

lemma sorter_run_inv:
  assumes "sorter_run S R out G C s"
  shows "sorter_inv S R s \<and> fs_readPos s = int (length out) \<and> matches S 0 out \<and> G = held (fs_queue s) + C"
  using assms
proof (induction rule: sorter_run.induct)
  case run_new
  show ?case using newFrameSorter_inv [of S] by (simp add: newFrameSorter_def matches_def held_def)
next
  case (run_push R out G C s offset data doneCb s' cbs)
  then show ?case using Push_spec [of S R s offset data doneCb] by (auto simp: ac_simps)
next
  case (run_pop R out G C s offset d cb s')
  then have p: "sorter_inv S R s'" "fs_readPos s' = fs_readPos s + int (length d)" "matches S (fs_readPos s) d"
    "held (fs_queue s) = held (fs_queue s') + mset (called cb)"
    using Pop_spec [of S R s] by (auto split: if_splits)
  then have "matches S 0 (out @ d)" using run_pop.IH by (auto simp: matches_def nth_append of_nat_diff)
  then show ?case using p run_pop.IH by (simp add: ac_simps)
qed

lemma sorter_run_gaps: "sorter_run S R out G C s \<Longrightarrow> length (fs_gaps s) \<le> MaxStreamFrameSorterGaps"
proof (induction rule: sorter_run.induct)
  case (run_push R out G C s offset data doneCb s' cbs)
  have "sorter_inv S R s" using sorter_run_inv [OF run_push.hyps(1)] by simp
  then obtain r where "push s data offset doneCb = Inr r" "r = (DuplicateStreamData, s, [])
      \<or> pushed S R s offset (offset + int (length data)) doneCb r" using push_spec run_push.hyps by metis
  then show ?case using run_push.hyps(5) run_push.IH
    by (cases r) (auto simp: Push_def pushed_def split: push_outcome.splits)
qed (auto simp: newFrameSorter_def Pop_def Let_def split: option.splits list.splits if_splits)

section \<open>Properties\<close>

text \<open>C3: The frame sorter delivers the stream. After any sequence of pushes, in which frames of one stream arrive in
  any order, overlap and repeat, and pops: the bytes popped so far are a prefix of the stream, all of it received; no
  operation panics; and \<open>Pop\<close> returns at least one more byte, the next of the stream, exactly when the next
  offset has been received. So no received byte is lost and none is delivered twice.\<close>

theorem sorter_delivers_stream:
  assumes "sorter_run S R out G C s"
  shows "matches S 0 out \<and> {0..<int (length out)} \<subseteq> R
    \<and> (if int (length out) \<in> R
       then \<exists>d cb s'. Pop s = Inr (int (length out), Some d, cb, s') \<and> d \<noteq> [] \<and> matches S (int (length out)) d
       else Pop s = Inr (int (length out), None, None, s))"
proof -
  have i: "sorter_inv S R s" "fs_readPos s = int (length out)" "matches S 0 out" using sorter_run_inv [OF assms] by auto
  have "{0..<int (length out)} \<subseteq> R" using i(1) unfolding sorter_inv_def i(2) by blast
  then show ?thesis using Pop_spec [OF i(1)] i(2,3) by (auto split: if_splits)
qed

theorem sorter_delivers_stream_witness:
  "\<exists>s d cb s'. Push newFrameSorter [5, 6] 0 None = Inr (True, s, []) \<and> Pop s = Inr (0, Some d, cb, s') \<and> d \<noteq> []"
proof -
  let ?S = "\<lambda>i. if i = 0 then 5 else 6"
  let ?s = "newFrameSorter\<lparr>fs_queue := [(0, \<lparr>fe_Data = [5, 6], fe_DoneCb = None\<rparr>)], fs_gaps := [\<lparr>bi_Start = 2, bi_End = MaxByteCount\<rparr>]\<rparr>"
  have push: "Push newFrameSorter [5, 6] 0 None = Inr (True, ?s, [])"
    by (simp add: Push_def push_def newFrameSorter_def findEndGap_def push_into_def replace_loop.simps store_entry_def)
  have "matches ?S 0 [5, 6]" by (simp add: matches_def less_Suc_eq)
  then have "sorter_run ?S ({} \<union> {0..<0 + int (length [5, 6 :: byte])}) [] ({#} + mset (called None)) ({#} + mset []) ?s"
    using push by (intro run_push [OF run_new]) auto
  from sorter_delivers_stream [OF this] show ?thesis using push by auto
qed

text \<open>C18: Pushing is total: in every reachable state, pushing any frame of the stream below the largest offset returns
  without a panic. If it succeeds, the offsets of the frame are added to those received, with nothing else changed, and every buffer's
  callback is either still held by the sorter or was called or handed out, each exactly once. It fails exactly when the frame leaves
  more than \<open>MaxStreamFrameSorterGaps\<close> gaps. Then the gaps are those of a sorter that has received the frame, but the data is not stored: the
  queue and the read position are as before, no callback is called, and that of the refused frame is not held either.\<close>

theorem sorter_push_total:
  assumes "sorter_run S R out G C s" "matches S offset data" "0 \<le> offset" "offset + int (length data) < MaxByteCount"
  shows "\<exists>ok s' cbs. Push s data offset doneCb = Inr (ok, s', cbs)
    \<and> (if ok then sorter_run S (R \<union> {offset..<offset + int (length data)}) out (G + mset (called doneCb)) (C + mset cbs) s'
         \<and> G + mset (called doneCb) = held (fs_queue s') + (C + mset cbs) \<and> length (fs_gaps s') \<le> MaxStreamFrameSorterGaps
       else length (fs_gaps s') > MaxStreamFrameSorterGaps \<and> gaps_ok (fs_gaps s')
         \<and> {0..<MaxByteCount} - gap_set (fs_gaps s') = R \<union> {offset..<offset + int (length data)}
         \<and> fs_queue s' = fs_queue s \<and> fs_readPos s' = fs_readPos s \<and> cbs = [] \<and> G = held (fs_queue s') + C)"
proof -
  have i: "sorter_inv S R s" "G = held (fs_queue s) + C" using sorter_run_inv [OF assms(1)] by auto
  obtain ok s' cbs where p: "Push s data offset doneCb = Inr (ok, s', cbs)"
    "\<not> ok \<Longrightarrow> length (fs_gaps s') > MaxStreamFrameSorterGaps \<and> gaps_ok (fs_gaps s')
      \<and> R \<union> {offset..<offset + int (length data)} = {0..<MaxByteCount} - gap_set (fs_gaps s')"
    using Push_spec [OF i(1) assms(2-4), of doneCb] by (auto split: if_splits)
  show ?thesis
  proof (cases ok)
    case True
    then have r: "sorter_run S (R \<union> {offset..<offset + int (length data)}) out (G + mset (called doneCb)) (C + mset cbs) s'"
      using run_push [OF assms] p(1) by simp
    then show ?thesis using p(1) True sorter_run_inv [OF r] sorter_run_gaps [OF r] by auto
  next
    case False
    obtain outcome s1 cbs1 where o: "push s data offset doneCb = Inr (outcome, s1, cbs1)"
      using p(1) by (auto simp: Push_def rbind_eq_Inr)
    then have "push s data offset doneCb = Inr (TooManyGaps, s', cbs)"
      using p(1) False by (cases outcome) (auto simp: Push_def)
    from push_refused [OF this sorter_run_gaps [OF assms(1)]] show ?thesis using p False i(2) by auto
  qed
qed

theorem sorter_push_total_witness:
  "\<exists>s'. Push newFrameSorter [7, 7] 3 (Some 1) = Inr (True, s', []) \<and> held (fs_queue s') = {#1#}
    \<and> sorter_run (\<lambda>_. 7) {3..<5} [] {#1#} {#} s'"
proof -
  have "Push newFrameSorter [7, 7] 3 (Some 1) = Inr (True, newFrameSorter\<lparr>fs_queue := [(3, \<lparr>fe_Data = [7, 7], fe_DoneCb = Some 1\<rparr>)],
      fs_gaps := [\<lparr>bi_Start = 0, bi_End = 3\<rparr>, \<lparr>bi_Start = 5, bi_End = MaxByteCount\<rparr>]\<rparr>, [])"
    by (simp add: Push_def push_def newFrameSorter_def findEndGap_def push_into_def replace_loop.simps store_entry_def)
  then show ?thesis
    using sorter_push_total [OF run_new, of "\<lambda>_. 7" 3 "[7, 7]" "Some 1"] by (auto simp: matches_def less_Suc_eq called_def)
qed

text \<open>C19: \<open>Peek\<close> always returns, and does not lie: in every reachable state, for every offset and length, both of its
  loops end within one turn per byte; the bytes it returns are those of the stream; and at the read position it succeeds
  exactly when all the bytes asked for have been received.\<close>

theorem Peek_total:
  assumes "sorter_run S R out G C s"
  shows "(\<exists>r. Peek s offset n = Some r \<and> (\<forall>d. r = Some d \<longrightarrow> length d = n \<and> matches S offset d))
    \<and> ((\<exists>d. Peek s (int (length out)) n = Some (Some d)) \<longleftrightarrow> {int (length out)..<int (length out) + int n} \<subseteq> R)"
proof -
  have i: "sorter_inv S R s" "fs_readPos s = int (length out)" using sorter_run_inv [OF assms] by auto
  have q: "queue_ok S (fs_queue s)" "queued (fs_queue s) = R \<inter> {fs_readPos s..}" using i by (auto simp: sorter_inv_def)
  have total: "\<exists>r. Peek s pos n = Some r \<and> (\<forall>d. r = Some d \<longrightarrow> length d = n \<and> matches S pos d
        \<and> (\<exists>stop. tiles (fs_queue s) pos stop \<and> pos + int n \<le> stop))
      \<and> (r = None \<longrightarrow> (\<exists>stop. tiles (fs_queue s) pos stop \<and> map_of (fs_queue s) stop = None \<and> stop < pos + int n))" for pos
  proof (cases "n = 0")
    case True
    then show ?thesis using tiles_nil by (auto simp: Peek_def matches_def)
  next
    case False
    obtain b where b: "peek_check (Suc n) (fs_queue s) pos n = Some b"
      "b \<longrightarrow> (\<exists>stop. tiles (fs_queue s) pos stop \<and> pos + int n \<le> stop)"
      "\<not> b \<longrightarrow> (\<exists>stop. tiles (fs_queue s) pos stop \<and> map_of (fs_queue s) stop = None \<and> stop < pos + int n)"
      using peek_check_spec [OF q(1), of n "Suc n" pos] by auto
    show ?thesis
    proof (cases b)
      case True
      then obtain stop where stop: "tiles (fs_queue s) pos stop" "pos + int n \<le> stop" using b(2) by blast
      obtain d where "peek_copy (Suc n) (fs_queue s) pos n [] = Some d" "length d = n" "matches S pos d"
        using peek_copy_spec [OF q(1) stop(1), of n "[]" "Suc n" pos] stop(2) by (auto simp: matches_def)
      then show ?thesis using b(1) True False stop by (auto simp: Peek_def)
    next
      case f: False
      then show ?thesis using b(1,3) False by (simp add: Peek_def)
    qed
  qed
  obtain r where r: "Peek s (int (length out)) n = Some r"
    "\<forall>d. r = Some d \<longrightarrow> (\<exists>stop. tiles (fs_queue s) (int (length out)) stop \<and> int (length out) + int n \<le> stop)"
    "r = None \<longrightarrow> (\<exists>stop. tiles (fs_queue s) (int (length out)) stop \<and> map_of (fs_queue s) stop = None
      \<and> stop < int (length out) + int n)" using total [of "int (length out)"] by blast
  have "(\<exists>d. r = Some d) \<longleftrightarrow> {int (length out)..<int (length out) + int n} \<subseteq> R"
  proof (cases r)
    case None
    then obtain stop where s: "tiles (fs_queue s) (int (length out)) stop" "map_of (fs_queue s) stop = None"
      "stop < int (length out) + int n" using r(3) by blast
    have le: "int (length out) \<le> stop" using tiles_le [OF q(1) s(1)] .
    have "stop \<notin> queued (fs_queue s)"
    proof (cases "stop = int (length out)")
      case True
      have "stop - 1 \<notin> queued (fs_queue s)" using q(2) i(2) True by auto
      then show ?thesis using queued_boundary s(2) by fastforce
    next
      case False
      then show ?thesis using run_end_not_queued [OF q(1) s(1) _ s(2)] le by simp
    qed
    then have "stop \<notin> R" using q(2) i(2) le by auto
    then show ?thesis using None s(3) le by (auto simp: subset_iff)
  next
    case (Some d)
    then obtain stop where s: "tiles (fs_queue s) (int (length out)) stop" "int (length out) + int n \<le> stop"
      using r(2) by blast
    then have "{int (length out)..<int (length out) + int n} \<subseteq> queued (fs_queue s)"
      using tiles_queued [OF q(1) s(1)] by (auto simp: subset_iff)
    then show ?thesis using Some q(2) by blast
  qed
  then show ?thesis using total [of offset] r(1) by auto
qed

theorem Peek_total_witness: "\<exists>r. Peek newFrameSorter 9 4 = Some r"
  using Peek_total [OF run_new [of "\<lambda>_. 0"]] by blast

end
