(* ===== verification/Quic_Sni.thy ===== *)
theory Quic_Sni
  imports Quic_Frames
begin

text \<open>
  \<open>quic/sni.go\<close>: where the server name and the ECH extension of a ClientHello are. The positions are \<open>int\<close>, with -1 for
  "not found" as in the code; an index out of range would be the error \<open>SniPanic\<close>, which is shown not to occur.
\<close>

datatype sni_error = SniUnexpectedEOF | SniError string | SniPanic panic

abbreviation extTypeSNI :: nat where "extTypeSNI \<equiv> 0"
abbreviation extTypeECH :: nat where "extTypeECH \<equiv> 0xfe0d"

definition be_Uint16 :: "bytes \<Rightarrow> nat \<Rightarrow> sni_error + nat" where
  "be_Uint16 b i = rbind (at SniPanic b i) (\<lambda>x. rbind (at SniPanic b (i + 1)) (\<lambda>y. Inr (unat x * 256 + unat y)))"

text \<open>The loop over the name list: the position of the first host name within the extension, if there is one, and the last
  length read.\<close>

function sni_names :: "bytes \<Rightarrow> nat \<Rightarrow> nat \<Rightarrow> nat \<Rightarrow> sni_error + (nat option \<times> nat)" where
  "sni_names sniData nameListLen listPos sniLen =
     (if listPos + 3 \<le> nameListLen + 2 then
        rbind (at SniPanic sniData listPos) (\<lambda>nameType.
        rbind (be_Uint16 sniData (listPos + 1)) (\<lambda>sniLen.
        if listPos + 3 + sniLen > length sniData then Inl SniUnexpectedEOF
        else if nameType = 0 then Inr (Some (listPos + 3), sniLen)
        else sni_names sniData nameListLen (listPos + 3 + sniLen) sniLen))
      else Inr (None, sniLen))"
  by pat_completeness auto
termination
  by (relation "measure (\<lambda>(d, n, p, l). n + 2 - p)") auto

declare sni_names.simps [simp del]

text \<open>The server name extension. \<open>base\<close> is the position of the extension's data.\<close>

definition parse_sni :: "bytes \<Rightarrow> nat \<Rightarrow> nat \<Rightarrow> int \<Rightarrow> sni_error + (int \<times> nat)" where
  "parse_sni sniData base sniLen sniPos =
     (if length sniData < 2 then Inl SniUnexpectedEOF
      else
        rbind (be_Uint16 sniData 0) (\<lambda>nameListLen.
        if length sniData \<noteq> 2 + nameListLen then Inl SniUnexpectedEOF
        else
          rbind (sni_names sniData nameListLen 2 sniLen) (\<lambda>(p, sniLen).
          let sniPos = (case p of None \<Rightarrow> sniPos | Some listPos \<Rightarrow> int (base + listPos)) in
          if sniPos = 0 then Inl (SniError ''SNI host_name not found'')
          else Inr (sniPos, sniLen))))"

function sni_extensions :: "bytes \<Rightarrow> nat \<Rightarrow> nat \<Rightarrow> int \<Rightarrow> nat \<Rightarrow> int \<Rightarrow> sni_error + (int \<times> nat \<times> int)" where
  "sni_extensions extensions extensionsStart extPos sniPos sniLen echPos =
     (if extPos + 4 \<le> length extensions then
        rbind (be_Uint16 extensions extPos) (\<lambda>extType.
        rbind (be_Uint16 extensions (extPos + 2)) (\<lambda>extLen.
        if extPos + 4 + extLen > length extensions then Inl SniUnexpectedEOF
        else
          rbind (if extType = extTypeSNI then
                   if sniPos \<noteq> -1 then Inl (SniError ''multiple SNI extensions'')
                   else
                     rbind (slice SniPanic extensions (extPos + 4) (extPos + 4 + extLen)) (\<lambda>sniData.
                     rbind (parse_sni sniData (extensionsStart + extPos + 4) sniLen sniPos) (\<lambda>(sniPos, sniLen).
                     Inr (sniPos, sniLen, echPos)))
                 else if extType = extTypeECH then
                   if echPos \<noteq> -1 then Inl (SniError ''multiple ECH extensions'')
                   else Inr (sniPos, sniLen, int (extensionsStart + extPos))
                 else Inr (sniPos, sniLen, echPos)) (\<lambda>(sniPos, sniLen, echPos).
          if sniPos \<noteq> -1 \<and> echPos \<noteq> -1 then Inr (sniPos, sniLen, echPos)
          else sni_extensions extensions extensionsStart (extPos + 4 + extLen) sniPos sniLen echPos)))
      else Inr (sniPos, sniLen, echPos))"
  by pat_completeness auto
termination
  by (relation "measure (\<lambda>(e, s, p, a, b, c). length e - p)") auto

declare sni_extensions.simps [simp del]

text \<open>\<open>require\<close> is the check before every field of the hello.\<close>

definition require :: "bytes \<Rightarrow> nat \<Rightarrow> sni_error + unit" where
  "require data end = (if end > length data then Inl SniUnexpectedEOF else Inr ())"

definition findSNIAndECH :: "bytes \<Rightarrow> sni_error + (int \<times> nat \<times> int)" where
  "findSNIAndECH data =
     (if length data < 4 then Inl SniUnexpectedEOF
      else
        rbind (at SniPanic data 0) (\<lambda>messageType.
        if messageType \<noteq> 1 then Inl (SniError ''not a ClientHello'')
        else
        rbind (at SniPanic data 1) (\<lambda>b1. rbind (at SniPanic data 2) (\<lambda>b2. rbind (at SniPanic data 3) (\<lambda>b3.
        let handshakeLen = unat b1 * 65536 + unat b2 * 256 + unat b3 in
        if length data \<noteq> 4 + handshakeLen then Inl SniUnexpectedEOF
        else
          let parsePos = 4 in
          rbind (require data (parsePos + 2)) (\<lambda>_.
          let parsePos = parsePos + 2 in
          rbind (require data (parsePos + 32)) (\<lambda>_.
          let parsePos = parsePos + 32 in
          rbind (require data (parsePos + 1)) (\<lambda>_.
          rbind (at SniPanic data parsePos) (\<lambda>sessionIDLen.
          let parsePos = parsePos + 1 in
          rbind (require data (parsePos + unat sessionIDLen)) (\<lambda>_.
          let parsePos = parsePos + unat sessionIDLen in
          rbind (require data (parsePos + 2)) (\<lambda>_.
          rbind (be_Uint16 data parsePos) (\<lambda>cipherSuitesLen.
          let parsePos = parsePos + 2 in
          rbind (require data (parsePos + cipherSuitesLen)) (\<lambda>_.
          let parsePos = parsePos + cipherSuitesLen in
          rbind (require data (parsePos + 1)) (\<lambda>_.
          rbind (at SniPanic data parsePos) (\<lambda>compressionMethodsLen.
          let parsePos = parsePos + 1 in
          rbind (require data (parsePos + unat compressionMethodsLen)) (\<lambda>_.
          let parsePos = parsePos + unat compressionMethodsLen in
          rbind (require data (parsePos + 2)) (\<lambda>_.
          rbind (be_Uint16 data parsePos) (\<lambda>extensionsLen.
          let parsePos = parsePos + 2 in
          rbind (require data (parsePos + extensionsLen)) (\<lambda>_.
          let extensionsStart = parsePos in
          rbind (slice SniPanic data extensionsStart (extensionsStart + extensionsLen)) (\<lambda>extensions.
          sni_extensions extensions extensionsStart 0 (-1) 0 (-1)))))))))))))))))))))"

section \<open>Results\<close>

definition sni_safe :: "sni_error + 'a \<Rightarrow> bool" where
  "sni_safe m = (\<forall>p. m \<noteq> Inl (SniPanic p))"

lemma sni_safe_simps [simp]: "sni_safe (Inr a)" "sni_safe (Inl SniUnexpectedEOF)" "sni_safe (Inl (SniError m))"
  by (simp_all add: sni_safe_def)

lemma sni_safe_bind: "sni_safe m \<Longrightarrow> (\<And>a. m = Inr a \<Longrightarrow> sni_safe (f a)) \<Longrightarrow> sni_safe (rbind m f)"
  by (cases m) (auto simp: sni_safe_def)

lemma be_Uint16_in_range: "i + 2 \<le> length b \<Longrightarrow> \<exists>n. be_Uint16 b i = Inr n"
  by (simp add: be_Uint16_def)

lemma require_simps [simp]: "sni_safe (require data e)" "require data e = Inr u \<longleftrightarrow> e \<le> length data"
  by (auto simp: require_def)

lemma sni_names_spec:
  assumes "length sniData = 2 + nameListLen" "sniLen \<le> L" "nameListLen + 2 \<le> L"
  shows "sni_safe (sni_names sniData nameListLen listPos sniLen)
    \<and> (\<forall>p l. sni_names sniData nameListLen listPos sniLen = Inr (p, l) \<longrightarrow>
         l \<le> L \<and> (\<forall>q. p = Some q \<longrightarrow> 0 < q \<and> q + l \<le> length sniData))"
  using assms
proof (induction sniData nameListLen listPos sniLen rule: sni_names.induct)
  case (1 d n p l)
  show ?case
  proof (cases "p + 3 \<le> n + 2")
    case True
    then obtain k where k: "be_Uint16 d (Suc p) = Inr k" using be_Uint16_in_range [of "Suc p" d] "1.prems"(1) by auto
    have at: "at SniPanic d p = Inr (d ! p)" using True "1.prems"(1) by simp
    consider "p + 3 + k > length d" | "p + 3 + k \<le> length d" "d ! p = 0" | "p + 3 + k \<le> length d" "d ! p \<noteq> 0" by linarith
    then show ?thesis
    proof cases
      case 3
      have "sni_safe (sni_names d n (p + 3 + k) k) \<and> (\<forall>q m. sni_names d n (p + 3 + k) k = Inr (q, m) \<longrightarrow>
          m \<le> L \<and> (\<forall>r. q = Some r \<longrightarrow> 0 < r \<and> r + m \<le> length d))"
        using "1.IH" [OF True at, of k] k 3 "1.prems" by auto
      then show ?thesis using True at k 3 by (simp add: sni_names.simps [of d n p])
    qed (use True at k "1.prems" in \<open>auto simp: sni_names.simps [of d n p]\<close>)
  qed (use "1.prems" in \<open>auto simp: sni_names.simps [of d n p]\<close>)
qed

text \<open>Positions inside a hello of length \<open>N\<close>.\<close>

definition found_in :: "nat \<Rightarrow> int \<Rightarrow> nat \<Rightarrow> int \<Rightarrow> bool" where
  "found_in N sniPos sniLen echPos = (sniLen \<le> N \<and> (sniPos = -1 \<or> 0 < sniPos \<and> sniPos + int sniLen \<le> int N)
     \<and> (echPos = -1 \<or> 0 < echPos \<and> echPos + 4 \<le> int N))"

lemma parse_sni_spec:
  assumes "0 < base" "base + length sniData \<le> N" "sniLen \<le> N"
  shows "sni_safe (parse_sni sniData base sniLen (-1))
    \<and> (\<forall>p l. parse_sni sniData base sniLen (-1) = Inr (p, l) \<longrightarrow>
         l \<le> N \<and> (p = -1 \<or> 0 < p \<and> p + int l \<le> int N))"
proof (cases "length sniData < 2")
  case False
  then obtain n where n: "be_Uint16 sniData 0 = Inr n" using be_Uint16_in_range [of 0 sniData] by auto
  show ?thesis
  proof (cases "length sniData = 2 + n")
    case True
    note names = sni_names_spec [OF True assms(3), of 2]
    then show ?thesis using False n True assms
      by (cases "sni_names sniData n 2 sniLen") (auto simp: parse_sni_def sni_safe_def Let_def split: option.splits if_splits)
  qed (use False n in \<open>auto simp: parse_sni_def\<close>)
qed (simp add: parse_sni_def)

lemma sni_extensions_spec:
  assumes "0 < start" "start + length ext \<le> N" "found_in N sniPos sniLen echPos"
  shows "sni_safe (sni_extensions ext start extPos sniPos sniLen echPos)
    \<and> (\<forall>p l e. sni_extensions ext start extPos sniPos sniLen echPos = Inr (p, l, e) \<longrightarrow> found_in N p l e)"
  using assms
proof (induction ext start extPos sniPos sniLen echPos rule: sni_extensions.induct)
  case (1 ext start extPos sniPos sniLen echPos)
  show ?case
  proof (cases "extPos + 4 \<le> length ext")
    case True
    obtain t l where tl: "be_Uint16 ext extPos = Inr t" "be_Uint16 ext (extPos + 2) = Inr l"
      using be_Uint16_in_range [of extPos ext] be_Uint16_in_range [of "extPos + 2" ext] True by auto
    let ?m = "if t = extTypeSNI then
                   if sniPos \<noteq> -1 then Inl (SniError ''multiple SNI extensions'')
                   else
                     rbind (slice SniPanic ext (extPos + 4) (extPos + 4 + l)) (\<lambda>sniData.
                     rbind (parse_sni sniData (start + extPos + 4) sniLen sniPos) (\<lambda>(sniPos, sniLen).
                     Inr (sniPos, sniLen, echPos)))
                 else if t = extTypeECH then
                   if echPos \<noteq> -1 then Inl (SniError ''multiple ECH extensions'')
                   else Inr (sniPos, sniLen, int (start + extPos))
                 else Inr (sniPos, sniLen, echPos)"
    show ?thesis
    proof (cases "extPos + 4 + l > length ext")
      case False
      have m: "sni_safe ?m \<and> (\<forall>p k e. ?m = Inr (p, k, e) \<longrightarrow> found_in N p k e)"
      proof (cases "t = extTypeSNI \<and> sniPos = -1")
        case True
        let ?d = "take l (drop (extPos + 4) ext)"
        have "start + extPos + 4 + length ?d \<le> N" using False "1.prems"(2) by simp
        then have "sni_safe (parse_sni ?d (start + extPos + 4) sniLen (-1))
          \<and> (\<forall>p k. parse_sni ?d (start + extPos + 4) sniLen (-1) = Inr (p, k) \<longrightarrow> k \<le> N \<and> (p = -1 \<or> 0 < p \<and> p + int k \<le> int N))"
          using parse_sni_spec [of "start + extPos + 4" ?d N sniLen] "1.prems" by (auto simp: found_in_def)
        then show ?thesis using True False "1.prems"(3)
          by (cases "parse_sni ?d (start + extPos + 4) sniLen (-1)") (auto simp: slice_def sni_safe_def found_in_def)
      next
        case other: False
        then show ?thesis using "1.prems" True by (auto simp: found_in_def)
      qed
      show ?thesis
      proof (cases ?m)
        case (Inl e)
        then show ?thesis using True tl False m by (simp add: sni_extensions.simps [of ext start extPos])
      next
        case (Inr r)
        obtain p k e where r: "r = (p, k, e)" by (cases r)
        then have ok: "found_in N p k e" using m Inr by blast
        show ?thesis
        proof (cases "p \<noteq> -1 \<and> e \<noteq> -1")
          case True
          then show ?thesis using \<open>extPos + 4 \<le> length ext\<close> tl False Inr r ok by (simp add: sni_extensions.simps [of ext start extPos])
        next
          case more: False
          have "sni_extensions ext start extPos sniPos sniLen echPos = sni_extensions ext start (extPos + 4 + l) p k e"
            using True tl False Inr r more by (auto simp: sni_extensions.simps [of ext start extPos])
          then show ?thesis using "1.IH" [OF True tl False Inr [unfolded r] refl refl more] ok "1.prems"(1,2) by auto
        qed
      qed
    qed (use True tl in \<open>simp add: sni_extensions.simps [of ext start extPos]\<close>)
  qed (use "1.prems" in \<open>simp add: sni_extensions.simps [of ext start extPos]\<close>)
qed

text \<open>A rule per step of \<open>findSNIAndECH\<close>.\<close>

definition yields :: "sni_error + 'a \<Rightarrow> ('a \<Rightarrow> bool) \<Rightarrow> bool" where
  "yields m P = (sni_safe m \<and> (\<forall>a. m = Inr a \<longrightarrow> P a))"

lemma yields_require: "(e \<le> length data \<Longrightarrow> yields (f ()) P) \<Longrightarrow> yields (rbind (require data e) f) P"
  by (auto simp: yields_def require_def)

lemma yields_at: "i < length data \<Longrightarrow> yields (f (data ! i)) P \<Longrightarrow> yields (rbind (at SniPanic data i) f) P"
  by simp

lemma yields_Uint16: "i + 2 \<le> length data \<Longrightarrow> (\<And>n. yields (f n) P) \<Longrightarrow> yields (rbind (be_Uint16 data i) f) P"
  using be_Uint16_in_range [of i data] by auto

lemma yields_slice:
  "a + n \<le> length data \<Longrightarrow> yields (f (take n (drop a data))) P \<Longrightarrow> yields (rbind (slice SniPanic data a (a + n)) f) P"
  by (simp add: slice_def)

lemma findSNIAndECH_spec: "yields (findSNIAndECH data) (\<lambda>(p, l, e). 4 \<le> length data \<and> found_in (length data) p l e)"
proof (cases "length data < 4")
  case False
  then have first: "data \<noteq> []" by auto
  show ?thesis
  proof (cases "data ! 0 \<noteq> 1 \<or> length data \<noteq> 4 + (unat (data ! 1) * 65536 + unat (data ! 2) * 256 + unat (data ! 3))")
    case True
    then show ?thesis using False first by (auto simp: findSNIAndECH_def yields_def)
  next
    case hdr: False
    have ext: "yields (sni_extensions (take n (drop a data)) a 0 (-1) 0 (-1)) (\<lambda>(p, l, e). 4 \<le> length data \<and> found_in (length data) p l e)"
      if "0 < a" "a + n \<le> length data" for a n
      using sni_extensions_spec [of a "take n (drop a data)" "length data" "-1" 0 "-1" 0] that False
      by (auto simp: yields_def found_in_def)
    have "findSNIAndECH data = rbind (require data (4 + 2)) (\<lambda>_. rbind (require data (6 + 32)) (\<lambda>_.
          rbind (require data (38 + 1)) (\<lambda>_. rbind (at SniPanic data 38) (\<lambda>sessionIDLen.
          let parsePos = 39 in
          rbind (require data (parsePos + unat sessionIDLen)) (\<lambda>_.
          let parsePos = parsePos + unat sessionIDLen in
          rbind (require data (parsePos + 2)) (\<lambda>_.
          rbind (be_Uint16 data parsePos) (\<lambda>cipherSuitesLen.
          let parsePos = parsePos + 2 in
          rbind (require data (parsePos + cipherSuitesLen)) (\<lambda>_.
          let parsePos = parsePos + cipherSuitesLen in
          rbind (require data (parsePos + 1)) (\<lambda>_.
          rbind (at SniPanic data parsePos) (\<lambda>compressionMethodsLen.
          let parsePos = parsePos + 1 in
          rbind (require data (parsePos + unat compressionMethodsLen)) (\<lambda>_.
          let parsePos = parsePos + unat compressionMethodsLen in
          rbind (require data (parsePos + 2)) (\<lambda>_.
          rbind (be_Uint16 data parsePos) (\<lambda>extensionsLen.
          let parsePos = parsePos + 2 in
          rbind (require data (parsePos + extensionsLen)) (\<lambda>_.
          let extensionsStart = parsePos in
          rbind (slice SniPanic data extensionsStart (extensionsStart + extensionsLen)) (\<lambda>extensions.
          sni_extensions extensions extensionsStart 0 (-1) 0 (-1))))))))))))))))"
      using False first hdr by (simp add: findSNIAndECH_def)
    then show ?thesis unfolding Let_def
      by (simp only:) (intro yields_require yields_at yields_Uint16 yields_slice ext; linarith)
  qed
qed (simp add: findSNIAndECH_def yields_def)

section \<open>Properties\<close>

text \<open>C21: Locating the server name and ECH is safe: no byte string makes \<open>findSNIAndECH\<close> index out of range, and
  what it reports lies inside the hello: a server name at a positive position that ends within the data, and an
  ECH extension whose four bytes of header are within the data.\<close>

theorem findSNIAndECH_safe:
  "(\<forall>p. findSNIAndECH data \<noteq> Inl (SniPanic p))
    \<and> (case findSNIAndECH data of Inl _ \<Rightarrow> True
       | Inr (sniPos, sniLen, echPos) \<Rightarrow> sniLen \<le> length data
         \<and> (sniPos = -1 \<or> 0 < sniPos \<and> sniPos + int sniLen \<le> int (length data))
         \<and> (echPos = -1 \<or> 0 < echPos \<and> echPos + 4 \<le> int (length data)))"
  using findSNIAndECH_spec [of data] by (auto simp: yields_def sni_safe_def found_in_def split: sum.splits)

end
