(* ===== verification/Quic_Crypto_Stream.thy ===== *)
theory Quic_Crypto_Stream
  imports Quic_Frame_Sorter_Spec Quic_Sni Quic_Frame_Parser
begin

text \<open>
  The CRYPTO streams of a connection (\<open>quic/crypto_stream.go\<close>, \<open>quic/crypto_stream_manager.go\<close>). A \<open>baseCryptoStream\<close> sorts
  what it receives with the frame sorter and cuts what it sends into frames. The \<open>initialCryptoStream\<close> of a client scrambles
  its ClientHello: it cuts out the second half of the server name and a part of the ECH extension, sends everything
  else first and the cuts afterwards.

  The environment variable that turns scrambling off is a parameter, the result of \<open>strconv.ParseBool\<close> on it, \<open>None\<close> for an
  error. A panic is the left side of a result; the two kinds, of the sorter and of the frame writer, are kept apart.
\<close>

section \<open>The base stream\<close>

abbreviation MaxCryptoStreamOffset :: ByteCount where "MaxCryptoStreamOffset \<equiv> 16 * 1024"
abbreviation InvalidByteCount :: ByteCount where "InvalidByteCount \<equiv> -1"

record baseCryptoStream =
  bcs_queue :: frameSorter
  bcs_highestOffset :: ByteCount
  bcs_finished :: bool
  bcs_writeOffset :: ByteCount
  bcs_writeBuf :: bytes

datatype crypto_error =
    CryptoBufferExceeded ByteCount | DataAfterLevelChange | TooManyGapsError | MoreDataToRead
  | UnexpectedCryptoLevel EncryptionLevel

definition newCryptoStream :: baseCryptoStream where
  "newCryptoStream = \<lparr>bcs_queue = newFrameSorter, bcs_highestOffset = 0, bcs_finished = False, bcs_writeOffset = 0,
     bcs_writeBuf = []\<rparr>"

definition HandleCryptoFrame ::
  "baseCryptoStream \<Rightarrow> CryptoFrame \<Rightarrow> sorter_panic + (crypto_error option \<times> baseCryptoStream)" where
  "HandleCryptoFrame s f =
     (let highestOffset = cf_Offset f + int (length (cf_Data f)) in
      if highestOffset > MaxCryptoStreamOffset then Inr (Some (CryptoBufferExceeded highestOffset), s)
      else if bcs_finished s then
        Inr (if highestOffset > bcs_highestOffset s then Some DataAfterLevelChange else None, s)
      else
        let s = s\<lparr>bcs_highestOffset := max (bcs_highestOffset s) highestOffset\<rparr> in
        rbind (Push (bcs_queue s) (cf_Data f) (cf_Offset f) None) (\<lambda>(ok, queue, _).
        Inr (if ok then None else Some TooManyGapsError, s\<lparr>bcs_queue := queue\<rparr>)))"

definition GetCryptoData :: "baseCryptoStream \<Rightarrow> sorter_panic + (bytes option \<times> baseCryptoStream)" where
  "GetCryptoData s = rbind (Pop (bcs_queue s)) (\<lambda>(_, data, _, queue). Inr (data, s\<lparr>bcs_queue := queue\<rparr>))"

definition Finish :: "baseCryptoStream \<Rightarrow> crypto_error option \<times> baseCryptoStream" where
  "Finish s = (if HasMoreData (bcs_queue s) then (Some MoreDataToRead, s) else (None, s\<lparr>bcs_finished := True\<rparr>))"

definition base_Write :: "baseCryptoStream \<Rightarrow> bytes \<Rightarrow> nat \<times> baseCryptoStream" where
  "base_Write s p = (length p, s\<lparr>bcs_writeBuf := bcs_writeBuf s @ p\<rparr>)"

definition base_HasData :: "baseCryptoStream \<Rightarrow> bool" where
  "base_HasData s = (length (bcs_writeBuf s) > 0)"

definition base_PopCryptoFrame :: "baseCryptoStream \<Rightarrow> ByteCount \<Rightarrow> pack_error + (CryptoFrame option \<times> baseCryptoStream)" where
  "base_PopCryptoFrame s maxLen =
     rbind (MaxDataLen \<lparr>cf_Offset = bcs_writeOffset s, cf_Data = []\<rparr> maxLen) (\<lambda>m.
     let n = min m (int (length (bcs_writeBuf s))) in
     if n \<le> 0 then Inr (None, s)
     else
       rbind (slice PackPanic (bcs_writeBuf s) 0 (nat n)) (\<lambda>data.
       rbind (slice PackPanic (bcs_writeBuf s) (nat n) (length (bcs_writeBuf s))) (\<lambda>rest.
       Inr (Some \<lparr>cf_Offset = bcs_writeOffset s, cf_Data = data\<rparr>,
            s\<lparr>bcs_writeBuf := rest, bcs_writeOffset := bcs_writeOffset s + n\<rparr>))))"

section \<open>The initial stream\<close>

record clientHelloCut =
  cut_start :: ByteCount
  cut_end :: ByteCount

abbreviation no_cut :: clientHelloCut where
  "no_cut \<equiv> \<lparr>cut_start = InvalidByteCount, cut_end = InvalidByteCount\<rparr>"

record initialCryptoStream =
  ics_base :: baseCryptoStream
  ics_isClient :: bool
  ics_scramble :: bool
  ics_clientHelloComplete :: bool
  ics_end :: ByteCount
  ics_cuts :: "clientHelloCut list"

definition newInitialCryptoStream :: "bool \<Rightarrow> bool \<Rightarrow> bool option \<Rightarrow> initialCryptoStream" where
  "newInitialCryptoStream isClient disableScrambling env =
     (let scramble = (if isClient \<and> \<not> disableScrambling then (case env of None \<Rightarrow> True | Some disabled \<Rightarrow> \<not> disabled) else False) in
      \<lparr>ics_base = newCryptoStream, ics_isClient = isClient, ics_scramble = scramble, ics_clientHelloComplete = False,
       ics_end = 0, ics_cuts = [no_cut, no_cut]\<rparr>)"

definition initial_HasData :: "initialCryptoStream \<Rightarrow> bool" where
  "initial_HasData s =
     (if ics_isClient s \<and> bcs_writeOffset (ics_base s) = 0 \<and> \<not> ics_clientHelloComplete s then False
      else base_HasData (ics_base s))"

text \<open>\<open>slices.SortFunc\<close> on two elements: the second is put first if the comparison says it is smaller.\<close>

definition cut_cmp :: "clientHelloCut \<Rightarrow> clientHelloCut \<Rightarrow> int" where
  "cut_cmp a b = (if cut_start a = InvalidByteCount then 1 else if cut_start a > cut_start b then 1 else -1)"

definition sort_cuts :: "clientHelloCut \<Rightarrow> clientHelloCut \<Rightarrow> clientHelloCut list" where
  "sort_cuts a b = (if cut_cmp b a < 0 then [b, a] else [a, b])"

definition initial_Write :: "initialCryptoStream \<Rightarrow> bytes \<Rightarrow> nat \<times> sni_error option \<times> initialCryptoStream" where
  "initial_Write s p =
     (let buf = bcs_writeBuf (ics_base s) @ p;
          s = s\<lparr>ics_base := (ics_base s)\<lparr>bcs_writeBuf := buf\<rparr>\<rparr> in
      if ics_isClient s \<and> \<not> ics_clientHelloComplete s then
        (case findSNIAndECH buf of
           Inl SniUnexpectedEOF \<Rightarrow> (length p, None, s)
         | Inl e \<Rightarrow> (length p, Some e, s\<lparr>ics_clientHelloComplete := True\<rparr>)
         | Inr (sniPos, sniLen, echPos) \<Rightarrow>
             let s = s\<lparr>ics_clientHelloComplete := True, ics_end := int (length buf)\<rparr> in
             if ics_scramble s \<and> (sniPos \<noteq> -1 \<or> echPos \<noteq> -1) then
               let cut0 = \<lparr>cut_start = sniPos + int (sniLen div 2), cut_end = sniPos + int sniLen\<rparr>;
                   cut1 = (if echPos > 0 then
                             let start = echPos + 1 in \<lparr>cut_start = start, cut_end = min (start + 16) (ics_end s)\<rparr>
                           else ics_cuts s ! 1) in
               (length p, None, s\<lparr>ics_cuts := sort_cuts cut0 cut1\<rparr>)
             else (length p, None, s\<lparr>ics_scramble := False\<rparr>))
      else (length p, None, s))"

text \<open>The loop over the cuts once everything else is sent: whether cuts are left, the frame, and the cuts; \<open>None\<close> is the
  return of nil in the loop.\<close>

fun pop_cuts :: "ByteCount \<Rightarrow> bytes \<Rightarrow> clientHelloCut list \<Rightarrow> bool \<Rightarrow> CryptoFrame option \<Rightarrow> clientHelloCut list
    \<Rightarrow> pack_error + (bool \<times> CryptoFrame option \<times> clientHelloCut list) option" where
  "pop_cuts maxLen writeBuf [] foundCuts f seen = Inr (Some (foundCuts, f, seen))"
| "pop_cuts maxLen writeBuf (c # cs) foundCuts f seen =
     (if cut_start c = InvalidByteCount then pop_cuts maxLen writeBuf cs foundCuts f (seen @ [c])
      else if f \<noteq> None then Inr (Some (True, f, seen @ c # cs))
      else
        rbind (MaxDataLen \<lparr>cf_Offset = cut_start c, cf_Data = []\<rparr> maxLen) (\<lambda>m.
        let n = min m (cut_end c - cut_start c) in
        if n \<le> 0 then Inr None
        else
          rbind (slice PackPanic writeBuf (nat (cut_start c)) (nat (cut_start c + n))) (\<lambda>data.
          let f = Some \<lparr>cf_Offset = cut_start c, cf_Data = data\<rparr> in
          if cut_start c + n = cut_end c then pop_cuts maxLen writeBuf cs False f (seen @ [no_cut])
          else pop_cuts maxLen writeBuf cs True f (seen @ [c\<lparr>cut_start := cut_start c + n\<rparr>]))))"

fun next_cut :: "clientHelloCut list \<Rightarrow> ByteCount \<Rightarrow> clientHelloCut" where
  "next_cut [] writeOffset = no_cut"
| "next_cut (c # cs) writeOffset =
     (if cut_start c = InvalidByteCount then next_cut cs writeOffset
      else if cut_start c > writeOffset then c
      else next_cut cs writeOffset)"

definition initial_PopCryptoFrame ::
  "initialCryptoStream \<Rightarrow> ByteCount \<Rightarrow> pack_error + (CryptoFrame option \<times> initialCryptoStream)" where
  "initial_PopCryptoFrame s maxLen =
     (let b = ics_base s in
      if \<not> ics_scramble s then
        rbind (base_PopCryptoFrame b maxLen) (\<lambda>(f, b). Inr (f, s\<lparr>ics_base := b\<rparr>))
      else if bcs_writeOffset b = ics_end s then
        rbind (pop_cuts maxLen (bcs_writeBuf b) (ics_cuts s) False None []) (\<lambda>r.
        case r of None \<Rightarrow> Inr (None, s)
        | Some (foundCuts, f, cuts) \<Rightarrow>
            let s = s\<lparr>ics_cuts := cuts\<rparr> in
            if \<not> foundCuts then
              rbind (slice PackPanic (bcs_writeBuf b) (nat (ics_end s)) (length (bcs_writeBuf b))) (\<lambda>rest.
              Inr (f, s\<lparr>ics_base := b\<lparr>bcs_writeBuf := rest\<rparr>, ics_end := InvalidByteCount, ics_scramble := False\<rparr>))
            else Inr (f, s))
      else
        let nextCut = next_cut (ics_cuts s) (bcs_writeOffset b);
            maxOffset = (if cut_start nextCut = InvalidByteCount then ics_end s else cut_start nextCut) in
        rbind (MaxDataLen \<lparr>cf_Offset = bcs_writeOffset b, cf_Data = []\<rparr> maxLen) (\<lambda>m.
        let n = min m (maxOffset - bcs_writeOffset b) in
        if n \<le> 0 then Inr (None, s)
        else
          rbind (slice PackPanic (bcs_writeBuf b) (nat (bcs_writeOffset b)) (nat (bcs_writeOffset b + n))) (\<lambda>data.
          let f = \<lparr>cf_Offset = bcs_writeOffset b, cf_Data = data\<rparr>;
              writeOffset = bcs_writeOffset b + n;
              writeOffset = (if writeOffset = cut_start nextCut then cut_end nextCut else writeOffset) in
          Inr (Some f, s\<lparr>ics_base := b\<lparr>bcs_writeOffset := writeOffset\<rparr>\<rparr>))))"

section \<open>The manager\<close>

record cryptoStreamManager =
  csm_initialStream :: initialCryptoStream
  csm_handshakeStream :: baseCryptoStream
  csm_oneRTTStream :: baseCryptoStream

definition manager_HandleCryptoFrame ::
  "cryptoStreamManager \<Rightarrow> CryptoFrame \<Rightarrow> EncryptionLevel \<Rightarrow> sorter_panic + (crypto_error option \<times> cryptoStreamManager)" where
  "manager_HandleCryptoFrame m frame encLevel =
     (if encLevel = EncryptionInitial then
        rbind (HandleCryptoFrame (ics_base (csm_initialStream m)) frame) (\<lambda>(e, b).
        Inr (e, m\<lparr>csm_initialStream := (csm_initialStream m)\<lparr>ics_base := b\<rparr>\<rparr>))
      else if encLevel = EncryptionHandshake then
        rbind (HandleCryptoFrame (csm_handshakeStream m) frame) (\<lambda>(e, b). Inr (e, m\<lparr>csm_handshakeStream := b\<rparr>))
      else if encLevel = Encryption1RTT then
        rbind (HandleCryptoFrame (csm_oneRTTStream m) frame) (\<lambda>(e, b). Inr (e, m\<lparr>csm_oneRTTStream := b\<rparr>))
      else Inr (Some (UnexpectedCryptoLevel encLevel), m))"

datatype manager_panic = ManagerPanic EncryptionLevel | ManagerSorterPanic sorter_panic

definition sorter_result :: "sorter_panic + 'a \<Rightarrow> manager_panic + 'a" where
  "sorter_result r = (case r of Inl p \<Rightarrow> Inl (ManagerSorterPanic p) | Inr a \<Rightarrow> Inr a)"

definition manager_GetCryptoData ::
  "cryptoStreamManager \<Rightarrow> EncryptionLevel \<Rightarrow> manager_panic + (bytes option \<times> cryptoStreamManager)" where
  "manager_GetCryptoData m encLevel =
     (if encLevel = EncryptionInitial then
        rbind (sorter_result (GetCryptoData (ics_base (csm_initialStream m)))) (\<lambda>(d, b).
        Inr (d, m\<lparr>csm_initialStream := (csm_initialStream m)\<lparr>ics_base := b\<rparr>\<rparr>))
      else if encLevel = EncryptionHandshake then
        rbind (sorter_result (GetCryptoData (csm_handshakeStream m))) (\<lambda>(d, b). Inr (d, m\<lparr>csm_handshakeStream := b\<rparr>))
      else if encLevel = Encryption1RTT then
        rbind (sorter_result (GetCryptoData (csm_oneRTTStream m))) (\<lambda>(d, b). Inr (d, m\<lparr>csm_oneRTTStream := b\<rparr>))
      else Inl (ManagerPanic encLevel))"

definition GetPostHandshakeData ::
  "cryptoStreamManager \<Rightarrow> ByteCount \<Rightarrow> pack_error + (CryptoFrame option \<times> cryptoStreamManager)" where
  "GetPostHandshakeData m maxSize =
     (if \<not> base_HasData (csm_oneRTTStream m) then Inr (None, m)
      else rbind (base_PopCryptoFrame (csm_oneRTTStream m) maxSize) (\<lambda>(f, b). Inr (f, m\<lparr>csm_oneRTTStream := b\<rparr>)))"

definition manager_Drop :: "cryptoStreamManager \<Rightarrow> EncryptionLevel \<Rightarrow> manager_panic + (crypto_error option \<times> cryptoStreamManager)" where
  "manager_Drop m encLevel =
     (if encLevel = EncryptionInitial then
        let (e, b) = Finish (ics_base (csm_initialStream m)) in
        Inr (e, m\<lparr>csm_initialStream := (csm_initialStream m)\<lparr>ics_base := b\<rparr>\<rparr>)
      else if encLevel = EncryptionHandshake then
        let (e, b) = Finish (csm_handshakeStream m) in Inr (e, m\<lparr>csm_handshakeStream := b\<rparr>)
      else Inl (ManagerPanic encLevel))"

end
