(* ===== verification/Quic_Crypto_Send.thy ===== *)
theory Quic_Crypto_Send
  imports Quic_Crypto_Stream
begin

text \<open>
  Sending the ClientHello, scrambled or not (\<open>initialCryptoStream.PopCryptoFrame\<close> of \<open>quic/crypto_stream.go\<close>): every frame
  carries bytes of the hello at their place and fits the packet, each one brings the end nearer, and at the end the
  frames together cover the hello. Receiving is the frame sorter's, and both ends meet in the last property.
\<close>

section \<open>Sending\<close>

text \<open>A frame that carries bytes of the hello \<open>W\<close> at their place, and one that fits a size limit.\<close>

definition cf_span :: "CryptoFrame \<Rightarrow> int set" where
  "cf_span f = {cf_Offset f..<cf_Offset f + int (length (cf_Data f))}"

definition frame_of :: "bytes \<Rightarrow> CryptoFrame \<Rightarrow> bool" where
  "frame_of W f = (cf_Data f \<noteq> [] \<and> 0 \<le> cf_Offset f \<and> cf_Offset f + int (length (cf_Data f)) \<le> int (length W)
     \<and> cf_Data f = take (length (cf_Data f)) (drop (nat (cf_Offset f)) W))"

definition fits :: "CryptoFrame \<Rightarrow> ByteCount \<Rightarrow> bool" where
  "fits f maxLen = (\<exists>l. CryptoFrame_Length f = Inr l \<and> l \<le> maxLen)"

lemma cut_frame:
  assumes "0 \<le> off" "0 < n" "off + n \<le> int (length W)"
  defines "f \<equiv> \<lparr>cf_Offset = off, cf_Data = take (nat n) (drop (nat off) W)\<rparr>"
  shows "slice PackPanic W (nat off) (nat (off + n)) = Inr (cf_Data f)" "frame_of W f" "cf_span f = {off..<off + n}"
    "int (length (cf_Data f)) = n" "cf_Data f \<noteq> []"
proof -
  have e: "nat (off + n) - nat off = nat n" "nat off \<le> nat (off + n)" "nat (off + n) \<le> length W"
    using assms by auto
  then show "slice PackPanic W (nat off) (nat (off + n)) = Inr (cf_Data f)" by (simp add: slice_def f_def)
  have "length (take (nat n) (drop (nat off) W)) = nat n" using assms(1-3) by auto
  then show "frame_of W f" "cf_span f = {off..<off + n}" "int (length (cf_Data f)) = n" "cf_Data f \<noteq> []"
    using assms(1-3) by (auto simp: frame_of_def cf_span_def f_def simp del: length_take length_drop)
qed

lemma room:
  assumes "0 \<le> off" "off < 2 ^ 61" "0 \<le> maxLen" "maxLen \<le> 16384"
  obtains m where "MaxDataLen \<lparr>cf_Offset = off, cf_Data = []\<rparr> maxLen = Inr m" "11 \<le> maxLen \<longrightarrow> 0 < m"
    "\<forall>f. cf_Offset f = off \<and> cf_Data f \<noteq> [] \<and> int (length (cf_Data f)) \<le> m \<longrightarrow> fits f maxLen"
proof -
  let ?f = "\<lparr>cf_Offset = off, cf_Data = []\<rparr>" and ?v = "varint_size (nat off)"
  obtain n where n: "MaxDataLen ?f maxLen = Inr (int n)" "n = 0 \<longleftrightarrow> maxLen \<le> 2 + int ?v"
    "\<forall>k. 0 < k \<and> k \<le> n \<longrightarrow> int (1 + ?v + varint_size k + k) \<le> maxLen"
    using MaxDataLen_fits [of ?f maxLen] assms by auto
  have "?v \<le> 8" by (simp add: varint_size_def)
  then have "11 \<le> maxLen \<longrightarrow> 0 < int n" using n(2) by (cases "n = 0") auto
  moreover have "fits f maxLen" if f: "cf_Offset f = off" "cf_Data f \<noteq> []" "int (length (cf_Data f)) \<le> int n" for f
  proof -
    have k: "int (1 + ?v + varint_size (length (cf_Data f)) + length (cf_Data f)) \<le> maxLen" using n(3) f by simp
    then have "crypto_ok f" using f assms by (simp add: crypto_ok_def)
    then show ?thesis using CryptoFrame_Length_eq k f(1) by (simp add: fits_def crypto_size_def)
  qed
  ultimately show ?thesis using n(1) by (intro that [of "int n"]) auto
qed

text \<open>What is left to send of the hello \<open>W\<close> when the offsets \<open>sent\<close> have been sent: without scrambling a rest of it, with
  scrambling everything from the write offset on and the cuts.\<close>

definition cut_span :: "clientHelloCut \<Rightarrow> int set" where
  "cut_span c = (if cut_start c = InvalidByteCount then {} else {cut_start c..<cut_end c})"

definition cut_ok :: "nat \<Rightarrow> clientHelloCut \<Rightarrow> bool" where
  "cut_ok N c = (cut_start c = InvalidByteCount \<or> 0 \<le> cut_start c \<and> cut_start c \<le> cut_end c \<and> cut_end c \<le> int N)"

definition cut_len :: "clientHelloCut \<Rightarrow> nat" where
  "cut_len c = (if cut_start c = InvalidByteCount then 0 else nat (cut_end c - cut_start c))"

definition plain :: "bytes \<Rightarrow> int set \<Rightarrow> initialCryptoStream \<Rightarrow> bool" where
  "plain W sent s = (let off = bcs_writeOffset (ics_base s) in \<not> ics_scramble s \<and> 0 \<le> off \<and> off \<le> int (length W)
     \<and> bcs_writeBuf (ics_base s) = drop (nat off) W \<and> {0..<off} \<subseteq> sent)"

definition scrambled :: "bytes \<Rightarrow> int set \<Rightarrow> initialCryptoStream \<Rightarrow> bool" where
  "scrambled W sent s = (let off = bcs_writeOffset (ics_base s) in ics_scramble s \<and> ics_clientHelloComplete s \<and> 0 \<le> off \<and> off \<le> int (length W)
     \<and> bcs_writeBuf (ics_base s) = W \<and> ics_end s = int (length W)
     \<and> (\<forall>c\<in>set (ics_cuts s). cut_ok (length W) c) \<and> (\<exists>c\<in>set (ics_cuts s). cut_start c \<noteq> InvalidByteCount)
     \<and> {0..<off} \<subseteq> sent \<union> (\<Union>c\<in>set (ics_cuts s). cut_span c))"

definition left_to_send :: "bytes \<Rightarrow> initialCryptoStream \<Rightarrow> nat" where
  "left_to_send W s = nat (int (length W) - bcs_writeOffset (ics_base s))
     + (if ics_scramble s then sum_list (map cut_len (ics_cuts s)) else 0)"

text \<open>An empty cut, which is left by an empty server name, is never sent and never removed.\<close>

definition stuck :: "initialCryptoStream \<Rightarrow> bool" where
  "stuck s = (ics_scramble s \<and> (\<exists>c\<in>set (ics_cuts s). cut_start c \<noteq> InvalidByteCount \<and> cut_start c = cut_end c))"

text \<open>The outcome of asking for one more frame.\<close>

definition progress :: "bytes \<Rightarrow> int set \<Rightarrow> initialCryptoStream \<Rightarrow> ByteCount \<Rightarrow> CryptoFrame option \<times> initialCryptoStream \<Rightarrow> bool" where
  "progress W sent s maxLen r = (case r of
     (None, s') \<Rightarrow> s' = s \<and> (11 \<le> maxLen \<longrightarrow> plain W sent s \<and> left_to_send W s = 0 \<or> stuck s)
   | (Some f, s') \<Rightarrow> frame_of W f \<and> fits f maxLen \<and> (plain W (sent \<union> cf_span f) s' \<or> scrambled W (sent \<union> cf_span f) s')
       \<and> stuck s' = stuck s \<and> left_to_send W s' < left_to_send W s)"

lemma pop_plain:
  assumes "plain W sent s" "length W < 2 ^ 61" "0 \<le> maxLen" "maxLen \<le> 16384"
  shows "\<exists>r. initial_PopCryptoFrame s maxLen = Inr r \<and> progress W sent s maxLen r"
proof -
  let ?b = "ics_base s" and ?off = "bcs_writeOffset (ics_base s)"
  have p: "\<not> ics_scramble s" "0 \<le> ?off" "?off \<le> int (length W)" "bcs_writeBuf ?b = drop (nat ?off) W" "{0..<?off} \<subseteq> sent"
    using assms(1) by (auto simp: plain_def Let_def)
  obtain m where m: "MaxDataLen \<lparr>cf_Offset = ?off, cf_Data = []\<rparr> maxLen = Inr m" "11 \<le> maxLen \<longrightarrow> 0 < m"
    "\<forall>f. cf_Offset f = ?off \<and> cf_Data f \<noteq> [] \<and> int (length (cf_Data f)) \<le> m \<longrightarrow> fits f maxLen"
    by (rule room [OF p(2) _ assms(3,4)]) (use p(3) assms(2) in auto)
  define n where "n = min m (int (length W) - ?off)"
  have mn: "min m (int (length (bcs_writeBuf ?b))) = n" using p by (auto simp: n_def)
  show ?thesis
  proof (cases "n \<le> 0")
    case True
    then have "initial_PopCryptoFrame s maxLen = Inr (None, s)"
      unfolding initial_PopCryptoFrame_def base_PopCryptoFrame_def Let_def m(1) rbind_Inr mn using p(1) by simp
    then show ?thesis using True m(2) p(1) assms(1) by (auto simp: progress_def left_to_send_def n_def)
  next
    case False
    let ?f = "\<lparr>cf_Offset = ?off, cf_Data = take (nat n) (drop (nat ?off) W)\<rparr>"
    let ?s = "s\<lparr>ics_base := ?b\<lparr>bcs_writeBuf := drop (nat n) (drop (nat ?off) W), bcs_writeOffset := ?off + n\<rparr>\<rparr>"
    have n: "0 < n" "?off + n \<le> int (length W)" "n \<le> m" using False by (auto simp: n_def)
    note c = cut_frame [OF p(2) n(1,2)]
    have "nat n \<le> length (drop (nat ?off) W)" using n p(2) by auto
    then have sl: "slice PackPanic (bcs_writeBuf ?b) 0 (nat n) = Inr (take (nat n) (drop (nat ?off) W))"
      "slice PackPanic (bcs_writeBuf ?b) (nat n) (length (bcs_writeBuf ?b)) = Inr (drop (nat n) (drop (nat ?off) W))"
      using p(4) by (simp_all add: slice_def)
    have "initial_PopCryptoFrame s maxLen = Inr (Some ?f, ?s)"
      unfolding initial_PopCryptoFrame_def base_PopCryptoFrame_def Let_def m(1) rbind_Inr mn sl using p(1) False by simp
    moreover have "fits ?f maxLen" using m(3) [rule_format, of ?f] c(4,5) n(3) by fastforce
    moreover have "plain W (sent \<union> cf_span ?f) ?s"
      using p n c(3) by (auto simp: plain_def Let_def nat_add_distrib add.commute)
    moreover have "left_to_send W ?s < left_to_send W s" "stuck ?s = stuck s"
      using p(1) n by (simp_all add: left_to_send_def stuck_def)
    ultimately show ?thesis using c(2) by (intro exI [of _ "(Some ?f, ?s)"]) (simp add: progress_def)
  qed
qed

text \<open>With scrambling: the part before the next cut, and then the cuts.\<close>

lemma next_cut_cases:
  "next_cut cs off = no_cut \<or> next_cut cs off \<in> set cs \<and> cut_start (next_cut cs off) > off
     \<and> cut_start (next_cut cs off) \<noteq> InvalidByteCount"
  by (induction cs) auto

lemma pop_scrambled_rest:
  assumes "scrambled W sent s" "length W < 2 ^ 61" "0 \<le> maxLen" "maxLen \<le> 16384"
    "bcs_writeOffset (ics_base s) \<noteq> ics_end s"
  shows "\<exists>r. initial_PopCryptoFrame s maxLen = Inr r \<and> progress W sent s maxLen r"
proof -
  let ?b = "ics_base s" and ?off = "bcs_writeOffset (ics_base s)" and ?N = "int (length W)"
  let ?c = "next_cut (ics_cuts s) ?off"
  have p: "ics_scramble s \<and> ics_clientHelloComplete s" "0 \<le> ?off" "?off < ?N" "bcs_writeBuf ?b = W" "ics_end s = ?N"
    "\<forall>c\<in>set (ics_cuts s). cut_ok (length W) c" "\<exists>c\<in>set (ics_cuts s). cut_start c \<noteq> InvalidByteCount"
    "{0..<?off} \<subseteq> sent \<union> (\<Union>c\<in>set (ics_cuts s). cut_span c)"
    using assms(1,5) by (auto simp: scrambled_def Let_def)
  define stop where "stop = (if cut_start ?c = InvalidByteCount then ics_end s else cut_start ?c)"
  have stop: "?off < stop" "stop \<le> ?N" "cut_start ?c \<noteq> InvalidByteCount \<Longrightarrow> ?c \<in> set (ics_cuts s) \<and> stop \<le> cut_end ?c \<and> cut_end ?c \<le> ?N"
    using next_cut_cases [of "ics_cuts s" ?off] p(3,5,6) by (auto simp: stop_def cut_ok_def)
  obtain m where m: "MaxDataLen \<lparr>cf_Offset = ?off, cf_Data = []\<rparr> maxLen = Inr m" "11 \<le> maxLen \<longrightarrow> 0 < m"
    "\<forall>f. cf_Offset f = ?off \<and> cf_Data f \<noteq> [] \<and> int (length (cf_Data f)) \<le> m \<longrightarrow> fits f maxLen"
    by (rule room [OF p(2) _ assms(3,4)]) (use p(3) assms(2) in auto)
  define n where "n = min m (stop - ?off)"
  show ?thesis
  proof (cases "n \<le> 0")
    case True
    then have "initial_PopCryptoFrame s maxLen = Inr (None, s)"
      unfolding initial_PopCryptoFrame_def Let_def m(1) rbind_Inr stop_def [symmetric] n_def [symmetric]
      using p(1) assms(5) by simp
    moreover have "maxLen < 11" using True m(2) stop(1) by (auto simp: n_def)
    ultimately show ?thesis by (simp add: progress_def)
  next
    case False
    define off' where "off' = (if ?off + n = cut_start ?c then cut_end ?c else ?off + n)"
    let ?f = "\<lparr>cf_Offset = ?off, cf_Data = take (nat n) (drop (nat ?off) W)\<rparr>"
    let ?s = "s\<lparr>ics_base := ?b\<lparr>bcs_writeOffset := off'\<rparr>\<rparr>"
    have n: "0 < n" "?off + n \<le> ?N" "n \<le> m" "?off + n \<le> stop" using False stop by (auto simp: n_def)
    note c = cut_frame [OF p(2) n(1,2)]
    have sl: "slice PackPanic (bcs_writeBuf ?b) (nat ?off) (nat (?off + n)) = Inr (cf_Data ?f)" using c(1) p(4) by simp
    have "initial_PopCryptoFrame s maxLen = Inr (Some ?f, ?s)"
      unfolding initial_PopCryptoFrame_def Let_def m(1) rbind_Inr stop_def [symmetric] n_def [symmetric] sl
        off'_def [symmetric] using p(1) assms(5) False by simp
    moreover have "fits ?f maxLen" using m(3) [rule_format, of ?f] c(4,5) n(3) by fastforce
    moreover have off': "?off < off'" "off' \<le> ?N" "{0..<off'} \<subseteq> {0..<?off} \<union> {?off..<?off + n} \<union> (\<Union>c\<in>set (ics_cuts s). cut_span c)"
    proof -
      show "?off < off'" "off' \<le> ?N" using n stop p(2) by (auto simp: off'_def stop_def split: if_splits)
      show "{0..<off'} \<subseteq> {0..<?off} \<union> {?off..<?off + n} \<union> (\<Union>c\<in>set (ics_cuts s). cut_span c)"
      proof (cases "?off + n = cut_start ?c")
        case True
        then have "?c \<in> set (ics_cuts s)" "cut_span ?c = {?off + n..<off'}"
          using stop(3) p(2) n(1) by (auto simp: cut_span_def off'_def)
        then show ?thesis by fastforce
      qed (auto simp: off'_def)
    qed
    moreover have "scrambled W (sent \<union> cf_span ?f) ?s"
      using p off' c(3) by (auto simp: scrambled_def Let_def)
    moreover have "left_to_send W ?s < left_to_send W s" "stuck ?s = stuck s"
      using p(1) off' by (simp_all add: left_to_send_def stuck_def)
    ultimately show ?thesis using c(2) by (intro exI [of _ "(Some ?f, ?s)"]) (simp add: progress_def)
  qed
qed

lemma pop_cuts_found:
  "pop_cuts maxLen buf cs found (Some f) seen =
     Inr (Some (found \<or> (\<exists>c\<in>set cs. cut_start c \<noteq> InvalidByteCount), Some f, seen @ cs))"
  by (induction cs arbitrary: seen) auto

definition shrink :: "clientHelloCut \<Rightarrow> int \<Rightarrow> clientHelloCut" where
  "shrink c n = (if cut_start c + n = cut_end c then no_cut else c\<lparr>cut_start := cut_start c + n\<rparr>)"

lemma pop_cuts_first:
  assumes "0 \<le> cut_start c" "\<forall>c\<in>set pre. cut_start c = InvalidByteCount"
    "MaxDataLen \<lparr>cf_Offset = cut_start c, cf_Data = []\<rparr> maxLen = Inr m" "n = min m (cut_end c - cut_start c)"
    "0 < n \<Longrightarrow> slice PackPanic buf (nat (cut_start c)) (nat (cut_start c + n)) = Inr data"
  shows "pop_cuts maxLen buf (pre @ c # post) found None seen =
    (if n \<le> 0 then Inr None
     else Inr (Some (\<exists>c\<in>set (shrink c n # post). cut_start c \<noteq> InvalidByteCount,
            Some \<lparr>cf_Offset = cut_start c, cf_Data = data\<rparr>, seen @ pre @ shrink c n # post)))"
  using assms(2)
proof (induction pre arbitrary: seen)
  case Nil
  then show ?case using assms(1,3,5) unfolding assms(4) [symmetric]
    by (auto simp: pop_cuts_found shrink_def Let_def simp flip: assms(4))
qed simp

lemma shrink_spec:
  assumes "0 \<le> cut_start c" "0 < n" "cut_start c + n \<le> cut_end c" "cut_end c \<le> int N"
  shows "cut_ok N (shrink c n)" "cut_span c = {cut_start c..<cut_start c + n} \<union> cut_span (shrink c n)"
    "cut_len (shrink c n) < cut_len c"
  using assms by (auto simp: shrink_def cut_ok_def cut_span_def cut_len_def)

lemma pop_scrambled_cuts:
  assumes "scrambled W sent s" "length W < 2 ^ 61" "0 \<le> maxLen" "maxLen \<le> 16384"
    "bcs_writeOffset (ics_base s) = ics_end s"
  shows "\<exists>r. initial_PopCryptoFrame s maxLen = Inr r \<and> progress W sent s maxLen r"
proof -
  let ?b = "ics_base s" and ?N = "int (length W)" and ?valid = "\<lambda>c. cut_start c \<noteq> InvalidByteCount"
  have p: "ics_scramble s \<and> ics_clientHelloComplete s" "bcs_writeOffset ?b = ?N" "bcs_writeBuf ?b = W" "ics_end s = ?N"
    "\<forall>c\<in>set (ics_cuts s). cut_ok (length W) c" "\<exists>c\<in>set (ics_cuts s). ?valid c"
    "{0..<?N} \<subseteq> sent \<union> (\<Union>c\<in>set (ics_cuts s). cut_span c)"
    using assms(1,5) by (auto simp: scrambled_def Let_def)
  obtain pre c post where cs: "ics_cuts s = pre @ c # post" "\<forall>c\<in>set pre. cut_start c = InvalidByteCount" "?valid c"
    using split_list_first_prop [of "ics_cuts s" ?valid] p(6) by blast
  have c: "0 \<le> cut_start c" "cut_start c \<le> cut_end c" "cut_end c \<le> ?N" using p(5) cs by (auto simp: cut_ok_def)
  obtain m where m: "MaxDataLen \<lparr>cf_Offset = cut_start c, cf_Data = []\<rparr> maxLen = Inr m" "11 \<le> maxLen \<longrightarrow> 0 < m"
    "\<forall>f. cf_Offset f = cut_start c \<and> cf_Data f \<noteq> [] \<and> int (length (cf_Data f)) \<le> m \<longrightarrow> fits f maxLen"
    by (rule room [OF c(1) _ assms(3,4)]) (use c assms(2) in auto)
  define n where "n = min m (cut_end c - cut_start c)"
  let ?f = "\<lparr>cf_Offset = cut_start c, cf_Data = take (nat n) (drop (nat (cut_start c)) W)\<rparr>"
  have n: "n \<le> m" "cut_start c + n \<le> cut_end c" "cut_start c + n \<le> ?N" using c by (auto simp: n_def)
  note f = cut_frame [OF c(1) _ n(3)]
  note pop = pop_cuts_first [OF c(1) cs(2) m(1) n_def f(1), of post False "[]", folded cs(1), simplified]
  show ?thesis
  proof (cases "n \<le> 0")
    case True
    then have "initial_PopCryptoFrame s maxLen = Inr (None, s)"
      using pop p by (simp add: initial_PopCryptoFrame_def)
    moreover have "11 \<le> maxLen \<longrightarrow> stuck s" using True m(2) c cs(1,3) p(1) by (auto simp: n_def stuck_def)
    ultimately show ?thesis by (simp add: progress_def)
  next
    case False
    then have n0: "0 < n" by simp
    define cuts where "cuts = pre @ shrink c n # post"
    have fits: "fits ?f maxLen" using m(3) [rule_format, of ?f] f(4,5) [OF n0] n(1) by fastforce
    note sh = shrink_spec [OF c(1) n0 n(2) c(3)]
    have less: "sum_list (map cut_len cuts) < sum_list (map cut_len (ics_cuts s))" using sh(3) by (simp add: cuts_def cs(1))
    have ok: "\<forall>c\<in>set cuts. cut_ok (length W) c" using sh(1) p(5) by (auto simp: cuts_def cs(1))
    have cover: "{0..<?N} \<subseteq> (sent \<union> cf_span ?f) \<union> (\<Union>c\<in>set cuts. cut_span c)"
      using p(7) unfolding cs(1) cuts_def by (auto simp: f(3) [OF n0] sh(2))
    have stuck: "(\<exists>c\<in>set cuts. ?valid c \<and> cut_start c = cut_end c) \<longleftrightarrow> (\<exists>c\<in>set (ics_cuts s). ?valid c \<and> cut_start c = cut_end c)"
      using c(1) n(2) n0 unfolding cuts_def cs(1) by (auto simp: shrink_def)
    show ?thesis
    proof (cases "\<exists>c\<in>set cuts. ?valid c")
      case True
      let ?s = "s\<lparr>ics_cuts := cuts\<rparr>"
      have "initial_PopCryptoFrame s maxLen = Inr (Some ?f, ?s)"
        using pop p False True cs(2) by (auto simp: initial_PopCryptoFrame_def cuts_def Let_def)
      moreover have "scrambled W (sent \<union> cf_span ?f) ?s" using True p(1-4) ok cover by (simp add: scrambled_def)
      moreover have "left_to_send W ?s < left_to_send W s" "stuck ?s = stuck s"
        using less p(1) stuck by (simp_all add: left_to_send_def stuck_def)
      ultimately show ?thesis using f(2) [OF n0] fits by (intro exI [of _ "(Some ?f, ?s)"]) (simp add: progress_def)
    next
      case none: False
      let ?s = "s\<lparr>ics_cuts := cuts, ics_base := ?b\<lparr>bcs_writeBuf := []\<rparr>, ics_end := InvalidByteCount, ics_scramble := False\<rparr>"
      have "initial_PopCryptoFrame s maxLen = Inr (Some ?f, ?s)"
        using pop p False none by (auto simp: initial_PopCryptoFrame_def cuts_def slice_def)
      moreover have "(\<Union>c\<in>set cuts. cut_span c) = {}" using none by (auto simp: cut_span_def)
      then have "plain W (sent \<union> cf_span ?f) ?s" using p(2) cover by (simp add: plain_def)
      moreover have "left_to_send W ?s < left_to_send W s" "stuck ?s = stuck s"
        using less p(1,2) stuck none by (auto simp: left_to_send_def stuck_def)
      ultimately show ?thesis using f(2) [OF n0] fits by (intro exI [of _ "(Some ?f, ?s)"]) (simp add: progress_def)
    qed
  qed
qed

abbreviation sending :: "bytes \<Rightarrow> int set \<Rightarrow> initialCryptoStream \<Rightarrow> bool" where
  "sending W sent s \<equiv> plain W sent s \<or> scrambled W sent s"

lemma pop_spec:
  assumes "sending W sent s" "length W < 2 ^ 61" "0 \<le> maxLen" "maxLen \<le> 16384"
  obtains r where "initial_PopCryptoFrame s maxLen = Inr r" "progress W sent s maxLen r"
  using pop_plain pop_scrambled_rest pop_scrambled_cuts assms by metis

text \<open>Asking for a sequence of frames.\<close>

fun pop_frames :: "initialCryptoStream \<Rightarrow> ByteCount list \<Rightarrow> pack_error + (CryptoFrame option list \<times> initialCryptoStream)" where
  "pop_frames s [] = Inr ([], s)"
| "pop_frames s (maxLen # maxLens) =
     rbind (initial_PopCryptoFrame s maxLen) (\<lambda>(f, s). rbind (pop_frames s maxLens) (\<lambda>(fs, s). Inr (f # fs, s)))"

definition frames :: "CryptoFrame option list \<Rightarrow> CryptoFrame set" where
  "frames fs = {f. Some f \<in> set fs}"

lemma frames_Cons [simp]: "frames [] = {}" "frames (None # fs) = frames fs" "frames (Some f # fs) = insert f (frames fs)"
  by (auto simp: frames_def)

lemma pop_frames_spec:
  assumes "sending W sent s" "length W < 2 ^ 61" "\<forall>m\<in>set maxLens. 0 \<le> m \<and> m \<le> 16384"
  shows "\<exists>fs s'. pop_frames s maxLens = Inr (fs, s') \<and> sending W (sent \<union> (\<Union>f\<in>frames fs. cf_span f)) s'
    \<and> list_all2 (\<lambda>f m. \<forall>g. f = Some g \<longrightarrow> frame_of W g \<and> fits g m) fs maxLens \<and> stuck s' = stuck s
    \<and> length (filter (\<lambda>f. f \<noteq> None) fs) + left_to_send W s' \<le> left_to_send W s
    \<and> ((\<forall>m\<in>set maxLens. 11 \<le> m) \<and> \<not> stuck s \<and> left_to_send W s \<le> length maxLens \<longrightarrow> left_to_send W s' = 0)"
  using assms(1,3)
proof (induction maxLens arbitrary: s sent)
  case (Cons m ms)
  obtain fo t where r: "initial_PopCryptoFrame s m = Inr (fo, t)" "progress W sent s m (fo, t)"
    using pop_spec [OF Cons.prems(1) assms(2), of m] Cons.prems(2) by (metis list.set_intros(1) surj_pair)
  define sent' where "sent' = (case fo of None \<Rightarrow> sent | Some f \<Rightarrow> sent \<union> cf_span f)"
  have t: "sending W sent' t" "stuck t = stuck s" "left_to_send W t + (if fo = None then 0 else 1) \<le> left_to_send W s"
    "\<forall>g. fo = Some g \<longrightarrow> frame_of W g \<and> fits g m" "fo = None \<and> 11 \<le> m \<and> \<not> stuck s \<longrightarrow> left_to_send W s = 0"
    using r(2) Cons.prems(1) by (auto simp: progress_def sent'_def split: option.splits)
  obtain fs s' where ih: "pop_frames t ms = Inr (fs, s')" "sending W (sent' \<union> (\<Union>f\<in>frames fs. cf_span f)) s'"
    "list_all2 (\<lambda>f m. \<forall>g. f = Some g \<longrightarrow> frame_of W g \<and> fits g m) fs ms" "stuck s' = stuck t"
    "length (filter (\<lambda>f. f \<noteq> None) fs) + left_to_send W s' \<le> left_to_send W t"
    "(\<forall>m\<in>set ms. 11 \<le> m) \<and> \<not> stuck t \<and> left_to_send W t \<le> length ms \<longrightarrow> left_to_send W s' = 0"
    using Cons.IH [OF t(1)] Cons.prems(2) by auto
  have "sent' \<union> (\<Union>f\<in>frames fs. cf_span f) = sent \<union> (\<Union>f\<in>frames (fo # fs). cf_span f)"
    by (cases fo) (auto simp: sent'_def)
  moreover have "(\<forall>m\<in>set (m # ms). 11 \<le> m) \<and> \<not> stuck s \<and> left_to_send W s \<le> length (m # ms) \<longrightarrow> left_to_send W s' = 0"
    using ih(5,6) t(2,3,5) by (cases fo) auto
  moreover have "length (filter (\<lambda>f. f \<noteq> None) (fo # fs)) + left_to_send W s' \<le> left_to_send W s"
    using ih(5) t(3) by (cases fo) auto
  ultimately show ?case using r(1) ih(1-4) t(2,4) by (intro exI [of _ "fo # fs"] exI [of _ s']) auto
qed auto

text \<open>Writing the hello starts the sending.\<close>

lemma sort_cuts_set: "set (sort_cuts a b) = {a, b}" "sum_list (map cut_len (sort_cuts a b)) = cut_len a + cut_len b"
  by (auto simp: sort_cuts_def)

lemma Write_starts:
  assumes "findSNIAndECH W = Inr (p, l, e)"
  obtains s where "initial_Write (newInitialCryptoStream isClient disable env) W = (length W, None, s)" "sending W {} s"
    "left_to_send W s \<le> 3 * length W"
    "stuck s \<longleftrightarrow> ics_scramble (newInitialCryptoStream isClient disable env) \<and> p \<noteq> -1 \<and> l = 0"
proof -
  have f: "4 \<le> length W" "found_in (length W) p l e" using findSNIAndECH_spec [of W] assms by (auto simp: yields_def)
  let ?s = "newInitialCryptoStream isClient disable env" and ?N = "length W"
  let ?c0 = "\<lparr>cut_start = p + int (l div 2), cut_end = p + int l\<rparr>"
  let ?c1 = "if e > 0 then \<lparr>cut_start = e + 1, cut_end = min (e + 1 + 16) (int ?N)\<rparr> else no_cut"
  show ?thesis
  proof (cases "ics_scramble ?s \<and> (p \<noteq> -1 \<or> e \<noteq> -1)")
    case True
    then have client: "isClient" by (auto simp: newInitialCryptoStream_def Let_def split: if_splits)
    let ?t = "?s\<lparr>ics_base := newCryptoStream\<lparr>bcs_writeBuf := W\<rparr>, ics_clientHelloComplete := True, ics_end := int ?N,
      ics_cuts := sort_cuts ?c0 ?c1\<rparr>"
    have w: "initial_Write ?s W = (length W, None, ?t)"
      using assms True client
      by (auto simp: initial_Write_def newInitialCryptoStream_def newCryptoStream_def Let_def split: if_splits)
    have c: "cut_ok ?N ?c0" "cut_ok ?N ?c1" "cut_len ?c0 \<le> ?N" "cut_len ?c1 \<le> ?N"
      using f by (auto simp: cut_ok_def cut_len_def found_in_def)
    have valid: "cut_start ?c0 \<noteq> InvalidByteCount \<or> cut_start ?c1 \<noteq> InvalidByteCount"
      using True f(2) by (auto simp: found_in_def)
    have "scrambled W {} ?t"
      using True c(1,2) valid by (auto simp: scrambled_def sort_cuts_set newCryptoStream_def)
    moreover have "left_to_send W ?t \<le> 3 * ?N" using c(3,4) by (simp add: left_to_send_def sort_cuts_set newCryptoStream_def)
    moreover have "stuck ?t \<longleftrightarrow> ics_scramble ?s \<and> p \<noteq> -1 \<and> l = 0"
      using True f(2) by (auto simp: stuck_def sort_cuts_set found_in_def)
    ultimately show ?thesis using that w by blast
  next
    case False
    let ?t = "?s\<lparr>ics_base := newCryptoStream\<lparr>bcs_writeBuf := W\<rparr>, ics_clientHelloComplete := isClient,
      ics_end := (if isClient then int ?N else 0), ics_scramble := False\<rparr>"
    have w: "initial_Write ?s W = (length W, None, ?t)"
      using assms False by (auto simp: initial_Write_def newInitialCryptoStream_def newCryptoStream_def Let_def)
    have "plain W {} ?t" "left_to_send W ?t \<le> 3 * ?N" "\<not> stuck ?t"
      by (auto simp: plain_def left_to_send_def stuck_def newCryptoStream_def Let_def)
    then show ?thesis using that [OF w] False by blast
  qed
qed

lemma sent_all:
  assumes "sending W sent s" "\<not> stuck s" "left_to_send W s = 0"
  shows "\<not> initial_HasData s \<and> {0..<int (length W)} \<subseteq> sent"
  using assms(1)
proof
  assume "plain W sent s"
  then show ?thesis using assms(3) by (auto simp: plain_def left_to_send_def initial_HasData_def base_HasData_def Let_def)
next
  assume "scrambled W sent s"
  then obtain c where c: "ics_scramble s" "c \<in> set (ics_cuts s)" "cut_start c \<noteq> InvalidByteCount" "cut_start c \<le> cut_end c"
    by (force simp: scrambled_def cut_ok_def Let_def)
  have "cut_len c = 0" using assms(3) c(1,2) by (simp add: left_to_send_def)
  then have "stuck s" using c by (auto simp: stuck_def cut_len_def)
  then show ?thesis using assms(2) by simp
qed

lemma frames_of:
  assumes "list_all2 (\<lambda>f m. \<forall>g. f = Some g \<longrightarrow> frame_of W g \<and> fits g m) fs maxLens"
  shows "\<forall>f\<in>frames fs. frame_of W f"
  using assms by (induction rule: list_all2_induct) (auto simp: frames_def)

end
