(* ===== verification/Quic_Crypto_Spec.thy ===== *)
theory Quic_Crypto_Spec
  imports Quic_Crypto_Send
begin

text \<open>
  The two ends of a CRYPTO stream together (\<open>quic/crypto_stream.go\<close>, \<open>quic/frame_sorter.go\<close>): what the client cuts into
  frames, the peer's stream puts together, in whatever order and however often the frames arrive. The loops of the
  connection over the frames of its packets and over the data to read are the recursive functions here.
\<close>

section \<open>Receiving\<close>

fun handle_all :: "baseCryptoStream \<Rightarrow> CryptoFrame list \<Rightarrow> sorter_panic + (crypto_error option \<times> baseCryptoStream)" where
  "handle_all s [] = Inr (None, s)"
| "handle_all s (f # fs) = rbind (HandleCryptoFrame s f) (\<lambda>(e, s).
     case e of None \<Rightarrow> handle_all s fs | Some e \<Rightarrow> Inr (Some e, s))"

text \<open>Reading until there is no more data. Each turn reads at least one byte, so that one turn more than there are bytes
  is enough.\<close>

fun read_all :: "nat \<Rightarrow> baseCryptoStream \<Rightarrow> sorter_panic + (bytes \<times> baseCryptoStream) option" where
  "read_all 0 s = Inr None"
| "read_all (Suc fuel) s = rbind (GetCryptoData s) (\<lambda>(d, s).
     case d of None \<Rightarrow> Inr (Some ([], s))
     | Some d \<Rightarrow> rbind (read_all fuel s) (\<lambda>r. Inr (map_option (\<lambda>(out, s). (d @ out, s)) r)))"

abbreviation stream_of :: "bytes \<Rightarrow> int \<Rightarrow> byte" where
  "stream_of W \<equiv> \<lambda>i. W ! nat i"

lemma frame_matches:
  assumes "frame_of W f"
  shows "matches (stream_of W) (cf_Offset f) (cf_Data f)"
  unfolding matches_def
proof (intro allI impI)
  fix i assume i: "i < length (cf_Data f)"
  have f: "0 \<le> cf_Offset f" "cf_Offset f + int (length (cf_Data f)) \<le> int (length W)"
    "cf_Data f = take (length (cf_Data f)) (drop (nat (cf_Offset f)) W)" using assms by (auto simp: frame_of_def)
  have "cf_Data f ! i = drop (nat (cf_Offset f)) W ! i" using f(3) i by (metis nth_take)
  then show "cf_Data f ! i = W ! nat (cf_Offset f + int i)" using f(1,2) i by (simp add: nat_add_distrib)
qed

text \<open>Frames of a short hello are accepted: at most as many gaps arise as there are different frames, and one more.\<close>

lemma handle_all_spec:
  assumes "length W \<le> 16384" "finite F" "card F < MaxStreamFrameSorterGaps" "\<forall>f\<in>F. frame_of W f"
    and "set fs \<subseteq> F" "D \<subseteq> F" "sorter_inv (stream_of W) (\<Union>f\<in>D. cf_span f) (bcs_queue s)" "\<not> bcs_finished s"
  shows "\<exists>s'. handle_all s fs = Inr (None, s') \<and> \<not> bcs_finished s'
    \<and> sorter_inv (stream_of W) (\<Union>f\<in>D \<union> set fs. cf_span f) (bcs_queue s')
    \<and> fs_readPos (bcs_queue s') = fs_readPos (bcs_queue s)"
  using assms(5-8)
proof (induction fs arbitrary: s D)
  case (Cons f fs)
  let ?R = "\<Union>f\<in>D. cf_span f" and ?D = "insert f D"
  have f: "frame_of W f" using Cons.prems(1) assms(4) by auto
  then have off: "0 \<le> cf_Offset f" "cf_Offset f + int (length (cf_Data f)) \<le> int (length W)" by (auto simp: frame_of_def)
  obtain ok q cbs where p: "Push (bcs_queue s) (cf_Data f) (cf_Offset f) None = Inr (ok, q, cbs)"
    and ok: "ok \<Longrightarrow> sorter_inv (stream_of W) (\<Union>f\<in>?D. cf_span f) q \<and> fs_readPos q = fs_readPos (bcs_queue s)"
    and no: "\<not> ok \<Longrightarrow> length (fs_gaps q) > MaxStreamFrameSorterGaps \<and> gaps_ok (fs_gaps q)
      \<and> (\<Union>f\<in>?D. cf_span f) = {0..<MaxByteCount} - gap_set (fs_gaps q)"
  proof -
    have "cf_Offset f + int (length (cf_Data f)) < MaxByteCount" using off(2) assms(1) by simp
    moreover have "(\<Union>f\<in>?D. cf_span f) = ?R \<union> {cf_Offset f..<cf_Offset f + int (length (cf_Data f))}"
      by (auto simp: cf_span_def)
    ultimately show ?thesis
      using Push_spec [OF Cons.prems(3) frame_matches [OF f] off(1), of None] that by metis
  qed
  have "ok"
  proof (rule ccontr)
    assume n: "\<not> ok"
    have "length (fs_gaps q) \<le> card ?D + 1"
      by (rule gaps_count [where f = cf_Offset and g = "\<lambda>f. cf_Offset f + int (length (cf_Data f))"])
        (use no [OF n] Cons.prems(1,2) assms(2) in \<open>auto simp: cf_span_def intro: finite_subset\<close>)
    moreover have "card ?D \<le> card F" using Cons.prems(1,2) assms(2) by (intro card_mono) auto
    ultimately show False using no [OF n] assms(3) by linarith
  qed
  let ?s = "s\<lparr>bcs_highestOffset := max (bcs_highestOffset s) (cf_Offset f + int (length (cf_Data f))), bcs_queue := q\<rparr>"
  have h: "HandleCryptoFrame s f = Inr (None, ?s)"
    using p \<open>ok\<close> Cons.prems(4) off(2) assms(1) by (simp add: HandleCryptoFrame_def Let_def)
  have "\<exists>s'. handle_all ?s fs = Inr (None, s') \<and> \<not> bcs_finished s'
    \<and> sorter_inv (stream_of W) (\<Union>f\<in>?D \<union> set fs. cf_span f) (bcs_queue s') \<and> fs_readPos (bcs_queue s') = fs_readPos (bcs_queue ?s)"
    using Cons.IH [of ?D ?s] Cons.prems ok [OF \<open>ok\<close>] by simp
  moreover have "?D \<union> set fs = D \<union> set (f # fs)" by simp
  ultimately show ?case using h ok [OF \<open>ok\<close>] by auto
qed auto

lemma read_all_spec:
  assumes "sorter_inv (stream_of W) {0..<int (length W)} (bcs_queue s)" "length W < fuel + nat (fs_readPos (bcs_queue s))"
    "fs_readPos (bcs_queue s) \<le> int (length W)"
  shows "\<exists>s'. read_all fuel s = Inr (Some (drop (nat (fs_readPos (bcs_queue s))) W, s')) \<and> \<not> HasMoreData (bcs_queue s')
    \<and> bcs_finished s' = bcs_finished s"
  using assms
proof (induction fuel arbitrary: s)
  case (Suc fuel)
  let ?q = "bcs_queue s" and ?k = "fs_readPos (bcs_queue s)"
  have k: "0 \<le> ?k" "queue_ok (stream_of W) (fs_queue ?q)" "queued (fs_queue ?q) = {0..<int (length W)} \<inter> {?k..}"
    using Suc.prems(1) by (auto simp: sorter_inv_def)
  show ?case
  proof (cases "?k < int (length W)")
    case True
    then obtain d cb q' where p: "Pop ?q = Inr (?k, Some d, cb, q')" "d \<noteq> []" "matches (stream_of W) ?k d"
      "sorter_inv (stream_of W) {0..<int (length W)} q'" "fs_readPos q' = ?k + int (length d)"
      using Pop_spec [OF Suc.prems(1)] k(1) by auto
    have le: "?k + int (length d) \<le> int (length W)"
    proof -
      have "{0..<?k + int (length d)} \<subseteq> {0..<int (length W)}" using p(4,5) unfolding sorter_inv_def by auto
      then show ?thesis using p(2) k(1) by (auto simp: atLeastLessThan_subset_iff)
    qed
    have d: "d = take (length d) (drop (nat ?k) W)"
      using p(3) le k(1) by (intro nth_equalityI) (auto simp: matches_def nat_add_distrib)
    have fuel: "length W < fuel + nat (?k + int (length d))"
    proof -
      have "0 < length d" using p(2) by simp
      then show ?thesis using Suc.prems(2) k(1) by linarith
    qed
    obtain s' where ih: "read_all fuel (s\<lparr>bcs_queue := q'\<rparr>) = Inr (Some (drop (nat (?k + int (length d))) W, s'))"
      "\<not> HasMoreData (bcs_queue s')" "bcs_finished s' = bcs_finished s"
      using Suc.IH [of "s\<lparr>bcs_queue := q'\<rparr>"] p(4,5) le fuel by auto
    have "d @ drop (nat (?k + int (length d))) W = drop (nat ?k) W"
      using d k(1) by (metis append_take_drop_id drop_drop add.commute nat_add_distrib nat_int of_nat_0_le_iff)
    then show ?thesis using p(1) ih by (auto simp: GetCryptoData_def)
  next
    case False
    then have "queued (fs_queue ?q) = {}" using k(3) by auto
    then have "fs_queue ?q = []"
    proof (cases "fs_queue ?q")
      case (Cons e es)
      then have "map_of (fs_queue ?q) (fst e) = Some (snd e)" by (cases e) simp
      then show ?thesis using key_queued [OF k(2)] \<open>queued (fs_queue ?q) = {}\<close> by blast
    qed simp
    moreover have "Pop ?q = Inr (?k, None, None, ?q)" using Pop_spec [OF Suc.prems(1)] False by simp
    ultimately show ?thesis using False by (auto simp: GetCryptoData_def HasMoreData_def)
  qed
qed simp

section \<open>Both ends\<close>

lemma frames_image: "frames fs = the ` set (filter (\<lambda>f. f \<noteq> None) fs)"
  by (force simp: frames_def)

lemma finite_frames: "finite (frames fs)"
  by (simp add: frames_image)

lemma card_frames: "card (frames fs) \<le> length fs"
  unfolding frames_image by (metis card_image_le card_length le_trans length_filter_le List.finite_set)

lemma hello_frames:
  assumes "findSNIAndECH W = Inr (sniPos, sniLen, echPos)" "sniPos = -1 \<or> 0 < sniLen" "length W < 2 ^ 61"
    and "\<forall>m\<in>set maxLens. 11 \<le> m \<and> m \<le> 16384" "3 * length W \<le> length maxLens"
  shows "\<exists>s fs s'. initial_Write (newInitialCryptoStream isClient disable env) W = (length W, None, s)
    \<and> pop_frames s maxLens = Inr (fs, s') \<and> \<not> initial_HasData s'
    \<and> list_all2 (\<lambda>f m. \<forall>g. f = Some g \<longrightarrow> frame_of W g \<and> fits g m) fs maxLens
    \<and> (\<Union>f\<in>frames fs. cf_span f) = {0..<int (length W)}"
proof -
  obtain s where s: "initial_Write (newInitialCryptoStream isClient disable env) W = (length W, None, s)" "sending W {} s"
    "left_to_send W s \<le> 3 * length W" "\<not> stuck s"
    using Write_starts [OF assms(1)] assms(2) by (metis less_irrefl)
  obtain fs s' where p: "pop_frames s maxLens = Inr (fs, s')" "sending W ({} \<union> (\<Union>f\<in>frames fs. cf_span f)) s'"
    "list_all2 (\<lambda>f m. \<forall>g. f = Some g \<longrightarrow> frame_of W g \<and> fits g m) fs maxLens" "\<not> stuck s'" "left_to_send W s' = 0"
    using pop_frames_spec [OF s(2) assms(3), of maxLens] s(3,4) assms(4,5) by force
  have "\<not> initial_HasData s' \<and> {0..<int (length W)} \<subseteq> (\<Union>f\<in>frames fs. cf_span f)"
    using sent_all [OF p(2,4,5)] by simp
  moreover have "(\<Union>f\<in>frames fs. cf_span f) \<subseteq> {0..<int (length W)}"
    using frames_of [OF p(3)] by (auto simp: frame_of_def cf_span_def)
  ultimately show ?thesis using s(1) p(1,3) by blast
qed

text \<open>Two hellos for the witnesses: the name of the server is \<open>ab\<close>, or it is empty.\<close>

definition sample_hello :: bytes where
  "sample_hello = [1, 0, 0, 54, 3, 3, 7, 7, 7, 7, 7, 7, 7, 7, 7, 7, 7, 7, 7, 7, 7, 7, 7, 7, 7, 7, 7, 7, 7, 7, 7, 7, 7, 7, 7, 7, 7, 7,
     0, 0, 2, 0x13, 1, 1, 0, 0, 11, 0, 0, 0, 7, 0, 5, 0, 0, 2, 97, 98]"

definition nameless_hello :: bytes where
  "nameless_hello = [1, 0, 0, 52, 3, 3, 7, 7, 7, 7, 7, 7, 7, 7, 7, 7, 7, 7, 7, 7, 7, 7, 7, 7, 7, 7, 7, 7, 7, 7, 7, 7, 7, 7, 7, 7, 7, 7,
     0, 0, 2, 0x13, 1, 1, 0, 0, 9, 0, 0, 0, 5, 0, 3, 0, 0, 0]"

lemma sample_hello_parses: "findSNIAndECH sample_hello = Inr (56, 2, -1)" "length sample_hello = 58"
  by (simp_all add: sample_hello_def findSNIAndECH_def be_Uint16_def require_def slice_def sni_extensions.simps sni_names.simps
      parse_sni_def)

lemma nameless_hello_parses: "findSNIAndECH nameless_hello = Inr (56, 0, -1)" "length nameless_hello = 56"
  by (simp_all add: nameless_hello_def findSNIAndECH_def be_Uint16_def require_def slice_def sni_extensions.simps sni_names.simps
      parse_sni_def)

section \<open>Properties\<close>

text \<open>C5: A ClientHello is sent completely. Whether or not scrambling is on, once a complete hello whose server name, if
  there is one, is not empty has been written, asking often enough for frames, each time with room for at
  least 11 and at most 16384 bytes, sends all of it: afterwards the stream has no more data, every frame fitted the room and
  carried bytes of the hello at their place, and together the frames cover exactly the hello.\<close>

theorem hello_sent_completely:
  assumes "findSNIAndECH W = Inr (sniPos, sniLen, echPos)" "sniPos = -1 \<or> 0 < sniLen" "length W < 2 ^ 61"
    and "\<forall>m\<in>set maxLens. 11 \<le> m \<and> m \<le> 16384" "3 * length W \<le> length maxLens"
  shows "\<exists>s fs s'. initial_Write (newInitialCryptoStream isClient disable env) W = (length W, None, s)
    \<and> pop_frames s maxLens = Inr (fs, s') \<and> \<not> initial_HasData s'
    \<and> list_all2 (\<lambda>f m. \<forall>g. f = Some g \<longrightarrow> frame_of W g \<and> fits g m) fs maxLens
    \<and> (\<Union>f\<in>frames fs. cf_span f) = {0..<int (length W)}"
  by (rule hello_frames [OF assms])

theorem hello_sent_completely_witness:
  "\<exists>s fs s'. initial_Write (newInitialCryptoStream True False None) sample_hello = (58, None, s)
    \<and> pop_frames s (replicate 174 30) = Inr (fs, s') \<and> \<not> initial_HasData s' \<and> (\<Union>f\<in>frames fs. cf_span f) = {0..<58}"
  using hello_sent_completely [of sample_hello 56 2 "-1" "replicate 174 30" True False None]
  unfolding sample_hello_parses by fastforce

text \<open>C4: The hello reaches the peer. Let the frames that a client sends for its complete hello of at most 16384 bytes arrive
  at a new CRYPTO stream in any order, each at least once and any number of times, and let there be fewer
  different frames than the sorter allows gaps. Then no frame is refused, reading returns exactly the hello,
  and the stream can be closed for the next encryption level.\<close>

theorem hello_reaches_peer:
  assumes "findSNIAndECH W = Inr (sniPos, sniLen, echPos)" "sniPos = -1 \<or> 0 < sniLen" "length W \<le> 16384"
    and "\<forall>m\<in>set maxLens. 11 \<le> m \<and> m \<le> 16384" "3 * length W \<le> length maxLens"
    and "initial_Write (newInitialCryptoStream isClient disable env) W = (length W, None, s)"
    and "pop_frames s maxLens = Inr (fs, s')" "set arrived = frames fs" "card (frames fs) < MaxStreamFrameSorterGaps"
  shows "\<exists>t u. handle_all newCryptoStream arrived = Inr (None, t) \<and> read_all (Suc (length W)) t = Inr (Some (W, u))
    \<and> fst (Finish u) = None"
proof -
  have h: "list_all2 (\<lambda>f m. \<forall>g. f = Some g \<longrightarrow> frame_of W g \<and> fits g m) fs maxLens"
    "(\<Union>f\<in>frames fs. cf_span f) = {0..<int (length W)}"
    using hello_frames [OF assms(1,2) _ assms(4,5), of isClient disable env] assms(3,6,7) by auto
  have "sorter_inv (stream_of W) (\<Union>f\<in>{}. cf_span f) (bcs_queue newCryptoStream)"
    using newFrameSorter_inv by (simp add: newCryptoStream_def)
  then obtain t where t: "handle_all newCryptoStream arrived = Inr (None, t)" "\<not> bcs_finished t"
    "sorter_inv (stream_of W) (\<Union>f\<in>{} \<union> frames fs. cf_span f) (bcs_queue t)"
    "fs_readPos (bcs_queue t) = fs_readPos (bcs_queue newCryptoStream)"
    using handle_all_spec [OF assms(3) finite_frames assms(9) frames_of [OF h(1)], of arrived "{}" newCryptoStream] assms(8)
    by (auto simp: newCryptoStream_def)
  have "fs_readPos (bcs_queue t) = 0" using t(4) by (simp add: newCryptoStream_def newFrameSorter_def)
  then show ?thesis
    using read_all_spec [of W t "Suc (length W)"] t(1,3) h(2) by (auto simp: Finish_def)
qed

theorem hello_reaches_peer_witness:
  "\<exists>s fs s' arrived t u. initial_Write (newInitialCryptoStream True False None) sample_hello = (58, None, s)
    \<and> pop_frames s (replicate 174 30) = Inr (fs, s') \<and> set arrived = frames fs
    \<and> handle_all newCryptoStream arrived = Inr (None, t) \<and> read_all 59 t = Inr (Some (sample_hello, u))"
proof -
  let ?m = "replicate 174 30"
  have m: "\<forall>m\<in>set ?m. 11 \<le> m \<and> m \<le> (16384 :: int)" by simp
  obtain s fs s' where p: "initial_Write (newInitialCryptoStream True False None) sample_hello = (58, None, s)"
    "pop_frames s ?m = Inr (fs, s')" "list_all2 (\<lambda>f m. \<forall>g. f = Some g \<longrightarrow> frame_of sample_hello g \<and> fits g m) fs ?m"
    using hello_frames [OF sample_hello_parses(1) _ _ m, of True False None] unfolding sample_hello_parses(2) by auto
  obtain arrived where arrived: "set arrived = frames fs" using finite_list [OF finite_frames] by blast
  have "card (frames fs) \<le> length fs" by (rule card_frames)
  also have "length fs = 174" using list_all2_lengthD [OF p(3)] by simp
  finally have "card (frames fs) < MaxStreamFrameSorterGaps" by simp
  from hello_reaches_peer [OF sample_hello_parses(1) _ _ m _ _ p(2) arrived this, of True False None]
  show ?thesis using p(1,2) arrived unfolding sample_hello_parses(2) by auto
qed

text \<open>C20: An empty server name blocks the stream. For a complete hello with a host name of length zero and scrambling on, the
  cut in the middle of the name is empty, and is neither sent nor dropped: however often and with whatever room
  frames are asked for, the stream goes on claiming that it has data, although it gives out at most
  three frames per byte of the hello.\<close>

theorem empty_name_blocks:
  assumes "findSNIAndECH W = Inr (sniPos, 0, echPos)" "sniPos \<noteq> -1" "length W < 2 ^ 61"
    and "\<forall>m\<in>set maxLens. 0 \<le> m \<and> m \<le> 16384"
  shows "\<exists>s fs s'. initial_Write (newInitialCryptoStream True False None) W = (length W, None, s)
    \<and> pop_frames s maxLens = Inr (fs, s') \<and> initial_HasData s' \<and> length (filter (\<lambda>f. f \<noteq> None) fs) \<le> 3 * length W"
proof -
  have "ics_scramble (newInitialCryptoStream True False None)" by (simp add: newInitialCryptoStream_def)
  then obtain s where s: "initial_Write (newInitialCryptoStream True False None) W = (length W, None, s)" "sending W {} s"
    "left_to_send W s \<le> 3 * length W" "stuck s"
    using Write_starts [OF assms(1)] assms(2) by metis
  obtain fs s' where p: "pop_frames s maxLens = Inr (fs, s')" "sending W ({} \<union> (\<Union>f\<in>frames fs. cf_span f)) s'" "stuck s'"
    "length (filter (\<lambda>f. f \<noteq> None) fs) + left_to_send W s' \<le> left_to_send W s"
    using pop_frames_spec [OF s(2) assms(3,4)] s(4) by auto
  have "4 \<le> length W" using findSNIAndECH_spec [of W] assms(1) by (auto simp: yields_def)
  then have "initial_HasData s'"
    using p(2,3) by (auto simp: stuck_def plain_def scrambled_def initial_HasData_def base_HasData_def Let_def)
  then show ?thesis using s(1,3) p(1,4) by auto
qed

theorem empty_name_blocks_witness:
  "\<exists>s fs s'. initial_Write (newInitialCryptoStream True False None) nameless_hello = (56, None, s)
    \<and> pop_frames s (replicate 1000 1200) = Inr (fs, s') \<and> initial_HasData s' \<and> length (filter (\<lambda>f. f \<noteq> None) fs) \<le> 168"
  using empty_name_blocks [of nameless_hello 56 "-1" "replicate 1000 1200"] unfolding nameless_hello_parses by fastforce

end
