(* ===== verification/Quic_Packet_Number.thy ===== *)
theory Quic_Packet_Number
  imports Quic_Ack_Frame
begin

text \<open>
  Packet numbers (\<open>quic/internal/protocol/packet_number.go\<close>): how many bytes of a packet number are sent, and how the
  receiver completes them. Packet numbers are below \<open>2^62\<close>, so that the sums here do not overflow \<open>int64\<close>.
\<close>

unbundle bit_operations_syntax

abbreviation InvalidPacketNumber :: PacketNumber where "InvalidPacketNumber \<equiv> -1"

definition DecodePacketNumber :: "nat \<Rightarrow> PacketNumber \<Rightarrow> PacketNumber \<Rightarrow> PacketNumber" where
  "DecodePacketNumber len largest truncated =
     (let expected = largest + 1;
          win = push_bit (len * 8) 1;
          hwin = win div 2;
          m = win - 1;
          candidate = (expected AND NOT m) OR truncated in
      if candidate \<le> expected - hwin \<and> candidate < push_bit 62 1 - win then candidate + win
      else if candidate > expected + hwin \<and> candidate \<ge> win then candidate - win
      else candidate)"

definition PacketNumberLengthForHeader :: "PacketNumber \<Rightarrow> PacketNumber \<Rightarrow> nat" where
  "PacketNumberLengthForHeader pn largestAcked =
     (let numUnacked = (if largestAcked = InvalidPacketNumber then pn + 1 else pn - largestAcked) in
      if largestAcked \<noteq> InvalidPacketNumber \<and> numUnacked < push_bit (8 - 1) 1 then 1
      else if numUnacked < push_bit (16 - 1) 1 then 2
      else if numUnacked < push_bit (24 - 1) 1 then 3
      else 4)"

text \<open>The candidate agrees with the expected number above the window and with the truncated one inside it.\<close>

lemma candidate_eq:
  fixes e t :: int
  assumes "0 \<le> t" "t < 2 ^ n"
  shows "(e AND NOT (2 ^ n - 1)) OR t = e - e mod 2 ^ n + t"
proof -
  have "(e AND NOT (2 ^ n - 1)) AND t = 0"
  proof (rule bit_eqI)
    fix k
    have "t = take_bit n t" using assms by (simp add: take_bit_int_eq_self)
    then have "bit t k \<Longrightarrow> k < n" by (metis bit_take_bit_iff)
    then show "bit ((e AND NOT (2 ^ n - 1)) AND t) k \<longleftrightarrow> bit (0 :: int) k"
      by (auto simp: bit_simps simp flip: mask_eq_exp_minus_1)
  qed
  then have or: "(e AND NOT (2 ^ n - 1)) OR t = (e AND NOT (2 ^ n - 1)) + t" by (simp add: disjunctive_add_eq_or)
  have and_not: "e AND NOT (2 ^ n - 1) = e - e mod 2 ^ n"
  proof -
    have "e - take_bit n e = e AND NOT (take_bit n e)"
      by (rule disjunctive_diff_eq_and_not) (rule bit_eqI, auto simp: bit_simps)
    also have "\<dots> = e AND NOT (2 ^ n - 1)"
      by (rule bit_eqI) (auto simp: bit_simps simp flip: mask_eq_exp_minus_1)
    finally show ?thesis by (simp add: take_bit_eq_mod)
  qed
  show ?thesis by (subst or) (simp only: and_not)
qed

text \<open>Completing a truncated packet number: it is found if it lies in the window around the expected one.\<close>

lemma DecodePacketNumber_window:
  assumes "0 < len" "0 \<le> pn" "pn < 2 ^ 62" "-1 \<le> largest"
    "largest + 1 - 2 ^ (len * 8) div 2 < pn" "pn \<le> largest + 1 + 2 ^ (len * 8) div 2"
  shows "DecodePacketNumber len largest (pn mod 2 ^ (len * 8)) = pn"
proof -
  define w :: int where "w = 2 ^ (len * 8)"
  define h where "h = w div 2"
  define e where "e = largest + 1"
  define c where "c = e - e mod w + pn mod w"
  define k where "k = pn div w - e div w"
  have w: "w = 2 * h" "0 < w"
  proof -
    have "w = 2 * 2 ^ (len * 8 - 1)" unfolding w_def using assms(1) by (simp add: power_Suc [symmetric] del: power_Suc)
    then show "w = 2 * h" "0 < w" by (simp_all add: h_def)
  qed
  have bounds: "e - h < pn" "pn \<le> e + h" using assms by (simp_all add: e_def h_def w_def)
  have m: "0 \<le> e mod w" "e mod w < w" "0 \<le> pn mod w" "pn mod w < w" using w(2) by simp_all
  have pn: "pn = c + k * w"
    unfolding c_def k_def minus_mod_eq_mult_div by (simp add: algebra_simps)
  have "(-2) * w < k * w" "k * w < 2 * w" using pn m bounds w unfolding c_def by linarith+
  then have "-2 < k" "k < 2" using w(2) by (metis mult_less_cancel_right_pos)+
  then consider "k = -1" | "k = 0" | "k = 1" by linarith
  then have "(if c \<le> e - h \<and> c < 2 ^ 62 - w then c + w else if c > e + h \<and> c \<ge> w then c - w else c) = pn"
    using pn bounds w assms(2,3) by cases auto
  moreover have "(e AND NOT (w - 1)) OR (pn mod w) = c" unfolding c_def w_def by (rule candidate_eq) simp_all
  ultimately show ?thesis
    unfolding DecodePacketNumber_def Let_def e_def [symmetric] push_bit_of_1 w_def [symmetric] h_def [symmetric]
    by (auto split: if_splits)
qed

text \<open>The sender chooses enough bytes for every receiver that has the largest acknowledged packet, and up to half a window
  of later ones.\<close>

lemma PacketNumberLengthForHeader_window:
  assumes "-1 \<le> largestAcked" "largestAcked < pn" "pn - largestAcked < 2 ^ 31"
  defines "len \<equiv> PacketNumberLengthForHeader pn largestAcked"
  shows "len \<in> {1, 2, 3, 4}" "pn - largestAcked < 2 ^ (len * 8) div 2"
  using assms by (auto simp: PacketNumberLengthForHeader_def Let_def)

lemma packet_number_completed:
  assumes "0 \<le> pn" "pn < 2 ^ 62" "-1 \<le> largestAcked" "largestAcked < pn" "pn - largestAcked < 2 ^ 31"
  defines "len \<equiv> PacketNumberLengthForHeader pn largestAcked"
  assumes "largestAcked \<le> largest" "largest + 1 < pn + 2 ^ (len * 8) div 2"
  shows "DecodePacketNumber len largest (pn mod 2 ^ (len * 8)) = pn"
proof (rule DecodePacketNumber_window)
  show "0 < len" "pn \<le> largest + 1 + 2 ^ (len * 8) div 2"
    using PacketNumberLengthForHeader_window [OF assms(3-5)] assms(7) unfolding len_def by auto
qed (use assms in auto)

end
