(* ===== verification/Quic_Header.thy ===== *)
theory Quic_Header
  imports Quic_Packet_Number
begin

text \<open>
  Packet headers: \<open>quic/internal/wire/header.go\<close> (long headers), \<open>extended_header.go\<close> (the part that is only readable after
  header protection is removed, and writing) and \<open>short_header.go\<close>. A function that returns values together with
  an error keeps both: the header that \<open>parseLongHeader\<close> has filled so far stands beside the error, and the answer about
  the reserved bits is a value, because parsing goes on when they are wrong. Every index and slice expression of these
  functions, and the length check of \<open>protocol.ParseConnectionID\<close>, is a step that can fail with \<open>HdrPanic\<close>.
\<close>

datatype header_error =
    HdrEOF | HdrVarint varint_failure | NotLongHeader | NotShortHeader | NotQUICPacket | InvalidConnectionIDLen
  | UnsupportedVersion | PacketTooShort ByteCount ByteCount | InvalidPNLength nat | ConnIDTooLong nat | HdrPanic panic

datatype PacketType = PacketTypeUnset | PacketTypeInitial | PacketTypeRetry | PacketTypeHandshake | PacketType0RTT
datatype KeyPhaseBit = KeyPhaseUndefined | KeyPhaseZero | KeyPhaseOne

abbreviation Version1 :: "32 word" where "Version1 \<equiv> 0x1"
abbreviation Version2 :: "32 word" where "Version2 \<equiv> 0x6b3343cf"
abbreviation SupportedVersions :: "32 word list" where "SupportedVersions \<equiv> [Version1, Version2]"

record Header =
  hdr_typeByte :: byte
  hdr_Type :: PacketType
  hdr_Version :: "32 word"
  hdr_SrcConnectionID :: ConnectionID
  hdr_DestConnectionID :: ConnectionID
  hdr_Length :: ByteCount
  hdr_Token :: bytes
  hdr_parsedLen :: ByteCount

section \<open>Looking at a datagram\<close>

definition IsPotentialQUICPacket :: "byte \<Rightarrow> bool" where
  "IsPotentialQUICPacket firstByte = (firstByte AND 0x40 > 0)"

definition IsLongHeaderPacket :: "byte \<Rightarrow> bool" where
  "IsLongHeaderPacket firstByte = (firstByte AND 0x80 > 0)"

definition conn_id :: "bytes \<Rightarrow> header_error + ConnectionID" where
  "conn_id b = (case ParseConnectionID b of Inl _ \<Rightarrow> Inl (HdrPanic (LibraryPanic ''invalid conn id length'')) | Inr c \<Rightarrow> Inr c)"

definition wire_ParseConnectionID :: "bytes \<Rightarrow> nat \<Rightarrow> header_error + ConnectionID" where
  "wire_ParseConnectionID data shortHeaderConnIDLen =
     (if length data = 0 then Inl HdrEOF
      else
        rbind (at HdrPanic data 0) (\<lambda>first.
        if \<not> IsLongHeaderPacket first then
          (if length data < shortHeaderConnIDLen + 1 then Inl HdrEOF
           else rbind (slice HdrPanic data 1 (1 + shortHeaderConnIDLen)) conn_id)
        else if length data < 6 then Inl HdrEOF
        else
          rbind (at HdrPanic data 5) (\<lambda>l.
          let destConnIDLen = unat l in
          if destConnIDLen > MaxConnIDLen then Inl InvalidConnectionIDLen
          else if length data < 6 + destConnIDLen then Inl HdrEOF
          else rbind (slice HdrPanic data 6 (6 + destConnIDLen)) conn_id)))"

definition ParseArbitraryLenConnectionIDs :: "bytes \<Rightarrow> header_error + (nat \<times> bytes \<times> bytes)" where
  "ParseArbitraryLenConnectionIDs data =
     (let startLen = length data in
      if length data < 6 then Inl HdrEOF
      else
        rbind (slice HdrPanic data 5 (length data)) (\<lambda>data.
        rbind (at HdrPanic data 0) (\<lambda>d.
        rbind (slice HdrPanic data 1 (length data)) (\<lambda>data.
        let destConnIDLen = unat d in
        if length data < destConnIDLen + 1 then Inl HdrEOF
        else
          let destConnID = take destConnIDLen data in
          rbind (slice HdrPanic data destConnIDLen (length data)) (\<lambda>data.
          rbind (at HdrPanic data 0) (\<lambda>s.
          rbind (slice HdrPanic data 1 (length data)) (\<lambda>data.
          let srcConnIDLen = unat s in
          if length data < srcConnIDLen then Inl HdrEOF
          else Inr (startLen - length data + srcConnIDLen, destConnID, take srcConnIDLen data))))))))"

definition ParseVersion :: "bytes \<Rightarrow> header_error + 32 word" where
  "ParseVersion data =
     (if length data < 5 then Inl HdrEOF else rbind (slice HdrPanic data 1 5) (\<lambda>v. Inr (be_word v)))"

text \<open>\<open>&&\<close> reads its second operand only when the first is true.\<close>

definition and_then :: "header_error + bool \<Rightarrow> header_error + bool \<Rightarrow> header_error + bool" where
  "and_then a b = rbind a (\<lambda>x. if x then b else Inr False)"

definition zero_at :: "bytes \<Rightarrow> nat \<Rightarrow> header_error + bool" where
  "zero_at b i = rbind (at HdrPanic b i) (\<lambda>x. Inr (x = 0))"

definition IsVersionNegotiationPacket :: "bytes \<Rightarrow> header_error + bool" where
  "IsVersionNegotiationPacket b =
     (if length b < 5 then Inr False
      else and_then (rbind (at HdrPanic b 0) (\<lambda>first. Inr (IsLongHeaderPacket first)))
             (and_then (zero_at b 1) (and_then (zero_at b 2) (and_then (zero_at b 3) (zero_at b 4)))))"

definition Is0RTTPacket :: "bytes \<Rightarrow> header_error + bool" where
  "Is0RTTPacket b =
     (if length b < 5 then Inr False
      else
        rbind (at HdrPanic b 0) (\<lambda>first.
        if \<not> IsLongHeaderPacket first then Inr False
        else
          rbind (slice HdrPanic b 1 5) (\<lambda>v.
          let version = be_word v in
          if version = Version1 then Inr (drop_bit 4 first AND 3 = 1)
          else if version = Version2 then Inr (drop_bit 4 first AND 3 = 2)
          else Inr False)))"

section \<open>Packet numbers on the wire\<close>

definition appendPacketNumber :: "bytes \<Rightarrow> PacketNumber \<Rightarrow> nat \<Rightarrow> header_error + bytes" where
  "appendPacketNumber b pn pnLen =
     (if pnLen = 1 then Inr (b @ [word_of_int pn])
      else if pnLen = 2 then Inr (b @ be_bytes 2 (unat (word_of_int pn :: 16 word)))
      else if pnLen = 3 then Inr (b @ drop 1 (be_bytes 4 (unat (word_of_int pn :: 32 word))))
      else if pnLen = 4 then Inr (b @ be_bytes 4 (unat (word_of_int pn :: 32 word)))
      else Inl (InvalidPNLength pnLen))"

definition readPacketNumber :: "bytes \<Rightarrow> nat \<Rightarrow> header_error + PacketNumber" where
  "readPacketNumber data pnLen =
     (if pnLen = 1 then rbind (at HdrPanic data 0) (\<lambda>x. Inr (uint x))
      else if pnLen = 2 then rbind (slice HdrPanic data 0 2) (\<lambda>d. Inr (int (be_nat d)))
      else if pnLen = 3 then
        rbind (at HdrPanic data 2) (\<lambda>x2. rbind (at HdrPanic data 1) (\<lambda>x1. rbind (at HdrPanic data 0) (\<lambda>x0.
        Inr (uint (ucast x2 + push_bit 8 (ucast x1) + push_bit 16 (ucast x0) :: 32 word)))))
      else if pnLen = 4 then rbind (slice HdrPanic data 0 4) (\<lambda>d. Inr (int (be_nat d)))
      else Inl (InvalidPNLength pnLen))"

section \<open>Reading a long header\<close>

definition packet_type :: "32 word \<Rightarrow> byte \<Rightarrow> PacketType \<Rightarrow> PacketType" where
  "packet_type version typeByte type =
     (let t = drop_bit 4 typeByte AND 3 in
      if version = Version2 then
        if t = 0 then PacketTypeRetry else if t = 1 then PacketTypeInitial
        else if t = 2 then PacketType0RTT else if t = 3 then PacketTypeHandshake else type
      else
        if t = 0 then PacketTypeInitial else if t = 1 then PacketType0RTT
        else if t = 2 then PacketTypeHandshake else if t = 3 then PacketTypeRetry else type)"

text \<open>A step of \<open>parseLongHeader\<close> that can panic.\<close>

definition may_panic :: "Header \<Rightarrow> header_error + 'a \<Rightarrow> (header_error \<times> Header \<times> nat) + 'a" where
  "may_panic h m = (case m of Inl e \<Rightarrow> Inl (e, h, 0) | Inr a \<Rightarrow> Inr a)"

text \<open>The end of \<open>parseLongHeader\<close>, once the type is known. \<open>read\<close> is the number of bytes before \<open>b\<close>.\<close>

definition parse_typed :: "Header \<Rightarrow> nat \<Rightarrow> bytes \<Rightarrow> (header_error \<times> Header \<times> nat) + (Header \<times> nat)" where
  "parse_typed h read b =
     (if hdr_Type h = PacketTypeRetry then
        let tokenLen = int (length b) - 16 in
        if tokenLen \<le> 0 then Inl (HdrEOF, h, read)
        else
          rbind (may_panic h (slice HdrPanic b 0 (nat tokenLen))) (\<lambda>token.
          Inr (h\<lparr>hdr_Token := token\<rparr>, read + nat tokenLen + 16))
      else
        rbind (if hdr_Type h = PacketTypeInitial then
                 (case Parse b of
                    Inl e \<Rightarrow> Inl (HdrVarint e, h, read)
                  | Inr (tokenLen, n) \<Rightarrow>
                      rbind (may_panic h (slice HdrPanic b n (length b))) (\<lambda>b.
                      let read = read + n in
                      if unat tokenLen > length b then Inl (HdrEOF, h, read)
                      else
                        rbind (may_panic h (slice HdrPanic b 0 (unat tokenLen))) (\<lambda>token.
                        rbind (may_panic h (slice HdrPanic b (unat tokenLen) (length b))) (\<lambda>b.
                        Inr (h\<lparr>hdr_Token := token\<rparr>, read + unat tokenLen, b)))))
               else Inr (h, read, b)) (\<lambda>(h, read, b).
        case Parse b of
          Inl e \<Rightarrow> Inl (HdrVarint e, h, 0)
        | Inr (pl, n) \<Rightarrow> Inr (h\<lparr>hdr_Length := sint pl\<rparr>, read + n)))"

definition parseLongHeader :: "Header \<Rightarrow> bytes \<Rightarrow> (header_error \<times> Header \<times> nat) + (Header \<times> nat)" where
  "parseLongHeader h b =
     (let startLen = length b in
      if length b < 5 then Inl (HdrEOF, h, 0)
      else
        rbind (may_panic h (slice HdrPanic b 0 4)) (\<lambda>v.
        let h = h\<lparr>hdr_Version := be_word v\<rparr> in
        if hdr_Version h \<noteq> 0 \<and> hdr_typeByte h AND 0x40 = 0 then Inl (NotQUICPacket, h, startLen - length b)
        else
          rbind (may_panic h (at HdrPanic b 4)) (\<lambda>d.
          let destConnIDLen = unat d in
          if destConnIDLen > MaxConnIDLen then Inl (InvalidConnectionIDLen, h, startLen - length b)
          else
            rbind (may_panic h (slice HdrPanic b 5 (length b))) (\<lambda>b.
            if length b < destConnIDLen + 1 then Inl (HdrEOF, h, startLen - length b)
            else
              rbind (may_panic h (rbind (slice HdrPanic b 0 destConnIDLen) conn_id)) (\<lambda>dest.
              let h = h\<lparr>hdr_DestConnectionID := dest\<rparr> in
              rbind (may_panic h (at HdrPanic b destConnIDLen)) (\<lambda>s.
              let srcConnIDLen = unat s in
              if srcConnIDLen > MaxConnIDLen then Inl (InvalidConnectionIDLen, h, startLen - length b)
              else
                rbind (may_panic h (slice HdrPanic b (destConnIDLen + 1) (length b))) (\<lambda>b.
                if length b < srcConnIDLen then Inl (HdrEOF, h, startLen - length b)
                else
                  rbind (may_panic h (rbind (slice HdrPanic b 0 srcConnIDLen) conn_id)) (\<lambda>src.
                  let h = h\<lparr>hdr_SrcConnectionID := src\<rparr> in
                  rbind (may_panic h (slice HdrPanic b srcConnIDLen (length b))) (\<lambda>b.
                  if hdr_Version h = 0 then Inr (h, startLen - length b)
                  else if hdr_Version h \<notin> set SupportedVersions then Inl (UnsupportedVersion, h, startLen - length b)
                  else
                    parse_typed (h\<lparr>hdr_Type := packet_type (hdr_Version h) (hdr_typeByte h) (hdr_Type h)\<rparr>)
                      (startLen - length b) b)))))))))"

text \<open>The header is returned also if there is an error.\<close>

definition parseHeader :: "bytes \<Rightarrow> header_error option \<times> Header option" where
  "parseHeader b =
     (if length b = 0 then (Some HdrEOF, None)
      else case at HdrPanic b 0 of Inl e \<Rightarrow> (Some e, None)
      | Inr typeByte \<Rightarrow>
          let h = \<lparr>hdr_typeByte = typeByte, hdr_Type = PacketTypeUnset, hdr_Version = 0, hdr_SrcConnectionID = [],
                   hdr_DestConnectionID = [], hdr_Length = 0, hdr_Token = [], hdr_parsedLen = 0\<rparr> in
          case slice HdrPanic b 1 (length b) of Inl e \<Rightarrow> (Some e, None)
          | Inr rest \<Rightarrow>
              (case parseLongHeader h rest of
                 Inl (e, h, l) \<Rightarrow> (Some e, Some (h\<lparr>hdr_parsedLen := int l + 1\<rparr>))
               | Inr (h, l) \<Rightarrow> (None, Some (h\<lparr>hdr_parsedLen := int l + 1\<rparr>))))"

datatype parsed_packet =
    Packet Header bytes bytes
  | UnknownVersion Header
  | PacketError header_error

definition ParsePacket :: "bytes \<Rightarrow> parsed_packet" where
  "ParsePacket data =
     (if length data = 0 then PacketError NotLongHeader
      else case at HdrPanic data 0 of Inl e \<Rightarrow> PacketError e
      | Inr first \<Rightarrow>
      if \<not> IsLongHeaderPacket first then PacketError NotLongHeader
      else case parseHeader data of
        (Some UnsupportedVersion, Some hdr) \<Rightarrow> UnknownVersion hdr
      | (Some e, _) \<Rightarrow> PacketError e
      | (None, None) \<Rightarrow> PacketError HdrEOF
      | (None, Some hdr) \<Rightarrow>
          if int (length data) < hdr_parsedLen hdr + hdr_Length hdr then
            PacketError (PacketTooShort (int (length data) - hdr_parsedLen hdr) (hdr_Length hdr))
          else
            (case slice HdrPanic data 0 (nat (hdr_parsedLen hdr + hdr_Length hdr)) of
               Inl e \<Rightarrow> PacketError e
             | Inr d \<Rightarrow>
                 (case slice HdrPanic data (nat (hdr_parsedLen hdr + hdr_Length hdr)) (length data) of
                    Inl e \<Rightarrow> PacketError e
                  | Inr rest \<Rightarrow> Packet hdr d rest)))"

section \<open>The extended header\<close>

record ExtendedHeader =
  eh_Header :: Header
  eh_typeByte :: byte
  eh_KeyPhase :: KeyPhaseBit
  eh_PacketNumberLen :: nat
  eh_PacketNumber :: PacketNumber
  eh_parsedLen :: ByteCount

text \<open>Whether the reserved bits are valid, and the header. An error of \<open>readPacketNumber\<close> is dropped, a panic is not.\<close>

definition ExtendedHeader_parse :: "ExtendedHeader \<Rightarrow> bytes \<Rightarrow> header_error + (bool \<times> ExtendedHeader)" where
  "ExtendedHeader_parse h data =
     rbind (at HdrPanic data 0) (\<lambda>typeByte.
     let pnLen = unat (typeByte AND 0x3) + 1;
         h = h\<lparr>eh_typeByte := typeByte, eh_PacketNumberLen := pnLen\<rparr>;
         parsed = hdr_parsedLen (eh_Header h) in
     if int (length data) < parsed + int pnLen then Inl HdrEOF
     else
       rbind (slice HdrPanic data (nat parsed) (length data)) (\<lambda>d.
       case readPacketNumber d pnLen of
         Inl (HdrPanic p) \<Rightarrow> Inl (HdrPanic p)
       | Inl _ \<Rightarrow> Inr (True, h)
       | Inr pn \<Rightarrow> Inr (typeByte AND 0xc = 0, h\<lparr>eh_PacketNumber := pn, eh_parsedLen := parsed + int pnLen\<rparr>)))"

definition ParseExtended :: "Header \<Rightarrow> bytes \<Rightarrow> header_error + (bool \<times> ExtendedHeader)" where
  "ParseExtended h data =
     ExtendedHeader_parse \<lparr>eh_Header = h, eh_typeByte = 0, eh_KeyPhase = KeyPhaseUndefined, eh_PacketNumberLen = 0,
       eh_PacketNumber = 0, eh_parsedLen = 0\<rparr> data"

definition type_bits :: "32 word \<Rightarrow> PacketType \<Rightarrow> byte" where
  "type_bits v type =
     (if v = Version2 then
        (case type of PacketTypeInitial \<Rightarrow> 1 | PacketType0RTT \<Rightarrow> 2 | PacketTypeHandshake \<Rightarrow> 3 | PacketTypeRetry \<Rightarrow> 0
         | PacketTypeUnset \<Rightarrow> 0)
      else
        (case type of PacketTypeInitial \<Rightarrow> 0 | PacketType0RTT \<Rightarrow> 1 | PacketTypeHandshake \<Rightarrow> 2 | PacketTypeRetry \<Rightarrow> 3
         | PacketTypeUnset \<Rightarrow> 0))"

definition hdr_varint :: "varint_failure + 'a \<Rightarrow> header_error + 'a" where
  "hdr_varint m = (case m of Inl e \<Rightarrow> Inl (HdrVarint e) | Inr a \<Rightarrow> Inr a)"

definition ExtendedHeader_Append :: "ExtendedHeader \<Rightarrow> bytes \<Rightarrow> 32 word \<Rightarrow> header_error + bytes" where
  "ExtendedHeader_Append eh b v =
     (let h = eh_Header eh in
      if length (hdr_DestConnectionID h) > MaxConnIDLen then Inl (ConnIDTooLong (length (hdr_DestConnectionID h)))
      else if length (hdr_SrcConnectionID h) > MaxConnIDLen then Inl (ConnIDTooLong (length (hdr_SrcConnectionID h)))
      else
        let firstByte = 0xc0 OR push_bit 4 (type_bits v (hdr_Type h));
            firstByte = (if hdr_Type h \<noteq> PacketTypeRetry then firstByte OR (word_of_nat (eh_PacketNumberLen eh) - 1)
                         else firstByte);
            b = b @ [firstByte] @ be_bytes 4 (unat (hdr_Version h));
            b = b @ [word_of_nat (length (hdr_DestConnectionID h))] @ hdr_DestConnectionID h;
            b = b @ [word_of_nat (length (hdr_SrcConnectionID h))] @ hdr_SrcConnectionID h in
        if hdr_Type h = PacketTypeRetry then Inr (b @ hdr_Token h)
        else
          rbind (if hdr_Type h = PacketTypeInitial then
                   rbind (hdr_varint (Append b (word_of_nat (length (hdr_Token h))))) (\<lambda>b. Inr (b @ hdr_Token h))
                 else Inr b) (\<lambda>b.
          rbind (hdr_varint (AppendWithLen b (uint64 (hdr_Length h)) 2)) (\<lambda>b.
          appendPacketNumber b (eh_PacketNumber eh) (eh_PacketNumberLen eh))))"

definition ExtendedHeader_GetLength :: "ExtendedHeader \<Rightarrow> header_error + ByteCount" where
  "ExtendedHeader_GetLength eh =
     (let h = eh_Header eh;
          len = 1 + 4 + 1 + length (hdr_DestConnectionID h) + 1 + length (hdr_SrcConnectionID h) + eh_PacketNumberLen eh + 2 in
      if hdr_Type h = PacketTypeInitial then
        rbind (hdr_varint (Len (word_of_nat (length (hdr_Token h))))) (\<lambda>l. Inr (int (len + l + length (hdr_Token h))))
      else Inr (int len))"

section \<open>Short headers\<close>

text \<open>The length, the packet number and its length, the key phase, and whether the reserved bits are valid.\<close>

definition ParseShortHeader :: "bytes \<Rightarrow> nat \<Rightarrow> header_error + (nat \<times> PacketNumber \<times> nat \<times> KeyPhaseBit \<times> bool)" where
  "ParseShortHeader data connIDLen =
     (if length data = 0 then Inl HdrEOF
      else
        rbind (at HdrPanic data 0) (\<lambda>first.
        if first AND 0x80 > 0 then Inl NotShortHeader
        else if first AND 0x40 = 0 then Inl NotQUICPacket
        else
          let pnLen = unat (first AND 3) + 1 in
          if length data < 1 + pnLen + connIDLen then Inl HdrEOF
          else
            rbind (slice HdrPanic data (1 + connIDLen) (length data)) (\<lambda>d.
            rbind (readPacketNumber d pnLen) (\<lambda>pn.
            Inr (1 + connIDLen + pnLen, pn, pnLen, if first AND 4 > 0 then KeyPhaseOne else KeyPhaseZero,
                 first AND 0x18 = 0)))))"

definition AppendShortHeader :: "bytes \<Rightarrow> ConnectionID \<Rightarrow> PacketNumber \<Rightarrow> nat \<Rightarrow> KeyPhaseBit \<Rightarrow> header_error + bytes" where
  "AppendShortHeader b connID pn pnLen kp =
     (let typeByte = 0x40 OR (word_of_nat pnLen - 1);
          typeByte = (if kp = KeyPhaseOne then typeByte OR push_bit 2 1 else typeByte) in
      appendPacketNumber (b @ [typeByte] @ connID) pn pnLen)"

definition ShortHeaderLen :: "ConnectionID \<Rightarrow> nat \<Rightarrow> ByteCount" where
  "ShortHeaderLen dest pnLen = int (1 + length dest + pnLen)"

section \<open>Reading back\<close>

lemma may_panic_Inr [simp]: "may_panic h (Inr a) = Inr a"
  by (simp add: may_panic_def)

lemma may_panic_eq_Inr [simp]: "may_panic h m = Inr a \<longleftrightarrow> m = Inr a"
  by (simp add: may_panic_def split: sum.splits)

lemma conn_id_short [simp]: "length b \<le> 20 \<Longrightarrow> conn_id b = Inr b"
  by (simp add: conn_id_def ParseConnectionID_def)

lemma parseHeader_Cons:
  "parseHeader (typeByte # rest) =
     (case parseLongHeader \<lparr>hdr_typeByte = typeByte, hdr_Type = PacketTypeUnset, hdr_Version = 0, hdr_SrcConnectionID = [],
          hdr_DestConnectionID = [], hdr_Length = 0, hdr_Token = [], hdr_parsedLen = 0\<rparr> rest of
        Inl (e, h, l) \<Rightarrow> (Some e, Some (h\<lparr>hdr_parsedLen := int l + 1\<rparr>))
      | Inr (h, l) \<Rightarrow> (None, Some (h\<lparr>hdr_parsedLen := int l + 1\<rparr>)))"
  by (simp add: parseHeader_def)

lemma parseHeader_Nil: "parseHeader [] = (Some HdrEOF, None)"
  by (simp add: parseHeader_def)

lemma uint24: "uint (ucast x2 + push_bit 8 (ucast x1) + push_bit 16 (ucast x0) :: 32 word) = int (be_nat [x0, x1, x2])"
  for x0 x1 x2 :: byte
proof -
  have "(ucast x2 + push_bit 8 (ucast x1) + push_bit 16 (ucast x0) :: 32 word) = word_of_nat (be_nat [x0, x1, x2])"
    by (simp add: be_nat_def push_bit_eq_mult algebra_simps of_nat_unat)
  moreover have "be_nat [x0, x1, x2] < 2 ^ 32" using be_nat_less [of "[x0, x1, x2]"] by simp
  ultimately show ?thesis by (simp add: uint_nat unat_of_nat)
qed

lemma be_bytes_mod: "be_bytes n (v mod 256 ^ n) = be_bytes n v"
proof (induction n arbitrary: v)
  case (Suc n)
  have "v mod (256 * 256 ^ n) div 256 = v div 256 mod 256 ^ n" by (simp add: mod_mult2_eq)
  moreover have "word_of_nat (v mod (256 * 256 ^ n)) = (word_of_nat v :: byte)"
    by (simp add: word_of_nat_eq_iff take_bit_eq_mod mod_mod_cancel)
  ultimately show ?case using Suc.IH [of "v div 256"] by simp
qed simp

lemma readPacketNumber_bytes:
  assumes "pnLen \<in> {1, 2, 3, 4}" "length w = pnLen"
  shows "readPacketNumber (w @ rest) pnLen = Inr (int (be_nat w))"
proof -
  consider "pnLen = 1" | "pnLen = 2" | "pnLen = 3" | "pnLen = 4" using assms(1) by blast
  then show ?thesis
  proof cases
    case 1
    then obtain x where "w = [x]" using assms(2) by (cases w) auto
    then show ?thesis using 1 by (simp add: readPacketNumber_def be_nat_def)
  next
    case 3
    obtain x y z where "w = [x, y, z]" using assms(2) 3 by (cases w; cases "tl w"; cases "tl (tl w)") auto
    then show ?thesis using 3 by (simp add: readPacketNumber_def uint24)
  qed (use assms(2) in \<open>simp_all add: readPacketNumber_def\<close>)
qed

lemma packet_number_bytes:
  assumes "pnLen \<in> {1, 2, 3, 4}" "0 \<le> pn"
  defines "w \<equiv> be_bytes pnLen (nat pn)"
  shows "appendPacketNumber b pn pnLen = Inr (b @ w)" "length w = pnLen"
    "readPacketNumber (w @ rest) pnLen = Inr (pn mod 2 ^ (pnLen * 8))"
proof -
  have u16: "unat (word_of_int pn :: 16 word) = nat pn mod 256 ^ 2" and u32: "unat (word_of_int pn :: 32 word) = nat pn mod 256 ^ 4"
    and u8: "(word_of_int pn :: byte) = word_of_nat (nat pn)"
    using assms(2) by (simp_all add: unsigned_of_int take_bit_eq_mod nat_mod_distrib)
  have m: "be_bytes 2 (nat pn mod 256 ^ 2) = be_bytes 2 (nat pn)" "be_bytes 4 (nat pn mod 256 ^ 4) = be_bytes 4 (nat pn)"
    "drop 1 (be_bytes 4 (nat pn)) = be_bytes 3 (nat pn)"
    using be_bytes_mod [of 2 "nat pn"] be_bytes_mod [of 4 "nat pn"] be_bytes_add [of 1 3 "nat pn"] by simp_all
  show "appendPacketNumber b pn pnLen = Inr (b @ w)"
    using assms(1) unfolding appendPacketNumber_def w_def u16 u32 u8 m by auto
  show len: "length w = pnLen" by (simp add: w_def)
  have "(2 :: int) ^ (pnLen * 8) = (2 ^ 8) ^ pnLen" by (subst mult.commute) (rule power_mult)
  then have "int (be_nat w) = pn mod 2 ^ (pnLen * 8)"
    using assms(2) by (simp add: w_def be_nat_be_bytes zmod_int)
  moreover have "readPacketNumber (w @ rest) pnLen = Inr (int (be_nat w))"
    by (rule readPacketNumber_bytes [OF assms(1) len])
  ultimately show "readPacketNumber (w @ rest) pnLen = Inr (pn mod 2 ^ (pnLen * 8))" by simp
qed

definition header_ok :: "ExtendedHeader \<Rightarrow> bool" where
  "header_ok eh = (let h = eh_Header eh in hdr_Type h \<in> {PacketTypeInitial, PacketTypeHandshake, PacketType0RTT}
     \<and> hdr_Version h \<in> {Version1, Version2} \<and> length (hdr_DestConnectionID h) \<le> 20 \<and> length (hdr_SrcConnectionID h) \<le> 20
     \<and> length (hdr_Token h) < 2 ^ 62 \<and> (hdr_Type h \<noteq> PacketTypeInitial \<longrightarrow> hdr_Token h = [])
     \<and> 0 \<le> hdr_Length h \<and> hdr_Length h < 16384 \<and> eh_PacketNumberLen eh \<in> {1, 2, 3, 4} \<and> 0 \<le> eh_PacketNumber eh)"

definition first_byte :: "ExtendedHeader \<Rightarrow> byte" where
  "first_byte eh = 0xc0 OR push_bit 4 (type_bits (hdr_Version (eh_Header eh)) (hdr_Type (eh_Header eh)))
     OR (word_of_nat (eh_PacketNumberLen eh) - 1)"

lemma long_byte:
  fixes t :: byte and n :: nat
  assumes "t \<in> {0, 1, 2, 3}" "n \<in> {1, 2, 3, 4}"
  shows "(0xc0 OR push_bit 4 t OR (word_of_nat n - 1)) AND 0x80 = 0x80" "(0xc0 OR push_bit 4 t OR (word_of_nat n - 1)) AND 0x40 = 0x40"
    "(0xc0 OR push_bit 4 t OR (word_of_nat n - 1)) AND 0xc = 0" "unat ((0xc0 OR push_bit 4 t OR (word_of_nat n - 1)) AND 3) + 1 = n"
    "drop_bit 4 (0xc0 OR push_bit 4 t OR (word_of_nat n - 1)) AND 3 = t"
  using assms by (elim insertE emptyE; hypsubst; simp; fail)+

lemma short_byte:
  fixes n :: nat
  assumes "n \<in> {1, 2, 3, 4}"
  shows "(0x40 OR (word_of_nat n - 1)) AND 0x80 = (0 :: byte)" "(0x40 OR (word_of_nat n - 1)) AND 0x40 = (0x40 :: byte)"
    "unat ((0x40 OR (word_of_nat n - 1)) AND 3 :: byte) + 1 = n" "(0x40 OR (word_of_nat n - 1)) AND 4 = (0 :: byte)"
    "(0x40 OR (word_of_nat n - 1)) AND 0x18 = (0 :: byte)"
    "(0x40 OR (word_of_nat n - 1) OR push_bit 2 1) AND 0x80 = (0 :: byte)"
    "(0x40 OR (word_of_nat n - 1) OR push_bit 2 1) AND 0x40 = (0x40 :: byte)"
    "unat ((0x40 OR (word_of_nat n - 1) OR push_bit 2 1) AND 3 :: byte) + 1 = n"
    "(0x40 OR (word_of_nat n - 1) OR push_bit 2 1) AND 4 = (4 :: byte)"
    "(0x40 OR (word_of_nat n - 1) OR push_bit 2 1) AND 0x18 = (0 :: byte)"
  using assms by (elim insertE emptyE; hypsubst; simp; fail)+

lemma type_bits_cases: "type_bits v ty \<in> {0, 1, 2, 3}"
  by (cases ty) (simp_all add: type_bits_def)

lemma first_byte_bits:
  assumes "header_ok eh"
  shows "IsLongHeaderPacket (first_byte eh)" "first_byte eh AND 0x40 \<noteq> 0" "first_byte eh AND 0xc = 0"
    "unat (first_byte eh AND 3) + 1 = eh_PacketNumberLen eh"
    "packet_type (hdr_Version (eh_Header eh)) (first_byte eh) t = hdr_Type (eh_Header eh)"
proof -
  have n: "eh_PacketNumberLen eh \<in> {1, 2, 3, 4}" and ty: "hdr_Type (eh_Header eh) \<in> {PacketTypeInitial, PacketTypeHandshake, PacketType0RTT}"
    using assms unfolding header_ok_def Let_def by blast+
  note b = long_byte [OF type_bits_cases [of "hdr_Version (eh_Header eh)" "hdr_Type (eh_Header eh)"] n, folded first_byte_def]
  show "IsLongHeaderPacket (first_byte eh)" "first_byte eh AND 0x40 \<noteq> 0" "first_byte eh AND 0xc = 0"
    "unat (first_byte eh AND 3) + 1 = eh_PacketNumberLen eh"
    using b by (simp_all add: IsLongHeaderPacket_def)
  show "packet_type (hdr_Version (eh_Header eh)) (first_byte eh) t = hdr_Type (eh_Header eh)"
    unfolding packet_type_def Let_def b(5) using ty by (elim insertE) (simp_all add: type_bits_def)
qed

text \<open>The parts of a long header: the token of an Initial packet with its length, and the length in two bytes.\<close>

definition token_bytes :: "Header \<Rightarrow> bytes" where
  "token_bytes h = (if hdr_Type h = PacketTypeInitial then venc (word_of_nat (length (hdr_Token h))) @ hdr_Token h else [])"

definition conn_ids :: "Header \<Rightarrow> bytes" where
  "conn_ids h = [word_of_nat (length (hdr_DestConnectionID h))] @ hdr_DestConnectionID h
     @ [word_of_nat (length (hdr_SrcConnectionID h))] @ hdr_SrcConnectionID h"

lemma length_field:
  assumes "0 \<le> i" "i < 16384"
  obtains e where "\<And>b. AppendWithLen b (uint64 i) 2 = Inr (b @ e)" "length e = 2"
    "\<And>rest. Parse (e @ rest) = Inr (uint64 i, 2)"
proof -
  have u: "unat (uint64 i) = nat i" using assms by (intro unat_uint64) auto
  have s: "unat (uint64 i) < 2 ^ 62" "(2 :: nat) \<in> {1, 2, 4, 8}" "varint_size (unat (uint64 i)) \<le> 2"
    unfolding u using assms by (auto simp: varint_size_def)
  obtain e where e: "\<And>b. AppendWithLen b (uint64 i) 2 = Inr (b @ e)" "length e = 2" "varint_width (hd e) = 2"
    "varint_value e = unat (uint64 i)" using AppendWithLen_eq [OF s] by metis
  then show ?thesis using that Parse_encoding [of e "uint64 i"] by simp
qed

lemma parse_typed_eq:
  assumes "hdr_Type h \<noteq> PacketTypeRetry" "length (hdr_Token h) < 2 ^ 62" "hdr_Type h \<noteq> PacketTypeInitial \<longrightarrow> hdr_Token h = []"
    "0 \<le> hdr_Length h" "hdr_Length h < 16384" "\<And>rest. Parse (e @ rest) = Inr (uint64 (hdr_Length h), 2)"
    "hdr_Type h' = hdr_Type h" "hdr_Token h' = []"
  shows "parse_typed h' n (token_bytes h @ e @ x) =
    Inr (h'\<lparr>hdr_Token := hdr_Token h, hdr_Length := hdr_Length h\<rparr>, n + length (token_bytes h) + 2)"
proof -
  have l: "sint (uint64 (hdr_Length h)) = hdr_Length h" using assms(4,5) by (intro sint_uint64) (simp add: int64_ok_def)
  have len: "word_ok (word_of_nat (length (hdr_Token h)))" "unat (word_of_nat (length (hdr_Token h)) :: 64 word) = length (hdr_Token h)"
    using assms(2) by simp_all
  show ?thesis
  proof (cases "hdr_Type h = PacketTypeInitial")
    case True
    then show ?thesis using assms(6-8) l len by (simp add: parse_typed_def token_bytes_def codec_simps Let_def)
  next
    case False
    then show ?thesis using assms(1,3,6-8) l by (simp add: parse_typed_def token_bytes_def)
  qed
qed

lemma parseLongHeader_eq:
  assumes "header_ok eh" "\<And>rest. Parse (e @ rest) = Inr (uint64 (hdr_Length (eh_Header eh)), 2)"
  defines "h \<equiv> eh_Header eh"
  shows "parseLongHeader \<lparr>hdr_typeByte = first_byte eh, hdr_Type = PacketTypeUnset, hdr_Version = 0, hdr_SrcConnectionID = [],
      hdr_DestConnectionID = [], hdr_Length = 0, hdr_Token = [], hdr_parsedLen = 0\<rparr>
      (be_bytes 4 (unat (hdr_Version h)) @ conn_ids h @ token_bytes h @ e @ x) =
    Inr (\<lparr>hdr_typeByte = first_byte eh, hdr_Type = hdr_Type h, hdr_Version = hdr_Version h,
      hdr_SrcConnectionID = hdr_SrcConnectionID h, hdr_DestConnectionID = hdr_DestConnectionID h, hdr_Length = hdr_Length h,
      hdr_Token = hdr_Token h, hdr_parsedLen = 0\<rparr>, 4 + length (conn_ids h) + length (token_bytes h) + 2)"
proof -
  have ok: "hdr_Type h \<in> {PacketTypeInitial, PacketTypeHandshake, PacketType0RTT}" "hdr_Version h \<in> {Version1, Version2}"
    "length (hdr_DestConnectionID h) \<le> 20" "length (hdr_SrcConnectionID h) \<le> 20"
    using assms(1) by (simp_all add: header_ok_def Let_def h_def)
  have v: "be_word (be_bytes 4 (unat (hdr_Version h))) = hdr_Version h"
    using unsigned_less [of "hdr_Version h"] by (subst be_word_be_bytes) simp_all
  have u: "unat (word_of_nat (length (hdr_DestConnectionID h)) :: byte) = length (hdr_DestConnectionID h)"
    "unat (word_of_nat (length (hdr_SrcConnectionID h)) :: byte) = length (hdr_SrcConnectionID h)"
    using ok(3,4) by (simp_all add: unat_of_nat)
  have v0: "hdr_Version h \<noteq> 0" "hdr_Version h \<in> set SupportedVersions" using ok(2) by auto
  have pt: "parse_typed h' n (token_bytes h @ e @ x) =
      Inr (h'\<lparr>hdr_Token := hdr_Token h, hdr_Length := hdr_Length h\<rparr>, n + length (token_bytes h) + 2)"
    if "hdr_Type h' = hdr_Type h" "hdr_Token h' = []" for h' n
    using assms(1,2) ok(1) that by (intro parse_typed_eq) (auto simp: header_ok_def Let_def h_def)
  show ?thesis
    unfolding parseLongHeader_def Let_def conn_ids_def
    using ok(3,4) v0 first_byte_bits(2,5) [OF assms(1), folded h_def]
    by (simp add: v u nth_append pt)
qed

lemma ExtendedHeader_Append_eq:
  assumes "header_ok eh" "\<And>b. AppendWithLen b (uint64 (hdr_Length (eh_Header eh))) 2 = Inr (b @ e)"
  defines "h \<equiv> eh_Header eh"
  shows "ExtendedHeader_Append eh b (hdr_Version h) = Inr (b @ [first_byte eh] @ be_bytes 4 (unat (hdr_Version h)) @ conn_ids h
    @ token_bytes h @ e @ be_bytes (eh_PacketNumberLen eh) (nat (eh_PacketNumber eh)))"
proof -
  have ok: "hdr_Type h \<noteq> PacketTypeRetry" "length (hdr_DestConnectionID h) \<le> 20" "length (hdr_SrcConnectionID h) \<le> 20"
    "eh_PacketNumberLen eh \<in> {1, 2, 3, 4}" "0 \<le> eh_PacketNumber eh" "word_ok (word_of_nat (length (hdr_Token h)))"
    using assms(1) by (auto simp: header_ok_def Let_def h_def)
  show ?thesis
    unfolding ExtendedHeader_Append_def Let_def h_def [symmetric]
    using ok(1-3) packet_number_bytes(1) [OF ok(4,5)] ok(6) assms(2) [folded h_def]
    by (simp add: hdr_varint_def codec_simps conn_ids_def token_bytes_def first_byte_def h_def or.assoc)
qed

section \<open>Any input\<close>

lemma Parse_bound:
  assumes "Parse b = Inr (v, l)"
  shows "unat v < 2 ^ 62" "l \<le> length b"
proof -
  obtain c cs where b: "b = c # cs" using assms by (cases b) (auto simp: Parse_def)
  then have l: "l = varint_width c" "l \<le> length b" "v = word_of_nat (varint_value (take l b))"
    using assms by (auto simp: Parse_Cons Let_def split: if_splits)
  have "0 < l" "l \<le> 8" using l(1) by (cases c rule: varint_width_cases; simp)+
  then have "varint_value (take l b) < 2 ^ 62" using l(2) by (intro varint_value_less) auto
  then show "unat v < 2 ^ 62" "l \<le> length b" using l by (simp_all add: unat_of_nat)
qed

lemma readPacketNumber_total:
  assumes "pnLen \<in> {1, 2, 3, 4}" "pnLen \<le> length d"
  shows "\<exists>pn. readPacketNumber d pnLen = Inr pn"
  using readPacketNumber_bytes [of pnLen "take pnLen d" "drop pnLen d"] assms by simp

lemma pnLen_cases: "unat (b AND 3 :: byte) + 1 \<in> {1, 2, 3, 4}"
proof -
  have "unat (b AND 3) \<le> unat (3 :: byte)" using word_and_le1 [of b 3] by (simp add: word_le_nat_alt)
  then show ?thesis by auto
qed

text \<open>A header that is read without an error has a length that is not negative, and the bytes read are there.\<close>

lemma parse_typed_bounds:
  assumes "parse_typed h n b = Inr (h', m)" "0 \<le> hdr_Length h"
  shows "0 \<le> hdr_Length h' \<and> m \<le> n + length b"
proof (cases "hdr_Type h = PacketTypeRetry")
  case True
  then show ?thesis using assms by (auto simp: parse_typed_def Let_def res_simps split: if_splits)
next
  case False
  define token where "token = (if hdr_Type h = PacketTypeInitial then
      (case Parse b of Inl e \<Rightarrow> Inl (HdrVarint e, h, n)
       | Inr (tokenLen, i) \<Rightarrow>
           rbind (may_panic h (slice HdrPanic b i (length b))) (\<lambda>b.
           let n = n + i in
           if unat tokenLen > length b then Inl (HdrEOF, h, n)
           else
             rbind (may_panic h (slice HdrPanic b 0 (unat tokenLen))) (\<lambda>token.
             rbind (may_panic h (slice HdrPanic b (unat tokenLen) (length b))) (\<lambda>b.
             Inr (h\<lparr>hdr_Token := token\<rparr>, n + unat tokenLen, b)))))
      else Inr (h, n, b))"
  obtain h1 k c where t: "token = Inr (h1, k, c)"
    "(case Parse c of Inl e \<Rightarrow> Inl (HdrVarint e, h1, 0 :: nat) | Inr (pl, i) \<Rightarrow> Inr (h1\<lparr>hdr_Length := sint pl\<rparr>, k + i)) = Inr (h', m)"
    using assms(1) False unfolding parse_typed_def token_def [symmetric] by (auto simp: rbind_eq_Inr)
  have c: "k + length c \<le> n + length b"
    using t(1) unfolding token_def by (auto simp: Let_def res_simps dest!: Parse_bound(2) split: if_splits sum.splits prod.splits)
  from t(2)
  obtain pl i where p: "Parse c = Inr (pl, i)" "h' = h1\<lparr>hdr_Length := sint pl\<rparr>" "m = k + i"
    by (auto split: sum.splits)
  define v where "v = int (unat pl)"
  have "int (unat pl) < int (2 ^ 62)" using Parse_bound(1) [OF p(1)] by (simp only: of_nat_less_iff)
  then have "int64_ok v" by (simp add: int64_ok_def v_def)
  moreover have "pl = uint64 v" by (simp add: v_def)
  ultimately have "0 \<le> sint pl" using sint_uint64 [of v] by (simp add: int64_ok_def)
  then show ?thesis using p Parse_bound(2) [OF p(1)] c by simp
qed

lemma parseLongHeader_bounds:
  assumes "parseLongHeader h b = Inr (h', m)" "hdr_Length h = 0"
  shows "0 \<le> hdr_Length h' \<and> m \<le> length b"
  using assms
  by (auto simp: parseLongHeader_def Let_def res_simps dest!: parse_typed_bounds split: if_splits)

text \<open>The errors that stand for a panic, also one of \<open>quicvarint.Parse\<close>.\<close>

fun hdr_panic :: "header_error \<Rightarrow> bool" where
  "hdr_panic (HdrPanic p) = True"
| "hdr_panic (HdrVarint e) = (e \<noteq> EOF \<and> e \<noteq> UnexpectedEOF)"
| "hdr_panic _ = False"

lemma Parse_failure: "Parse b = Inl e \<Longrightarrow> e = EOF \<or> e = UnexpectedEOF"
proof (cases b)
  case Nil
  moreover assume "Parse b = Inl e"
  ultimately show ?thesis by (simp add: Parse_def)
next
  case (Cons c cs)
  moreover assume "Parse b = Inl e"
  ultimately show ?thesis by (auto simp: Parse_Cons Let_def split: if_splits)
qed

definition hdr_safe :: "(header_error \<times> Header \<times> nat) + 'a \<Rightarrow> bool" where
  "hdr_safe m = (\<forall>e h n. m = Inl (e, h, n) \<longrightarrow> \<not> hdr_panic e)"

lemma hdr_safe_simps [simp]: "hdr_safe (Inr a)" "hdr_safe (Inl (e, h, n)) = (\<not> hdr_panic e)"
  by (simp_all add: hdr_safe_def)

lemma hdr_safe_rbind: "hdr_safe m \<Longrightarrow> (\<And>a. m = Inr a \<Longrightarrow> hdr_safe (f a)) \<Longrightarrow> hdr_safe (rbind m f)"
  by (cases m) (auto simp: hdr_safe_def)

lemma parse_typed_safe: "hdr_safe (parse_typed h n b)"
proof (cases "hdr_Type h = PacketTypeRetry")
  case True
  then show ?thesis by (simp add: parse_typed_def Let_def)
next
  case False
  then show ?thesis unfolding parse_typed_def
    by (auto simp: Let_def dest: Parse_failure Parse_bound(2) intro!: hdr_safe_rbind split: sum.splits)
qed

lemma parseLongHeader_safe: "hdr_safe (parseLongHeader h b)"
  unfolding parseLongHeader_def Let_def by (simp add: parse_typed_safe)

lemma parseHeader_no_panic: "parseHeader b = (Some e, h) \<Longrightarrow> \<not> hdr_panic e"
proof (cases b)
  case (Cons t rest)
  moreover assume "parseHeader b = (Some e, h)"
  ultimately show ?thesis
    by (auto simp: parseHeader_Cons split: sum.splits prod.splits dest: parseLongHeader_safe [unfolded hdr_safe_def, rule_format])
qed (auto simp: parseHeader_Nil)

lemma parseHeader_bounds:
  assumes "parseHeader b = (None, Some h)"
  shows "0 \<le> hdr_Length h" "1 \<le> hdr_parsedLen h" "hdr_parsedLen h \<le> int (length b)"
  using assms
  by (cases b; auto simp: parseHeader_Nil parseHeader_Cons dest!: parseLongHeader_bounds split: sum.splits prod.splits)+

lemma ParsePacket_cases:
  obtains e where "ParsePacket data = PacketError e" "\<not> hdr_panic e"
  | hdr where "ParsePacket data = UnknownVersion hdr"
  | hdr where "ParsePacket data = Packet hdr (take (nat (hdr_parsedLen hdr + hdr_Length hdr)) data)
      (drop (nat (hdr_parsedLen hdr + hdr_Length hdr)) data)"
    "1 \<le> hdr_parsedLen hdr" "0 \<le> hdr_Length hdr" "hdr_parsedLen hdr + hdr_Length hdr \<le> int (length data)"
proof (cases "length data = 0 \<or> \<not> IsLongHeaderPacket (data ! 0)")
  case True
  then have "ParsePacket data = PacketError NotLongHeader" by (auto simp: ParsePacket_def)
  then show ?thesis using that(1) by simp
next
  case False
  show ?thesis
  proof (cases "parseHeader data")
    case (Pair eo ho)
    show ?thesis
    proof (cases eo)
      case (Some e)
      have "\<not> hdr_panic e" using parseHeader_no_panic [of data e ho] Pair Some by auto
      then show ?thesis using that(1) [of e] that(1) [of UnsupportedVersion] that(2) Pair Some False
        by (cases e; cases ho) (auto simp: ParsePacket_def)
    next
      case None
      show ?thesis
      proof (cases ho)
        case h: (Some hdr)
        have b: "0 \<le> hdr_Length hdr" "1 \<le> hdr_parsedLen hdr" using parseHeader_bounds [of data hdr] Pair None h by auto
        show ?thesis
          using that(1) [of "PacketTooShort (int (length data) - hdr_parsedLen hdr) (hdr_Length hdr)"] that(3) [of hdr] b False Pair None h
          by (cases "int (length data) < hdr_parsedLen hdr + hdr_Length hdr") (auto simp: ParsePacket_def slice_def nat_le_iff)
      qed (use that(1) [of HdrEOF] False Pair None in \<open>simp add: ParsePacket_def\<close>)
    qed
  qed
qed

lemma ParseExtended_no_panic:
  assumes "1 \<le> hdr_parsedLen hdr" "d \<noteq> []"
  shows "ParseExtended hdr d \<noteq> Inl (HdrPanic p)"
proof -
  let ?n = "unat (d ! 0 AND 3) + 1"
  have first: "at HdrPanic d 0 = Inr (d ! 0)" using assms(2) by simp
  show ?thesis
  proof (cases "int (length d) < hdr_parsedLen hdr + int ?n")
    case True
    then show ?thesis unfolding ParseExtended_def ExtendedHeader_parse_def first rbind_Inr Let_def by simp
  next
    case False
    then have "?n \<le> length (drop (nat (hdr_parsedLen hdr)) d)" unfolding length_drop using assms(1) by linarith
    then obtain pn where "readPacketNumber (drop (nat (hdr_parsedLen hdr)) d) ?n = Inr pn"
      using readPacketNumber_total [OF pnLen_cases] by blast
    moreover have "nat (hdr_parsedLen hdr) \<le> length d" using False by linarith
    ultimately show ?thesis using False
      unfolding ParseExtended_def ExtendedHeader_parse_def first rbind_Inr Let_def by simp
  qed
qed

section \<open>Properties\<close>

text \<open>C6: A long header is read back. For every Initial, Handshake and 0-RTT header of either version, \<open>Append\<close> writes a header
  whose length is the one \<open>GetLength\<close> announces. Followed by a payload of the length written in the header and by
  any other bytes, \<open>ParsePacket\<close> cuts exactly this packet off and returns its fields, and \<open>ParseExtended\<close> finds the
  reserved bits valid, the length of the packet number, its low bits, and the end of the header.\<close>

theorem long_header_roundtrip:
  assumes "header_ok eh" "hdr_Length (eh_Header eh) = int (eh_PacketNumberLen eh + length payload)"
  shows "\<exists>w hdr eh'. ExtendedHeader_Append eh b (hdr_Version (eh_Header eh)) = Inr (b @ w)
    \<and> ExtendedHeader_GetLength eh = Inr (int (length w))
    \<and> ParsePacket (w @ payload @ next) = Packet hdr (w @ payload) next
    \<and> ParseExtended hdr (w @ payload) = Inr (True, eh')
    \<and> hdr = (eh_Header eh)\<lparr>hdr_typeByte := hd w, hdr_parsedLen := int (length w - eh_PacketNumberLen eh)\<rparr>
    \<and> eh_Header eh' = hdr \<and> eh_PacketNumberLen eh' = eh_PacketNumberLen eh
    \<and> eh_PacketNumber eh' = eh_PacketNumber eh mod 2 ^ (eh_PacketNumberLen eh * 8) \<and> eh_parsedLen eh' = int (length w)"
proof -
  let ?h = "eh_Header eh" and ?n = "eh_PacketNumberLen eh"
  have ok: "0 \<le> hdr_Length ?h" "hdr_Length ?h < 16384" "?n \<in> {1, 2, 3, 4}" "0 \<le> eh_PacketNumber eh" "word_ok (word_of_nat (length (hdr_Token ?h)))"
    using assms(1) by (simp_all add: header_ok_def Let_def)
  obtain e where e: "\<And>b. AppendWithLen b (uint64 (hdr_Length ?h)) 2 = Inr (b @ e)" "length e = 2"
    "\<And>rest. Parse (e @ rest) = Inr (uint64 (hdr_Length ?h), 2)" by (rule length_field [OF ok(1,2)]) blast
  define pn where "pn = be_bytes ?n (nat (eh_PacketNumber eh))"
  define front where "front = [first_byte eh] @ be_bytes 4 (unat (hdr_Version ?h)) @ conn_ids ?h @ token_bytes ?h @ e"
  define hdr where "hdr = ?h\<lparr>hdr_typeByte := first_byte eh, hdr_parsedLen := int (length front)\<rparr>"
  note fb = first_byte_bits [OF assms(1)]
  have len: "length pn = ?n" by (simp add: pn_def)
  have app: "ExtendedHeader_Append eh b (hdr_Version ?h) = Inr (b @ front @ pn)"
    using ExtendedHeader_Append_eq [OF assms(1) e(1)] by (simp add: front_def pn_def)
  have get: "ExtendedHeader_GetLength eh = Inr (int (length (front @ pn)))"
    using ok(5) e(2) len by (simp add: ExtendedHeader_GetLength_def Let_def hdr_varint_def codec_simps front_def conn_ids_def token_bytes_def)
  have hd: "parseHeader (front @ rest) = (None, Some hdr)" for rest
    using parseLongHeader_eq [OF assms(1) e(3), of rest] e(2) by (simp add: parseHeader_Cons front_def hdr_def)
  have "(front @ rest) ! 0 = first_byte eh" "front @ rest \<noteq> []" for rest by (simp_all add: front_def)
  then have pp: "ParsePacket ((front @ pn) @ payload @ next) = Packet hdr ((front @ pn) @ payload) next"
    using fb(1) hd [of "pn @ payload @ next"] assms(2) len
    by (simp add: ParsePacket_def hdr_def nat_add_distrib add.assoc)
  let ?eh = "\<lparr>eh_Header = hdr, eh_typeByte = first_byte eh, eh_KeyPhase = KeyPhaseUndefined, eh_PacketNumberLen = ?n,
    eh_PacketNumber = eh_PacketNumber eh mod 2 ^ (?n * 8), eh_parsedLen = int (length (front @ pn))\<rparr>"
  have first: "at HdrPanic ((front @ pn) @ payload) 0 = Inr (first_byte eh)" by (simp add: front_def)
  have sl: "slice HdrPanic ((front @ pn) @ payload) (nat (hdr_parsedLen hdr)) (length ((front @ pn) @ payload)) = Inr (pn @ payload)"
    by (simp add: slice_def hdr_def)
  have "ParseExtended hdr ((front @ pn) @ payload) = Inr (True, ?eh)"
    unfolding ParseExtended_def ExtendedHeader_parse_def first rbind_Inr Let_def
    using sl fb(3,4) packet_number_bytes(3) [OF ok(3,4), of payload, folded pn_def] len
    by (simp add: hdr_def)
  then show ?thesis using app get pp
    by (intro exI [of _ "front @ pn"] exI [of _ hdr] exI [of _ ?eh]) (simp add: hdr_def len, simp add: front_def)
qed

theorem long_header_roundtrip_witness:
  "\<exists>w hdr eh'. ExtendedHeader_GetLength \<lparr>eh_Header = \<lparr>hdr_typeByte = 0, hdr_Type = PacketTypeInitial, hdr_Version = Version1,
       hdr_SrcConnectionID = [], hdr_DestConnectionID = [1, 2, 3], hdr_Length = 6, hdr_Token = [9], hdr_parsedLen = 0\<rparr>,
       eh_typeByte = 0, eh_KeyPhase = KeyPhaseUndefined, eh_PacketNumberLen = 2, eh_PacketNumber = 70000, eh_parsedLen = 0\<rparr>
      = Inr (int (length w))
    \<and> ParsePacket (w @ [7, 7, 7, 7] @ [5]) = Packet hdr (w @ [7, 7, 7, 7]) [5]
    \<and> ParseExtended hdr (w @ [7, 7, 7, 7]) = Inr (True, eh') \<and> eh_PacketNumber eh' = 4464"
  (is "\<exists>w hdr eh'. ExtendedHeader_GetLength ?eh = _ \<and> _")
  using long_header_roundtrip [of ?eh "[7, 7, 7, 7]" "[]" "[5]"] by (auto simp: header_ok_def)

text \<open>C7: A short header is read back, and with it the whole packet number. Let the sender choose the length of the packet number
  for the largest acknowledged one. Then \<open>AppendShortHeader\<close> writes a header of the announced length;
  \<open>ParseShortHeader\<close> returns its length, the length of the packet number, the key phase and valid reserved bits; and a receiver
  whose largest packet number is at least the acknowledged one and less than half a window ahead completes the
  bits it reads to the packet number that was sent.\<close>

theorem short_header_roundtrip:
  assumes "0 \<le> pn" "pn < 2 ^ 62" "-1 \<le> largestAcked" "largestAcked < pn" "pn - largestAcked < 2 ^ 31"
    and "len = PacketNumberLengthForHeader pn largestAcked" "kp \<noteq> KeyPhaseUndefined"
    and "largestAcked \<le> largest" "largest + 1 < pn + 2 ^ (len * 8) div 2"
  shows "\<exists>w pn'. AppendShortHeader b connID pn len kp = Inr (b @ w) \<and> ShortHeaderLen connID len = int (length w)
    \<and> ParseShortHeader (w @ payload) (length connID) = Inr (length w, pn', len, kp, True)
    \<and> DecodePacketNumber len largest pn' = pn"
proof -
  have len: "len \<in> {1, 2, 3, 4}" using PacketNumberLengthForHeader_window(1) [OF assms(3-5)] assms(6) by simp
  define f :: byte where "f = (if kp = KeyPhaseOne then 0x40 OR (word_of_nat len - 1) OR push_bit 2 1 else 0x40 OR (word_of_nat len - 1))"
  note pn = packet_number_bytes [OF len assms(1)]
  let ?w = "[f] @ connID @ be_bytes len (nat pn)"
  have bits: "f AND 0x80 = 0" "f AND 0x40 = 0x40" "unat (f AND 3) + 1 = len" "f AND 4 > 0 \<longleftrightarrow> kp = KeyPhaseOne" "f AND 0x18 = 0"
    using short_byte [OF len] unfolding f_def by (cases "kp = KeyPhaseOne"; simp)+
  have app: "AppendShortHeader b connID pn len kp = Inr (b @ ?w)"
    unfolding AppendShortHeader_def Let_def using pn(1) by (simp add: f_def or.assoc)
  have kp: "(if f AND 4 > 0 then KeyPhaseOne else KeyPhaseZero) = kp" using bits(4) assms(7) by (cases kp) auto
  have "ParseShortHeader (?w @ payload) (length connID) = Inr (length ?w, pn mod 2 ^ (len * 8), len, kp, True)"
    unfolding ParseShortHeader_def using bits(1,2,3,5) kp pn(3) [of payload] by (simp add: Let_def)
  moreover have "DecodePacketNumber len largest (pn mod 2 ^ (len * 8)) = pn"
    using packet_number_completed [OF assms(1-5,8)] assms(6,9) by simp
  ultimately show ?thesis using app by (intro exI [of _ ?w] exI [of _ "pn mod 2 ^ (len * 8)"]) (simp add: ShortHeaderLen_def)
qed

theorem short_header_roundtrip_witness:
  "\<exists>w pn'. AppendShortHeader [] [4, 5] 70000 1 KeyPhaseOne = Inr w
    \<and> ParseShortHeader (w @ [7]) 2 = Inr (length w, pn', 1, KeyPhaseOne, True) \<and> DecodePacketNumber 1 69990 pn' = 70000"
  using short_header_roundtrip [of 70000 69990 1 KeyPhaseOne 69990 "[]" "[4, 5]" "[7]"]
  by (auto simp: PacketNumberLengthForHeader_def Let_def numeral_2_eq_2)

text \<open>C8: No datagram makes the header parsers panic. For every byte string, \<open>ParsePacket\<close> returns an error, an unsupported
  version or a packet, and the error is not a panic of the header parser, of \<open>ParseConnectionID\<close> or of the varint parser; a packet is a prefix of the datagram that holds at least the header, the rest follows it, and
  reading its extended header does not panic. The same holds for the parsers of short headers, versions and connection
  IDs, and for the tests for version negotiation and 0-RTT packets; a connection ID of a short header has at most 20 bytes.\<close>

theorem header_parsers_never_panic:
  "(case ParsePacket data of PacketError e \<Rightarrow> \<not> hdr_panic e | UnknownVersion hdr \<Rightarrow> True
    | Packet hdr d rest \<Rightarrow> d @ rest = data \<and> int (length d) = hdr_parsedLen hdr + hdr_Length hdr \<and> 0 \<le> hdr_Length hdr
        \<and> (\<forall>p. ParseExtended hdr d \<noteq> Inl (HdrPanic p)))
   \<and> (\<forall>p n. ParseShortHeader data n \<noteq> Inl (HdrPanic p)) \<and> (\<forall>p. ParseVersion data \<noteq> Inl (HdrPanic p))
   \<and> (\<forall>p. ParseArbitraryLenConnectionIDs data \<noteq> Inl (HdrPanic p))
   \<and> (\<forall>p n. wire_ParseConnectionID data (min n 20) \<noteq> Inl (HdrPanic p))
   \<and> (\<forall>p. IsVersionNegotiationPacket data \<noteq> Inl (HdrPanic p)) \<and> (\<forall>p. Is0RTTPacket data \<noteq> Inl (HdrPanic p))"
proof (intro conjI allI)
  show "case ParsePacket data of PacketError e \<Rightarrow> \<not> hdr_panic e | UnknownVersion hdr \<Rightarrow> True
    | Packet hdr d rest \<Rightarrow> d @ rest = data \<and> int (length d) = hdr_parsedLen hdr + hdr_Length hdr \<and> 0 \<le> hdr_Length hdr
        \<and> (\<forall>p. ParseExtended hdr d \<noteq> Inl (HdrPanic p))"
  proof (cases data rule: ParsePacket_cases)
    case (3 hdr)
    have "take (nat (hdr_parsedLen hdr + hdr_Length hdr)) data \<noteq> []" using 3(2-4) by auto
    then show ?thesis using 3 ParseExtended_no_panic [OF 3(2)] by simp
  qed simp_all
  show "ParseShortHeader data n \<noteq> Inl (HdrPanic p)" for p n
  proof
    assume a: "ParseShortHeader data n = Inl (HdrPanic p)"
    let ?k = "unat (data ! 0 AND 3) + 1"
    have k: "1 + ?k + n \<le> length data" "readPacketNumber (drop (1 + n) data) ?k = Inl (HdrPanic p)"
      using a by (auto simp: ParseShortHeader_def Let_def rbind_eq_Inl at_def slice_def split: if_splits)
    have "?k \<le> length (drop (1 + n) data)" unfolding length_drop using k(1) by linarith
    then obtain pn where "readPacketNumber (drop (1 + n) data) ?k = Inr pn" using readPacketNumber_total [OF pnLen_cases] by blast
    then show False using k(2) by simp
  qed
  show "ParseVersion data \<noteq> Inl (HdrPanic p)" "ParseArbitraryLenConnectionIDs data \<noteq> Inl (HdrPanic p)" for p
    by (simp_all add: ParseVersion_def ParseArbitraryLenConnectionIDs_def Let_def at_def slice_def) linarith
  show "IsVersionNegotiationPacket data \<noteq> Inl (HdrPanic p)" "Is0RTTPacket data \<noteq> Inl (HdrPanic p)" for p
    by (cases "data = []"; simp add: IsVersionNegotiationPacket_def Is0RTTPacket_def and_then_def zero_at_def Let_def)+
  show "wire_ParseConnectionID data (min n 20) \<noteq> Inl (HdrPanic p)" for p n
    by (simp add: wire_ParseConnectionID_def Let_def)
qed

end
