(* ===== verification/Quic_Flow_Control.thy ===== *)
theory Quic_Flow_Control
  imports Quic_Control_Frames
begin

text \<open>
  Flow control (\<open>quic/internal/flowcontrol\<close>): the controller of a connection and those of its streams, which share it. The
  pointer of a stream controller to its connection is an argument, and the connection is returned updated. Byte
  counts are offsets of QUIC streams, below \<open>2^62\<close>, so that the sums do not overflow.

  Two of the three floating-point expressions are exact for windows below \<open>2^51\<close> bytes, where a product with \<open>0.75\<close>
  or \<open>1.5\<close> has at most 53 bits, and are written as integer divisions. The third, the time in which an epoch is expected to
  be consumed, divides; its value is the function \<open>tn_epoch_time\<close> of \<open>tuning\<close>, the arguments of auto-tuning. The others are the
  smoothed round-trip time and the callback \<open>allowWindowIncrease\<close>, \<open>None\<close> if it is nil. The callback and the clock belong to
  the caller, and every call may have different ones.
\<close>

type_synonym Time = int

record tuning =
  tn_epoch_time :: "ByteCount \<Rightarrow> ByteCount \<Rightarrow> Duration \<Rightarrow> Duration"
  tn_rtt :: Duration
  tn_allow :: "(ByteCount \<Rightarrow> bool) option"

record baseFlowController =
  fc_bytesSent :: ByteCount
  fc_sendWindow :: ByteCount
  fc_lastBlockedAt :: ByteCount
  fc_bytesRead :: ByteCount
  fc_highestReceived :: ByteCount
  fc_receiveWindow :: ByteCount
  fc_receiveWindowSize :: ByteCount
  fc_maxReceiveWindowSize :: ByteCount
  fc_epochStartTime :: Time
  fc_epochStartOffset :: ByteCount

datatype flow_error = FlowControlError ByteCount ByteCount | FinalSizeError ByteCount ByteCount
datatype flow_panic = NilFunction

section \<open>The common part\<close>

definition SendWindowSize :: "baseFlowController \<Rightarrow> ByteCount" where
  "SendWindowSize c = (if fc_bytesSent c > fc_sendWindow c then 0 else fc_sendWindow c - fc_bytesSent c)"

definition IsNewlyBlocked :: "baseFlowController \<Rightarrow> bool \<times> ByteCount \<times> baseFlowController" where
  "IsNewlyBlocked c =
     (if SendWindowSize c \<noteq> 0 \<or> fc_sendWindow c = fc_lastBlockedAt c then (False, 0, c)
      else (True, fc_sendWindow c, c\<lparr>fc_lastBlockedAt := fc_sendWindow c\<rparr>))"

definition AddBytesSent :: "ByteCount \<Rightarrow> baseFlowController \<Rightarrow> baseFlowController" where
  "AddBytesSent n c = c\<lparr>fc_bytesSent := fc_bytesSent c + n\<rparr>"

definition UpdateSendWindow :: "ByteCount \<Rightarrow> baseFlowController \<Rightarrow> bool \<times> baseFlowController" where
  "UpdateSendWindow offset c =
     (if offset > fc_sendWindow c then (True, c\<lparr>fc_sendWindow := offset\<rparr>) else (False, c))"

definition addBytesRead :: "ByteCount \<Rightarrow> baseFlowController \<Rightarrow> baseFlowController" where
  "addBytesRead n c = c\<lparr>fc_bytesRead := fc_bytesRead c + n\<rparr>"

definition hasWindowUpdate :: "baseFlowController \<Rightarrow> bool" where
  "hasWindowUpdate c = (fc_receiveWindow c - fc_bytesRead c \<le> 3 * fc_receiveWindowSize c div 4)"

definition startNewAutoTuningEpoch :: "Time \<Rightarrow> baseFlowController \<Rightarrow> baseFlowController" where
  "startNewAutoTuningEpoch now c = c\<lparr>fc_epochStartTime := now, fc_epochStartOffset := fc_bytesRead c\<rparr>"

definition maybeAdjustWindowSize :: "tuning \<Rightarrow> Time \<Rightarrow> baseFlowController \<Rightarrow> baseFlowController" where
  "maybeAdjustWindowSize t now c =
     (let bytesReadInEpoch = fc_bytesRead c - fc_epochStartOffset c in
      if bytesReadInEpoch \<le> fc_receiveWindowSize c div 2 then c
      else if tn_rtt t = 0 then c
      else
        let c = (if now - fc_epochStartTime c < tn_epoch_time t bytesReadInEpoch (fc_receiveWindowSize c) (tn_rtt t) then
                   let newSize = min (2 * fc_receiveWindowSize c) (fc_maxReceiveWindowSize c) in
                   if newSize > fc_receiveWindowSize c
                     \<and> (case tn_allow t of None \<Rightarrow> True | Some allow \<Rightarrow> allow (newSize - fc_receiveWindowSize c))
                   then c\<lparr>fc_receiveWindowSize := newSize\<rparr> else c
                 else c) in
        startNewAutoTuningEpoch now c)"

definition getWindowUpdate :: "tuning \<Rightarrow> Time \<Rightarrow> baseFlowController \<Rightarrow> ByteCount \<times> baseFlowController" where
  "getWindowUpdate t now c =
     (if \<not> hasWindowUpdate c then (0, c)
      else
        let c = maybeAdjustWindowSize t now c;
            c = c\<lparr>fc_receiveWindow := fc_bytesRead c + fc_receiveWindowSize c\<rparr> in
        (fc_receiveWindow c, c))"

definition checkFlowControlViolation :: "baseFlowController \<Rightarrow> bool" where
  "checkFlowControlViolation c = (fc_highestReceived c > fc_receiveWindow c)"

section \<open>The connection\<close>

definition NewConnectionFlowController :: "ByteCount \<Rightarrow> ByteCount \<Rightarrow> baseFlowController" where
  "NewConnectionFlowController receiveWindow maxReceiveWindow =
     \<lparr>fc_bytesSent = 0, fc_sendWindow = 0, fc_lastBlockedAt = 0, fc_bytesRead = 0, fc_highestReceived = 0,
      fc_receiveWindow = receiveWindow, fc_receiveWindowSize = receiveWindow, fc_maxReceiveWindowSize = maxReceiveWindow,
      fc_epochStartTime = 0, fc_epochStartOffset = 0\<rparr>"

definition IncrementHighestReceived :: "ByteCount \<Rightarrow> Time \<Rightarrow> baseFlowController \<Rightarrow> flow_error option \<times> baseFlowController" where
  "IncrementHighestReceived increment now c =
     (let c = (if fc_highestReceived c = 0 then startNewAutoTuningEpoch now c else c);
          c = c\<lparr>fc_highestReceived := fc_highestReceived c + increment\<rparr> in
      (if checkFlowControlViolation c then Some (FlowControlError (fc_highestReceived c) (fc_receiveWindow c)) else None, c))"

definition conn_AddBytesRead :: "ByteCount \<Rightarrow> baseFlowController \<Rightarrow> bool \<times> baseFlowController" where
  "conn_AddBytesRead n c = (let c = addBytesRead n c in (hasWindowUpdate c, c))"

definition conn_GetWindowUpdate :: "tuning \<Rightarrow> Time \<Rightarrow> baseFlowController \<Rightarrow> ByteCount \<times> baseFlowController" where
  "conn_GetWindowUpdate t now c = getWindowUpdate t now c"

definition EnsureMinimumWindowSize :: "tuning \<Rightarrow> ByteCount \<Rightarrow> Time \<Rightarrow> baseFlowController \<Rightarrow> flow_panic + baseFlowController" where
  "EnsureMinimumWindowSize t inc now c =
     (if inc \<le> fc_receiveWindowSize c then Inr c
      else
        let newSize = min inc (fc_maxReceiveWindowSize c);
            delta = newSize - fc_receiveWindowSize c in
        if delta > 0 then
          (case tn_allow t of None \<Rightarrow> Inl NilFunction
           | Some allow \<Rightarrow>
               Inr (startNewAutoTuningEpoch now (if allow delta then c\<lparr>fc_receiveWindowSize := newSize\<rparr> else c)))
        else Inr (startNewAutoTuningEpoch now c))"

definition Reset :: "baseFlowController \<Rightarrow> bool \<times> baseFlowController" where
  "Reset c =
     (if fc_bytesRead c > 0 \<or> fc_highestReceived c > 0 \<or> fc_epochStartTime c \<noteq> 0 then (False, c)
      else (True, c\<lparr>fc_bytesSent := 0, fc_lastBlockedAt := 0, fc_sendWindow := 0\<rparr>))"

section \<open>A stream\<close>

record streamFlowController =
  sfc_base :: baseFlowController
  sfc_streamID :: StreamID
  sfc_receivedFinalOffset :: bool

definition NewStreamFlowController :: "StreamID \<Rightarrow> ByteCount \<Rightarrow> ByteCount \<Rightarrow> ByteCount \<Rightarrow> streamFlowController" where
  "NewStreamFlowController streamID receiveWindow maxReceiveWindow initialSendWindow =
     \<lparr>sfc_base = (NewConnectionFlowController receiveWindow maxReceiveWindow)\<lparr>fc_sendWindow := initialSendWindow\<rparr>,
      sfc_streamID = streamID, sfc_receivedFinalOffset = False\<rparr>"

definition UpdateHighestReceived :: "ByteCount \<Rightarrow> bool \<Rightarrow> Time \<Rightarrow> streamFlowController \<Rightarrow> baseFlowController
    \<Rightarrow> flow_error option \<times> streamFlowController \<times> baseFlowController" where
  "UpdateHighestReceived offset final now s conn =
     (let highest = fc_highestReceived (sfc_base s) in
      if sfc_receivedFinalOffset s \<and> final \<and> offset \<noteq> highest then (Some (FinalSizeError highest offset), s, conn)
      else if sfc_receivedFinalOffset s \<and> offset > highest then (Some (FinalSizeError highest offset), s, conn)
      else
        let s = (if final then s\<lparr>sfc_receivedFinalOffset := True\<rparr> else s) in
        if offset = highest then (None, s, conn)
        else if offset < highest then
          (if final then Some (FinalSizeError highest offset) else None, s, conn)
        else
          let b = (if highest = 0 then startNewAutoTuningEpoch now (sfc_base s) else sfc_base s);
              increment = offset - highest;
              b = b\<lparr>fc_highestReceived := offset\<rparr>;
              s = s\<lparr>sfc_base := b\<rparr> in
          if checkFlowControlViolation b then (Some (FlowControlError offset (fc_receiveWindow b)), s, conn)
          else
            let (e, conn) = IncrementHighestReceived increment now conn in (e, s, conn))"

definition shouldQueueWindowUpdate :: "streamFlowController \<Rightarrow> bool" where
  "shouldQueueWindowUpdate s = (\<not> sfc_receivedFinalOffset s \<and> hasWindowUpdate (sfc_base s))"

definition stream_AddBytesRead :: "ByteCount \<Rightarrow> streamFlowController \<Rightarrow> baseFlowController
    \<Rightarrow> bool \<times> bool \<times> streamFlowController \<times> baseFlowController" where
  "stream_AddBytesRead n s conn =
     (let s = s\<lparr>sfc_base := addBytesRead n (sfc_base s)\<rparr>;
          (hasConn, conn) = conn_AddBytesRead n conn in
      (shouldQueueWindowUpdate s, hasConn, s, conn))"

definition Abandon :: "streamFlowController \<Rightarrow> baseFlowController \<Rightarrow> streamFlowController \<times> baseFlowController" where
  "Abandon s conn =
     (let b = sfc_base s;
          unread = fc_highestReceived b - fc_bytesRead b;
          s = s\<lparr>sfc_base := b\<lparr>fc_bytesRead := fc_highestReceived b\<rparr>\<rparr> in
      (s, if unread > 0 then snd (conn_AddBytesRead unread conn) else conn))"

definition stream_AddBytesSent :: "ByteCount \<Rightarrow> streamFlowController \<Rightarrow> baseFlowController
    \<Rightarrow> streamFlowController \<times> baseFlowController" where
  "stream_AddBytesSent n s conn = (s\<lparr>sfc_base := AddBytesSent n (sfc_base s)\<rparr>, AddBytesSent n conn)"

definition stream_SendWindowSize :: "streamFlowController \<Rightarrow> baseFlowController \<Rightarrow> ByteCount" where
  "stream_SendWindowSize s conn = min (SendWindowSize (sfc_base s)) (SendWindowSize conn)"

definition stream_IsNewlyBlocked :: "streamFlowController \<Rightarrow> bool \<times> streamFlowController" where
  "stream_IsNewlyBlocked s = (let (blocked, _, b) = IsNewlyBlocked (sfc_base s) in (blocked, s\<lparr>sfc_base := b\<rparr>))"

text \<open>The stream's own controller has no callback; that of \<open>t\<close> is the connection's.\<close>

definition stream_GetWindowUpdate :: "tuning \<Rightarrow> Time \<Rightarrow> streamFlowController \<Rightarrow> baseFlowController
    \<Rightarrow> flow_panic + (ByteCount \<times> streamFlowController \<times> baseFlowController)" where
  "stream_GetWindowUpdate t now s conn =
     (if sfc_receivedFinalOffset s then Inr (0, s, conn)
      else
        let oldWindowSize = fc_receiveWindowSize (sfc_base s);
            (offset, b) = getWindowUpdate (t\<lparr>tn_allow := None\<rparr>) now (sfc_base s);
            s = s\<lparr>sfc_base := b\<rparr> in
        if fc_receiveWindowSize b > oldWindowSize then
          rbind (EnsureMinimumWindowSize t (3 * fc_receiveWindowSize b div 2) now conn) (\<lambda>conn. Inr (offset, s, conn))
        else Inr (offset, s, conn))"

section \<open>What the operations keep\<close>

text \<open>The receiving half of a controller: what was read was received, and the window is at most one window size ahead of
  what was read.\<close>

definition recv_ok :: "baseFlowController \<Rightarrow> bool" where
  "recv_ok c = (0 \<le> fc_bytesRead c \<and> fc_bytesRead c \<le> fc_highestReceived c \<and> fc_highestReceived c \<le> fc_receiveWindow c
     \<and> fc_receiveWindow c \<le> fc_bytesRead c + fc_receiveWindowSize c \<and> 0 \<le> fc_receiveWindowSize c
     \<and> fc_receiveWindowSize c \<le> fc_maxReceiveWindowSize c)"

text \<open>The fields an operation leaves alone.\<close>

definition same_send :: "baseFlowController \<Rightarrow> baseFlowController \<Rightarrow> bool" where
  "same_send c c' = (fc_bytesSent c' = fc_bytesSent c \<and> fc_sendWindow c' = fc_sendWindow c
     \<and> fc_maxReceiveWindowSize c' = fc_maxReceiveWindowSize c)"

definition same_data :: "baseFlowController \<Rightarrow> baseFlowController \<Rightarrow> bool" where
  "same_data c c' = (fc_bytesRead c' = fc_bytesRead c \<and> fc_highestReceived c' = fc_highestReceived c)"

lemma maybeAdjust:
  assumes "maybeAdjustWindowSize t now c = c'" "fc_receiveWindowSize c \<le> fc_maxReceiveWindowSize c"
  shows "same_send c c'" "same_data c c'" "fc_receiveWindow c' = fc_receiveWindow c"
    "fc_receiveWindowSize c \<le> fc_receiveWindowSize c'" "fc_receiveWindowSize c' \<le> fc_maxReceiveWindowSize c"
  using assms
  by (auto simp: maybeAdjustWindowSize_def Let_def startNewAutoTuningEpoch_def same_send_def same_data_def split: if_splits)

lemma getWindowUpdate_spec:
  assumes "recv_ok c" "getWindowUpdate t now c = (w, c')"
  shows "recv_ok c'" "same_send c c'" "same_data c c'" "fc_receiveWindow c \<le> fc_receiveWindow c'" "w \<le> fc_receiveWindow c'"
    "fc_receiveWindowSize c \<le> fc_receiveWindowSize c'"
proof -
  define c1 where "c1 = maybeAdjustWindowSize t now c"
  have m: "same_send c c1" "same_data c c1" "fc_receiveWindow c1 = fc_receiveWindow c"
    "fc_receiveWindowSize c \<le> fc_receiveWindowSize c1" "fc_receiveWindowSize c1 \<le> fc_maxReceiveWindowSize c"
    using maybeAdjust [OF c1_def [symmetric]] assms(1) by (auto simp: recv_ok_def)
  define c2 where "c2 = c1\<lparr>fc_receiveWindow := fc_bytesRead c1 + fc_receiveWindowSize c1\<rparr>"
  have g: "(if \<not> hasWindowUpdate c then (0, c) else (fc_receiveWindow c2, c2)) = (w, c')"
    using assms(2) unfolding getWindowUpdate_def Let_def c1_def [symmetric] c2_def [symmetric] .
  have "recv_ok c' \<and> same_send c c' \<and> same_data c c' \<and> fc_receiveWindow c \<le> fc_receiveWindow c' \<and> w \<le> fc_receiveWindow c'
    \<and> fc_receiveWindowSize c \<le> fc_receiveWindowSize c'"
  proof (cases "hasWindowUpdate c")
    case True
    then have "c' = c2" "w = fc_receiveWindow c2" using g by auto
    then show ?thesis using assms(1) m by (simp add: recv_ok_def same_send_def same_data_def c2_def)
  next
    case False
    then have "c' = c" "w = 0" using g by auto
    then show ?thesis using assms(1) by (simp add: recv_ok_def same_send_def same_data_def)
  qed
  then show "recv_ok c'" "same_send c c'" "same_data c c'" "fc_receiveWindow c \<le> fc_receiveWindow c'" "w \<le> fc_receiveWindow c'"
    "fc_receiveWindowSize c \<le> fc_receiveWindowSize c'" by auto
qed

lemma EnsureMinimum_spec:
  assumes "recv_ok c" "EnsureMinimumWindowSize t inc now c = Inr c'"
  shows "recv_ok c'" "same_send c c'" "same_data c c'" "fc_receiveWindow c' = fc_receiveWindow c"
    "fc_receiveWindowSize c \<le> fc_receiveWindowSize c'"
  using assms
  by (auto simp: EnsureMinimumWindowSize_def Let_def startNewAutoTuningEpoch_def recv_ok_def same_send_def same_data_def
      split: if_splits option.splits)

end
