(* ===== verification/Quic_Flow_Recv.thy ===== *)
theory Quic_Flow_Recv
  imports Quic_Flow_Control
begin

text \<open>
  The receiving endpoint of \<open>quic/internal/flowcontrol\<close>: a connection and any number of streams, whose moves are the operations of
  the controllers in any order. Whatever the peer sends, the invariant bounds the data that has to be buffered.
\<close>

section \<open>The receiver\<close>

record flow_recv =
  fr_conn :: baseFlowController
  fr_streams :: "StreamID \<Rightarrow> streamFlowController"
  fr_ids :: "StreamID set"

abbreviation rstream :: "flow_recv \<Rightarrow> StreamID \<Rightarrow> baseFlowController" where
  "rstream r i \<equiv> sfc_base (fr_streams r i)"

definition set_stream :: "flow_recv \<Rightarrow> StreamID \<Rightarrow> streamFlowController \<Rightarrow> baseFlowController \<Rightarrow> flow_recv" where
  "set_stream r i s c = r\<lparr>fr_conn := c, fr_streams := (fr_streams r)(i := s)\<rparr>"

definition open_stream :: "flow_recv \<Rightarrow> StreamID \<Rightarrow> streamFlowController \<Rightarrow> flow_recv" where
  "open_stream r i s = r\<lparr>fr_streams := (fr_streams r)(i := s), fr_ids := insert i (fr_ids r)\<rparr>"

text \<open>Moves that do not depend on the peer: reading, giving up a stream, and window updates, which are sent to the peer.\<close>

inductive recv_local :: "flow_recv \<Rightarrow> (StreamID option \<times> ByteCount) set \<Rightarrow> flow_recv \<Rightarrow> bool" where
  read: "i \<in> fr_ids r \<Longrightarrow> 0 \<le> n \<Longrightarrow> n \<le> fc_highestReceived (rstream r i) - fc_bytesRead (rstream r i)
    \<Longrightarrow> stream_AddBytesRead n (fr_streams r i) (fr_conn r) = (hasStream, hasConn, s, c)
    \<Longrightarrow> recv_local r {} (set_stream r i s c)"
| abandon: "i \<in> fr_ids r \<Longrightarrow> Abandon (fr_streams r i) (fr_conn r) = (s, c) \<Longrightarrow> recv_local r {} (set_stream r i s c)"
| stream_update: "i \<in> fr_ids r \<Longrightarrow> stream_GetWindowUpdate t now (fr_streams r i) (fr_conn r) = Inr (w, s, c)
    \<Longrightarrow> recv_local r {(Some i, w)} (set_stream r i s c)"
| conn_update: "conn_GetWindowUpdate t now (fr_conn r) = (w, c) \<Longrightarrow> recv_local r {(None, w)} (r\<lparr>fr_conn := c\<rparr>)"

text \<open>With an arbitrary peer: streams are opened, and data with any offset arrives as long as no error is reported.\<close>

inductive recv_reach :: "ByteCount \<Rightarrow> ByteCount \<Rightarrow> flow_recv \<Rightarrow> bool" for w0 max0 where
  new: "recv_reach w0 max0 \<lparr>fr_conn = NewConnectionFlowController w0 max0, fr_streams = f, fr_ids = {}\<rparr>"
| open_new: "recv_reach w0 max0 r \<Longrightarrow> i \<notin> fr_ids r \<Longrightarrow> 0 \<le> w \<Longrightarrow> w \<le> m
    \<Longrightarrow> recv_reach w0 max0 (open_stream r i (NewStreamFlowController i w m x))"
| data: "recv_reach w0 max0 r \<Longrightarrow> i \<in> fr_ids r
    \<Longrightarrow> UpdateHighestReceived offset final now (fr_streams r i) (fr_conn r) = (None, s, c)
    \<Longrightarrow> recv_reach w0 max0 (set_stream r i s c)"
| own: "recv_reach w0 max0 r \<Longrightarrow> recv_local r credit r' \<Longrightarrow> recv_reach w0 max0 r'"

definition recv_inv :: "flow_recv \<Rightarrow> bool" where
  "recv_inv r = (finite (fr_ids r) \<and> recv_ok (fr_conn r) \<and> (\<forall>i\<in>fr_ids r. recv_ok (rstream r i))
     \<and> fc_bytesRead (fr_conn r) = (\<Sum>i\<in>fr_ids r. fc_bytesRead (rstream r i))
     \<and> fc_highestReceived (fr_conn r) = (\<Sum>i\<in>fr_ids r. fc_highestReceived (rstream r i)))"

lemma sum_upd:
  fixes h :: "'b \<Rightarrow> int"
  assumes "finite A" "i \<in> A"
  shows "(\<Sum>j\<in>A. h ((f(i := x)) j)) = (\<Sum>j\<in>A. h (f j)) - h (f i) + h x"
proof -
  have "(\<Sum>j\<in>A. h ((f(i := x)) j)) = h x + (\<Sum>j\<in>A - {i}. h (f j))"
    using sum.remove [OF assms, of "\<lambda>j. h ((f(i := x)) j)"] by simp
  then show ?thesis using sum.remove [OF assms, of "\<lambda>j. h (f j)"] by simp
qed

text \<open>A move of one stream together with the connection keeps the invariant if both change alike.\<close>

lemma recv_inv_set:
  assumes "recv_inv r" "i \<in> fr_ids r" "recv_ok (sfc_base s)" "recv_ok c"
    and "fc_bytesRead c - fc_bytesRead (fr_conn r) = fc_bytesRead (sfc_base s) - fc_bytesRead (rstream r i)"
    and "fc_highestReceived c - fc_highestReceived (fr_conn r) = fc_highestReceived (sfc_base s) - fc_highestReceived (rstream r i)"
  shows "recv_inv (set_stream r i s c)"
proof -
  have fin: "finite (fr_ids r)" using assms(1) by (simp add: recv_inv_def)
  have "(\<Sum>j\<in>fr_ids r. g (sfc_base (((fr_streams r)(i := s)) j)))
      = (\<Sum>j\<in>fr_ids r. g (rstream r j)) - g (rstream r i) + g (sfc_base s)" for g :: "baseFlowController \<Rightarrow> int"
    using sum_upd [OF fin assms(2), of "\<lambda>s. g (sfc_base s)"] by simp
  then show ?thesis using assms unfolding recv_inv_def set_stream_def by (simp add: fun_upd_apply)
qed

lemma conn_unread:
  assumes "recv_inv r" "i \<in> fr_ids r"
  shows "fc_highestReceived (rstream r i) - fc_bytesRead (rstream r i) \<le> fc_highestReceived (fr_conn r) - fc_bytesRead (fr_conn r)"
proof -
  let ?u = "\<lambda>j. fc_highestReceived (rstream r j) - fc_bytesRead (rstream r j)"
  have "0 \<le> ?u j" if "j \<in> fr_ids r" for j using assms(1) that by (auto simp: recv_inv_def recv_ok_def)
  then have "?u i \<le> (\<Sum>j\<in>fr_ids r. ?u j)" using assms by (intro member_le_sum) (auto simp: recv_inv_def)
  then show ?thesis using assms(1) by (simp add: recv_inv_def sum_subtractf)
qed

lemma UpdateHighestReceived_spec:
  assumes "UpdateHighestReceived offset final now s conn = (None, s', conn')" "recv_ok (sfc_base s)" "recv_ok conn"
  shows "recv_ok (sfc_base s')" "recv_ok conn'" "same_send (sfc_base s) (sfc_base s')" "same_send conn conn'"
    "fc_receiveWindow (sfc_base s') = fc_receiveWindow (sfc_base s)" "fc_receiveWindow conn' = fc_receiveWindow conn"
    "fc_bytesRead (sfc_base s') = fc_bytesRead (sfc_base s)" "fc_bytesRead conn' = fc_bytesRead conn"
    "fc_highestReceived (sfc_base s') = max offset (fc_highestReceived (sfc_base s))"
    "fc_highestReceived conn' - fc_highestReceived conn = fc_highestReceived (sfc_base s') - fc_highestReceived (sfc_base s)"
    "sfc_receivedFinalOffset s' \<longleftrightarrow> sfc_receivedFinalOffset s \<or> final"
    "final \<Longrightarrow> offset = fc_highestReceived (sfc_base s')"
    "fc_receiveWindowSize conn' = fc_receiveWindowSize conn"
  using assms
  by (auto simp: UpdateHighestReceived_def IncrementHighestReceived_def startNewAutoTuningEpoch_def checkFlowControlViolation_def
      recv_ok_def same_send_def Let_def split: if_splits)

lemma stream_GetWindowUpdate_spec:
  assumes "stream_GetWindowUpdate t now s conn = Inr (w, s', conn')" "recv_ok (sfc_base s)" "recv_ok conn"
  shows "recv_ok (sfc_base s') \<and> recv_ok conn' \<and> same_data (sfc_base s) (sfc_base s') \<and> same_data conn conn' \<and> same_send conn conn'
    \<and> fc_receiveWindow (sfc_base s) \<le> fc_receiveWindow (sfc_base s') \<and> fc_receiveWindow conn' = fc_receiveWindow conn
    \<and> w \<le> fc_receiveWindow (sfc_base s') \<and> sfc_receivedFinalOffset s' = sfc_receivedFinalOffset s
    \<and> fc_receiveWindowSize conn \<le> fc_receiveWindowSize conn'"
proof (cases "sfc_receivedFinalOffset s")
  case True
  then show ?thesis using assms by (auto simp: stream_GetWindowUpdate_def same_data_def same_send_def recv_ok_def)
next
  case False
  obtain off b where g: "getWindowUpdate (t\<lparr>tn_allow := None\<rparr>) now (sfc_base s) = (off, b)" by fastforce
  note gs = getWindowUpdate_spec [OF assms(2) g]
  have "w = off" "s' = s\<lparr>sfc_base := b\<rparr>" and c: "conn' = conn \<or> EnsureMinimumWindowSize t (3 * fc_receiveWindowSize b div 2) now conn = Inr conn'"
    using assms(1) False g by (auto simp: stream_GetWindowUpdate_def Let_def rbind_eq_Inr split: if_splits)
  moreover have "recv_ok conn' \<and> same_data conn conn' \<and> same_send conn conn' \<and> fc_receiveWindow conn' = fc_receiveWindow conn
    \<and> fc_receiveWindowSize conn \<le> fc_receiveWindowSize conn'"
    using c assms(3) EnsureMinimum_spec [OF assms(3)] by (auto simp: same_data_def same_send_def)
  ultimately show ?thesis using gs by simp
qed

text \<open>What every own move of the receiver does: it keeps the invariant, no window shrinks, no byte is added, and the credit it
  sends is covered by a window.\<close>

definition own_ok :: "flow_recv \<Rightarrow> (StreamID option \<times> ByteCount) set \<Rightarrow> flow_recv \<Rightarrow> bool" where
  "own_ok r credit r' = (recv_inv r' \<and> fr_ids r' = fr_ids r \<and> same_send (fr_conn r) (fr_conn r')
    \<and> fc_receiveWindow (fr_conn r) \<le> fc_receiveWindow (fr_conn r')
    \<and> fc_receiveWindowSize (fr_conn r) \<le> fc_receiveWindowSize (fr_conn r')
    \<and> (\<forall>i\<in>fr_ids r. fc_receiveWindow (rstream r i) \<le> fc_receiveWindow (rstream r' i)
      \<and> fc_highestReceived (rstream r' i) = fc_highestReceived (rstream r i)
      \<and> sfc_receivedFinalOffset (fr_streams r' i) = sfc_receivedFinalOffset (fr_streams r i))
    \<and> (\<forall>i w. (Some i, w) \<in> credit \<longrightarrow> i \<in> fr_ids r \<and> w \<le> fc_receiveWindow (rstream r' i))
    \<and> (\<forall>w. (None, w) \<in> credit \<longrightarrow> w \<le> fc_receiveWindow (fr_conn r')))"

lemma own_ok_set:
  assumes "recv_inv r" "i \<in> fr_ids r" "recv_ok (sfc_base s)" "recv_ok c" "same_send (fr_conn r) c"
    and "fc_bytesRead c - fc_bytesRead (fr_conn r) = fc_bytesRead (sfc_base s) - fc_bytesRead (rstream r i)"
    and "fc_highestReceived c = fc_highestReceived (fr_conn r)" "fc_highestReceived (sfc_base s) = fc_highestReceived (rstream r i)"
    and "fc_receiveWindow (fr_conn r) \<le> fc_receiveWindow c" "fc_receiveWindow (rstream r i) \<le> fc_receiveWindow (sfc_base s)"
    and "sfc_receivedFinalOffset s = sfc_receivedFinalOffset (fr_streams r i)"
    and "fc_receiveWindowSize (fr_conn r) \<le> fc_receiveWindowSize c"
    and "credit \<subseteq> {(Some i, w)}" "w \<le> fc_receiveWindow (sfc_base s)"
  shows "own_ok r credit (set_stream r i s c)"
  using recv_inv_set [OF assms(1-4,6)] assms unfolding own_ok_def by (auto simp: set_stream_def)

lemma recv_local_spec:
  assumes "recv_local r credit r'" "recv_inv r"
  shows "own_ok r credit r'"
  using assms
proof cases
  case (read i n hasStream hasConn s c)
  have ok: "recv_ok (rstream r i)" "recv_ok (fr_conn r)" using assms(2) read(3) by (auto simp: recv_inv_def)
  have r: "s = (fr_streams r i)\<lparr>sfc_base := addBytesRead n (rstream r i)\<rparr>" "c = addBytesRead n (fr_conn r)"
    using read(6) by (auto simp: stream_AddBytesRead_def conn_AddBytesRead_def Let_def)
  have le: "n \<le> fc_highestReceived (fr_conn r) - fc_bytesRead (fr_conn r)"
    using conn_unread [OF assms(2) read(3)] read(5) by simp
  show ?thesis unfolding read(2)
    by (rule own_ok_set [OF assms(2) read(3), where w = 0])
      (use ok r le read(1,4,5) in \<open>auto simp: addBytesRead_def recv_ok_def same_send_def\<close>)
next
  case (abandon i s c)
  have ok: "recv_ok (rstream r i)" "recv_ok (fr_conn r)" using assms(2) abandon(3) by (auto simp: recv_inv_def)
  show ?thesis unfolding abandon(2)
    by (rule own_ok_set [OF assms(2) abandon(3), where w = 0])
      (use ok abandon(1,4) conn_unread [OF assms(2) abandon(3)]
        in \<open>auto simp: Abandon_def conn_AddBytesRead_def addBytesRead_def Let_def recv_ok_def same_send_def split: if_splits\<close>)
next
  case (stream_update i t now w s c)
  have ok: "recv_ok (rstream r i)" "recv_ok (fr_conn r)" using assms(2) stream_update(3) by (auto simp: recv_inv_def)
  show ?thesis unfolding stream_update(2)
    by (rule own_ok_set [OF assms(2) stream_update(3), where w = w])
      (use stream_GetWindowUpdate_spec [OF stream_update(4) ok] stream_update(1) in \<open>auto simp: same_data_def\<close>)
next
  case (conn_update t now w c)
  then have "recv_ok (fr_conn r)" "getWindowUpdate t now (fr_conn r) = (w, c)"
    using assms(2) by (auto simp: recv_inv_def conn_GetWindowUpdate_def)
  from getWindowUpdate_spec [OF this] show ?thesis using assms(2) conn_update by (auto simp: own_ok_def recv_inv_def same_data_def)
qed

lemma recv_inv_open:
  assumes "recv_inv r" "i \<notin> fr_ids r" "0 \<le> w" "w \<le> m"
  shows "recv_inv (open_stream r i (NewStreamFlowController i w m x))"
proof -
  have "(\<Sum>j\<in>fr_ids r. g (sfc_base (((fr_streams r)(i := s)) j))) = (\<Sum>j\<in>fr_ids r. g (rstream r j))" for g :: "baseFlowController \<Rightarrow> int" and s
    using assms(2) by (intro sum.cong) auto
  then show ?thesis using assms
    by (auto simp: recv_inv_def open_stream_def NewStreamFlowController_def NewConnectionFlowController_def recv_ok_def)
qed

lemma recv_reach_inv:
  assumes "recv_reach w0 max0 r" "0 \<le> w0" "w0 \<le> max0"
  shows "recv_inv r \<and> fc_maxReceiveWindowSize (fr_conn r) = max0"
  using assms
proof induction
  case (new f)
  then show ?case by (simp add: recv_inv_def NewConnectionFlowController_def recv_ok_def)
next
  case (open_new r i w m x)
  then show ?case using recv_inv_open [of r i w m x] by (simp add: open_stream_def)
next
  case (data r i offset final now s c)
  have ok: "recv_ok (rstream r i)" "recv_ok (fr_conn r)" using data by (auto simp: recv_inv_def)
  note u = UpdateHighestReceived_spec [OF data.hyps(3) ok]
  have "recv_inv (set_stream r i s c)"
    using data by (intro recv_inv_set [OF _ data.hyps(2) u(1,2)]) (use u(7,8,10) in auto)
  then show ?case using data u(4) by (simp add: set_stream_def same_send_def)
next
  case (own r credit r')
  then show ?case using recv_local_spec [OF own.hyps(2)] by (auto simp: own_ok_def same_send_def)
qed

section \<open>Properties\<close>

text \<open>C11: The data to buffer is bounded, whatever the peer does. After any sequence of opened streams, frames accepted without an
  error, reads, abandoned streams and window updates, the bytes received and not yet read on the connection are
  those of its streams together, and at most the greatest receive window of the connection; on each stream they are
  at most that of the stream. Auto-tuning, callbacks and clocks are arbitrary.\<close>

theorem flow_buffers_bounded:
  assumes "recv_reach w0 max0 r" "0 \<le> w0" "w0 \<le> max0"
  shows "fc_highestReceived (fr_conn r) - fc_bytesRead (fr_conn r)
      = (\<Sum>i\<in>fr_ids r. fc_highestReceived (rstream r i) - fc_bytesRead (rstream r i))
    \<and> fc_highestReceived (fr_conn r) - fc_bytesRead (fr_conn r) \<le> max0
    \<and> (\<forall>i. i \<notin> fr_ids r \<or> 0 \<le> fc_highestReceived (rstream r i) - fc_bytesRead (rstream r i)
        \<and> fc_highestReceived (rstream r i) - fc_bytesRead (rstream r i) \<le> fc_maxReceiveWindowSize (rstream r i))"
  using recv_reach_inv [OF assms] by (auto simp: recv_inv_def recv_ok_def sum_subtractf)

theorem flow_buffers_bounded_witness:
  "let r = set_stream (open_stream \<lparr>fr_conn = NewConnectionFlowController 1000 5000, fr_streams = (\<lambda>_. NewStreamFlowController 0 0 0 0),
         fr_ids = {}\<rparr> 4 (NewStreamFlowController 4 500 600 0)) 4
       ((NewStreamFlowController 4 500 600 0)\<lparr>sfc_base := (sfc_base (NewStreamFlowController 4 500 600 0))\<lparr>fc_highestReceived := 300, fc_epochStartTime := 7\<rparr>\<rparr>)
       ((NewConnectionFlowController 1000 5000)\<lparr>fc_highestReceived := 300, fc_epochStartTime := 7\<rparr>) in
   recv_reach 1000 5000 r \<and> fc_highestReceived (fr_conn r) - fc_bytesRead (fr_conn r) \<le> 5000"
proof -
  let ?r0 = "\<lparr>fr_conn = NewConnectionFlowController 1000 5000, fr_streams = (\<lambda>_. NewStreamFlowController 0 0 0 0), fr_ids = {}\<rparr>"
  let ?r1 = "open_stream ?r0 4 (NewStreamFlowController 4 500 600 0)"
  let ?s = "(NewStreamFlowController 4 500 600 0)\<lparr>sfc_base := (sfc_base (NewStreamFlowController 4 500 600 0))\<lparr>fc_highestReceived := 300, fc_epochStartTime := 7\<rparr>\<rparr>"
  let ?c = "(NewConnectionFlowController 1000 5000)\<lparr>fc_highestReceived := 300, fc_epochStartTime := 7\<rparr>"
  have r1: "recv_reach 1000 5000 ?r1" by (rule open_new [OF new]) simp_all
  have u: "UpdateHighestReceived 300 False 7 (fr_streams ?r1 4) (fr_conn ?r1) = (None, ?s, ?c)"
    by (simp add: UpdateHighestReceived_def open_stream_def NewStreamFlowController_def NewConnectionFlowController_def
        startNewAutoTuningEpoch_def checkFlowControlViolation_def IncrementHighestReceived_def)
  have r: "recv_reach 1000 5000 (set_stream ?r1 4 ?s ?c)" by (rule data [OF r1 _ u]) (simp add: open_stream_def)
  show ?thesis unfolding Let_def using r flow_buffers_bounded [OF r] by (intro conjI) auto
qed

end
