(* ===== verification/Quic_Flow_Net.thy ===== *)
theory Quic_Flow_Net
  imports Quic_Flow_Recv
begin

text \<open>
  Flow control between two endpoints. Against a peer that sends within \<open>SendWindowSize\<close>, over a network that loses,
  reorders and repeats STREAM frames and window updates, no frame is ever refused. What was sent stays in the
  set of messages, and any of them can arrive at any time, any number of times.
\<close>

section \<open>Sender, network and receiver\<close>

record flow_net =
  fn_conn :: baseFlowController
  fn_streams :: "StreamID \<Rightarrow> streamFlowController"
  fn_finished :: "StreamID set"
  fn_recv :: flow_recv
  fn_data :: "(StreamID \<times> ByteCount \<times> bool) set"
  fn_credit :: "(StreamID option \<times> ByteCount) set"

abbreviation sstream :: "flow_net \<Rightarrow> StreamID \<Rightarrow> baseFlowController" where
  "sstream n i \<equiv> sfc_base (fn_streams n i)"

text \<open>At the start the peer knows the initial window of the connection from the transport parameters, and that of a stream when
  it opens it. The sender's own receive windows do not matter and are \<open>a\<close> and \<open>b\<close>.\<close>

inductive net_reach :: "ByteCount \<Rightarrow> ByteCount \<Rightarrow> flow_net \<Rightarrow> bool" for w0 max0 where
  start: "net_reach w0 max0 \<lparr>fn_conn = NewConnectionFlowController a b, fn_streams = f, fn_finished = {},
    fn_recv = \<lparr>fr_conn = NewConnectionFlowController w0 max0, fr_streams = g, fr_ids = {}\<rparr>, fn_data = {}, fn_credit = {(None, w0)}\<rparr>"
| opened: "net_reach w0 max0 n \<Longrightarrow> i \<notin> fr_ids (fn_recv n) \<Longrightarrow> 0 \<le> w \<Longrightarrow> w \<le> m
    \<Longrightarrow> net_reach w0 max0 (n\<lparr>fn_streams := (fn_streams n)(i := NewStreamFlowController i a b w),
          fn_recv := open_stream (fn_recv n) i (NewStreamFlowController i w m x)\<rparr>)"
| sent: "net_reach w0 max0 n \<Longrightarrow> i \<in> fr_ids (fn_recv n) \<Longrightarrow> i \<notin> fn_finished n
    \<Longrightarrow> 0 \<le> k \<Longrightarrow> k \<le> stream_SendWindowSize (fn_streams n i) (fn_conn n)
    \<Longrightarrow> stream_AddBytesSent k (fn_streams n i) (fn_conn n) = (s, c)
    \<Longrightarrow> net_reach w0 max0 (n\<lparr>fn_conn := c, fn_streams := (fn_streams n)(i := s),
          fn_finished := (if final then insert i (fn_finished n) else fn_finished n),
          fn_data := insert (i, fc_bytesSent (sfc_base s), final) (fn_data n)\<rparr>)"
| received: "net_reach w0 max0 n \<Longrightarrow> (i, offset, final) \<in> fn_data n
    \<Longrightarrow> UpdateHighestReceived offset final now (fr_streams (fn_recv n) i) (fr_conn (fn_recv n)) = (None, s, c)
    \<Longrightarrow> net_reach w0 max0 (n\<lparr>fn_recv := set_stream (fn_recv n) i s c\<rparr>)"
| receiver: "net_reach w0 max0 n \<Longrightarrow> recv_local (fn_recv n) credit r
    \<Longrightarrow> net_reach w0 max0 (n\<lparr>fn_recv := r, fn_credit := credit \<union> fn_credit n\<rparr>)"
| stream_credit: "net_reach w0 max0 n \<Longrightarrow> (Some i, w) \<in> fn_credit n \<Longrightarrow> UpdateSendWindow w (sstream n i) = (upd, b)
    \<Longrightarrow> net_reach w0 max0 (n\<lparr>fn_streams := (fn_streams n)(i := (fn_streams n i)\<lparr>sfc_base := b\<rparr>)\<rparr>)"
| conn_credit: "net_reach w0 max0 n \<Longrightarrow> (None, w) \<in> fn_credit n \<Longrightarrow> UpdateSendWindow w (fn_conn n) = (upd, c)
    \<Longrightarrow> net_reach w0 max0 (n\<lparr>fn_conn := c\<rparr>)"

definition stream_agrees :: "flow_net \<Rightarrow> StreamID \<Rightarrow> bool" where
  "stream_agrees n i = (let s = sstream n i; r = rstream (fn_recv n) i in
     fc_highestReceived r \<le> fc_bytesSent s \<and> fc_bytesSent s \<le> fc_sendWindow s \<and> fc_sendWindow s \<le> fc_receiveWindow r
     \<and> (\<forall>w. (Some i, w) \<in> fn_credit n \<longrightarrow> w \<le> fc_receiveWindow r)
     \<and> (sfc_receivedFinalOffset (fr_streams (fn_recv n) i) \<longrightarrow> i \<in> fn_finished n \<and> fc_highestReceived r = fc_bytesSent s)
     \<and> (\<forall>offset final. (i, offset, final) \<in> fn_data n \<longrightarrow> offset \<le> fc_bytesSent s
          \<and> (final \<longrightarrow> i \<in> fn_finished n \<and> offset = fc_bytesSent s)))"

definition net_inv :: "flow_net \<Rightarrow> bool" where
  "net_inv n = (let c = fn_conn n; r = fn_recv n in recv_inv r \<and> (\<forall>i\<in>fr_ids r. stream_agrees n i)
     \<and> fc_bytesSent c = (\<Sum>i\<in>fr_ids r. fc_bytesSent (sstream n i))
     \<and> fc_bytesSent c \<le> fc_sendWindow c \<and> fc_sendWindow c \<le> fc_receiveWindow (fr_conn r)
     \<and> (\<forall>w. (None, w) \<in> fn_credit n \<longrightarrow> w \<le> fc_receiveWindow (fr_conn r))
     \<and> (\<forall>i w. (Some i, w) \<in> fn_credit n \<longrightarrow> i \<in> fr_ids r) \<and> (\<forall>i offset final. (i, offset, final) \<in> fn_data n \<longrightarrow> i \<in> fr_ids r)
     \<and> fn_finished n \<subseteq> fr_ids r)"

text \<open>In such a state no frame is refused.\<close>

lemma deliverable:
  assumes "net_inv n" "(i, offset, final) \<in> fn_data n"
  shows "fst (UpdateHighestReceived offset final now (fr_streams (fn_recv n) i) (fr_conn (fn_recv n))) = None"
proof -
  let ?r = "rstream (fn_recv n) i" and ?s = "sstream n i"
  have i: "i \<in> fr_ids (fn_recv n)" and fin: "finite (fr_ids (fn_recv n))"
    using assms unfolding net_inv_def recv_inv_def Let_def by blast+
  have a: "stream_agrees n j" if "j \<in> fr_ids (fn_recv n)" for j using assms(1) that by (auto simp: net_inv_def Let_def)
  have st: "offset \<le> fc_bytesSent ?s" "fc_bytesSent ?s \<le> fc_receiveWindow ?r" "fc_highestReceived ?r \<le> fc_bytesSent ?s"
    "final \<Longrightarrow> offset = fc_bytesSent ?s"
    "sfc_receivedFinalOffset (fr_streams (fn_recv n) i) \<Longrightarrow> fc_highestReceived ?r = fc_bytesSent ?s"
    using a [OF i] assms(2) by (auto simp: stream_agrees_def Let_def)
  have "(\<Sum>j\<in>fr_ids (fn_recv n) - {i}. fc_highestReceived (rstream (fn_recv n) j)) \<le> (\<Sum>j\<in>fr_ids (fn_recv n) - {i}. fc_bytesSent (sstream n j))"
    using a by (intro sum_mono) (auto simp: stream_agrees_def Let_def)
  then have "fc_highestReceived (fr_conn (fn_recv n)) - fc_highestReceived ?r + fc_bytesSent ?s \<le> fc_receiveWindow (fr_conn (fn_recv n))"
    using assms(1) sum.remove [OF fin i, of "\<lambda>j. fc_highestReceived (rstream (fn_recv n) j)"]
      sum.remove [OF fin i, of "\<lambda>j. fc_bytesSent (sstream n j)"] by (simp add: net_inv_def recv_inv_def Let_def)
  then show ?thesis using st
    by (auto simp: UpdateHighestReceived_def IncrementHighestReceived_def startNewAutoTuningEpoch_def checkFlowControlViolation_def Let_def)
qed

lemma net_invD:
  assumes "net_inv n"
  shows "recv_inv (fn_recv n)" "finite (fr_ids (fn_recv n))" "\<And>i. i \<in> fr_ids (fn_recv n) \<Longrightarrow> stream_agrees n i"
    "fc_bytesSent (fn_conn n) = (\<Sum>i\<in>fr_ids (fn_recv n). fc_bytesSent (sstream n i))"
    "fc_bytesSent (fn_conn n) \<le> fc_sendWindow (fn_conn n)" "fc_sendWindow (fn_conn n) \<le> fc_receiveWindow (fr_conn (fn_recv n))"
    "\<And>w. (None, w) \<in> fn_credit n \<Longrightarrow> w \<le> fc_receiveWindow (fr_conn (fn_recv n))"
    "\<And>i w. (Some i, w) \<in> fn_credit n \<Longrightarrow> i \<in> fr_ids (fn_recv n)"
    "\<And>i offset final. (i, offset, final) \<in> fn_data n \<Longrightarrow> i \<in> fr_ids (fn_recv n)" "fn_finished n \<subseteq> fr_ids (fn_recv n)"
  using assms unfolding net_inv_def recv_inv_def Let_def by blast+

lemma net_inv_opened:
  assumes "net_inv n" "i \<notin> fr_ids (fn_recv n)" "0 \<le> w" "w \<le> m"
  shows "net_inv (n\<lparr>fn_streams := (fn_streams n)(i := NewStreamFlowController i a b w),
          fn_recv := open_stream (fn_recv n) i (NewStreamFlowController i w m x)\<rparr>)" (is "net_inv ?n")
proof -
  note d = net_invD [OF assms(1)]
  have "stream_agrees ?n i" using d(8,9) assms(2,3)
    by (auto simp: stream_agrees_def open_stream_def NewStreamFlowController_def NewConnectionFlowController_def Let_def)
  moreover have "stream_agrees ?n j" if "j \<in> fr_ids (fn_recv n)" for j
    using d(3) [OF that] assms(2) that by (auto simp: stream_agrees_def open_stream_def Let_def)
  ultimately have "\<forall>j\<in>insert i (fr_ids (fn_recv n)). stream_agrees ?n j" by blast
  moreover have "(\<Sum>j\<in>fr_ids (fn_recv n). fc_bytesSent (sfc_base (((fn_streams n)(i := s)) j)))
      = (\<Sum>j\<in>fr_ids (fn_recv n). fc_bytesSent (sstream n j))" for s using assms(2) by (intro sum.cong) auto
  moreover have "recv_inv (fn_recv ?n)" using recv_inv_open [OF d(1) assms(2-4)] by simp
  ultimately show ?thesis using d(2,4-10) assms(2) unfolding net_inv_def Let_def
    by (auto simp: open_stream_def NewStreamFlowController_def NewConnectionFlowController_def)
qed

lemma net_inv_sent:
  assumes "net_inv n" "i \<in> fr_ids (fn_recv n)" "i \<notin> fn_finished n" "0 \<le> k" "k \<le> stream_SendWindowSize (fn_streams n i) (fn_conn n)"
    "stream_AddBytesSent k (fn_streams n i) (fn_conn n) = (s, c)"
  shows "net_inv (n\<lparr>fn_conn := c, fn_streams := (fn_streams n)(i := s),
          fn_finished := (if final then insert i (fn_finished n) else fn_finished n),
          fn_data := insert (i, fc_bytesSent (sfc_base s), final) (fn_data n)\<rparr>)" (is "net_inv ?n")
proof -
  note d = net_invD [OF assms(1)]
  have s: "s = (fn_streams n i)\<lparr>sfc_base := AddBytesSent k (sstream n i)\<rparr>" and c: "c = AddBytesSent k (fn_conn n)"
    using assms(6) by (auto simp: stream_AddBytesSent_def)
  have k: "fc_bytesSent (sstream n i) + k \<le> fc_sendWindow (sstream n i)" "fc_bytesSent (fn_conn n) + k \<le> fc_sendWindow (fn_conn n)"
    using assms(5) d(3) [OF assms(2)] d(5) by (auto simp: stream_SendWindowSize_def SendWindowSize_def stream_agrees_def Let_def split: if_splits)
  have "\<forall>offset final. (i, offset, final) \<in> fn_data n \<longrightarrow> offset \<le> fc_bytesSent (sstream n i) + k \<and> \<not> final"
    using d(3) [OF assms(2)] assms(3,4) unfolding stream_agrees_def Let_def by force
  then have "stream_agrees ?n i" using d(3) [OF assms(2)] k(1) assms(3,4) by (auto simp: stream_agrees_def s AddBytesSent_def Let_def)
  moreover have "stream_agrees ?n j" if "j \<in> fr_ids (fn_recv n)" "j \<noteq> i" for j
    using d(3) [OF that(1)] that(2) by (auto simp: stream_agrees_def Let_def)
  ultimately have "\<forall>j\<in>fr_ids (fn_recv n). stream_agrees ?n j" by blast
  moreover have "(\<Sum>j\<in>fr_ids (fn_recv n). fc_bytesSent (sfc_base (((fn_streams n)(i := s)) j)))
      = (\<Sum>j\<in>fr_ids (fn_recv n). fc_bytesSent (sstream n j)) + k"
  proof -
    have "fc_bytesSent (sfc_base s) = fc_bytesSent (sstream n i) + k" by (simp add: s AddBytesSent_def)
    then show ?thesis using sum_upd [OF d(2) assms(2), of "\<lambda>s. fc_bytesSent (sfc_base s)" "fn_streams n" s] by linarith
  qed
  ultimately show ?thesis using d(1,4-10) assms(2) k(2) unfolding net_inv_def Let_def by (auto simp: c AddBytesSent_def)
qed

lemma net_inv_received:
  assumes "net_inv n" "(i, offset, final) \<in> fn_data n"
    "UpdateHighestReceived offset final now (fr_streams (fn_recv n) i) (fr_conn (fn_recv n)) = (None, s, c)"
  shows "net_inv (n\<lparr>fn_recv := set_stream (fn_recv n) i s c\<rparr>)" (is "net_inv ?n")
proof -
  note d = net_invD [OF assms(1)]
  have i: "i \<in> fr_ids (fn_recv n)" by (rule d(9) [OF assms(2)])
  have ok: "recv_ok (rstream (fn_recv n) i)" "recv_ok (fr_conn (fn_recv n))" using d(1) i by (auto simp: recv_inv_def)
  note u = UpdateHighestReceived_spec [OF assms(3) ok]
  have "recv_inv (fn_recv ?n)" using recv_inv_set [OF d(1) i u(1,2)] u(7,8,10) by simp
  moreover have "stream_agrees ?n i" using d(3) [OF i] assms(2) u(5,9,11,12)
    by (auto simp: stream_agrees_def set_stream_def Let_def)
  moreover have "stream_agrees ?n j" if "j \<in> fr_ids (fn_recv n)" "j \<noteq> i" for j
    using d(3) [OF that(1)] that(2) by (auto simp: stream_agrees_def set_stream_def Let_def)
  ultimately have "recv_inv (fn_recv ?n)" "\<forall>j\<in>fr_ids (fn_recv n). stream_agrees ?n j" by blast+
  then show ?thesis using d(4-10) u(6) unfolding net_inv_def Let_def by (auto simp: set_stream_def)
qed

lemma net_inv_receiver:
  assumes "net_inv n" "recv_local (fn_recv n) credit r"
  shows "net_inv (n\<lparr>fn_recv := r, fn_credit := credit \<union> fn_credit n\<rparr>)" (is "net_inv ?n")
proof -
  note d = net_invD [OF assms(1)]
  have o: "own_ok (fn_recv n) credit r" by (rule recv_local_spec [OF assms(2) d(1)])
  have "stream_agrees ?n j" if "j \<in> fr_ids (fn_recv n)" for j
  proof -
    have w: "fc_receiveWindow (rstream (fn_recv n) j) \<le> fc_receiveWindow (rstream r j)"
      "fc_highestReceived (rstream r j) = fc_highestReceived (rstream (fn_recv n) j)"
      "sfc_receivedFinalOffset (fr_streams r j) = sfc_receivedFinalOffset (fr_streams (fn_recv n) j)"
      "\<forall>w. (Some j, w) \<in> credit \<longrightarrow> w \<le> fc_receiveWindow (rstream r j)"
      using o that by (auto simp: own_ok_def)
    have "\<forall>w. (Some j, w) \<in> credit \<union> fn_credit n \<longrightarrow> w \<le> fc_receiveWindow (rstream r j)"
      using d(3) [OF that] w(1,4) unfolding stream_agrees_def Let_def by (meson Un_iff order_trans)
    then show ?thesis using d(3) [OF that] w(1-3) by (auto simp: stream_agrees_def Let_def)
  qed
  moreover have "\<forall>w. (None, w) \<in> credit \<union> fn_credit n \<longrightarrow> w \<le> fc_receiveWindow (fr_conn r)"
    using d(7) o unfolding own_ok_def by (meson Un_iff order_trans)
  moreover have "recv_inv r" "fr_ids r = fr_ids (fn_recv n)" "fc_receiveWindow (fr_conn (fn_recv n)) \<le> fc_receiveWindow (fr_conn r)"
    "\<forall>i w. (Some i, w) \<in> credit \<longrightarrow> i \<in> fr_ids (fn_recv n)"
    using o unfolding own_ok_def by blast+
  ultimately show ?thesis using d(4-6,8-10) unfolding net_inv_def Let_def by auto
qed

lemma net_inv_credit:
  assumes "net_inv n"
  shows "(Some i, w) \<in> fn_credit n \<Longrightarrow> UpdateSendWindow w (sstream n i) = (upd, b)
      \<Longrightarrow> net_inv (n\<lparr>fn_streams := (fn_streams n)(i := (fn_streams n i)\<lparr>sfc_base := b\<rparr>)\<rparr>)"
    and "(None, w) \<in> fn_credit n \<Longrightarrow> UpdateSendWindow w (fn_conn n) = (upd, c) \<Longrightarrow> net_inv (n\<lparr>fn_conn := c\<rparr>)"
proof -
  note d = net_invD [OF assms]
  show "net_inv (n\<lparr>fn_streams := (fn_streams n)(i := (fn_streams n i)\<lparr>sfc_base := b\<rparr>)\<rparr>)" (is "net_inv ?n")
    if "(Some i, w) \<in> fn_credit n" "UpdateSendWindow w (sstream n i) = (upd, b)"
  proof -
    have i: "i \<in> fr_ids (fn_recv n)" by (rule d(8) [OF that(1)])
    have b: "fc_bytesSent b = fc_bytesSent (sstream n i)" using that(2) by (auto simp: UpdateSendWindow_def split: if_splits)
    have "stream_agrees ?n i" using d(3) [OF i] that by (auto simp: stream_agrees_def UpdateSendWindow_def Let_def split: if_splits)
    moreover have "stream_agrees ?n j" if "j \<in> fr_ids (fn_recv n)" "j \<noteq> i" for j
      using d(3) [OF that(1)] that(2) by (auto simp: stream_agrees_def Let_def)
    ultimately have "\<forall>j\<in>fr_ids (fn_recv n). stream_agrees ?n j" by blast
    moreover have "(\<Sum>j\<in>fr_ids (fn_recv n). fc_bytesSent (sfc_base (((fn_streams n)(i := (fn_streams n i)\<lparr>sfc_base := b\<rparr>)) j)))
        = (\<Sum>j\<in>fr_ids (fn_recv n). fc_bytesSent (sstream n j))"
      using b by (intro sum.cong) auto
    ultimately show ?thesis using d(1,4-10) unfolding net_inv_def Let_def by auto
  qed
  show "net_inv (n\<lparr>fn_conn := c\<rparr>)" if "(None, w) \<in> fn_credit n" "UpdateSendWindow w (fn_conn n) = (upd, c)"
  proof -
    have "stream_agrees (n\<lparr>fn_conn := c\<rparr>) j" if "j \<in> fr_ids (fn_recv n)" for j
      using d(3) [OF that] by (auto simp: stream_agrees_def Let_def)
    then show ?thesis using d(1,4-10) that unfolding net_inv_def Let_def by (auto simp: UpdateSendWindow_def split: if_splits)
  qed
qed

lemma net_reach_inv:
  assumes "net_reach w0 max0 n" "0 \<le> w0" "w0 \<le> max0"
  shows "net_inv n"
  using assms
proof induction
  case (start a b f g)
  then show ?case by (simp add: net_inv_def recv_inv_def NewConnectionFlowController_def recv_ok_def)
qed (simp_all add: net_inv_opened net_inv_sent net_inv_received net_inv_receiver net_inv_credit)

lemma window_size_grows:
  assumes "net_reach w0 max0 n" "0 \<le> w0" "w0 \<le> max0"
  shows "w0 \<le> fc_receiveWindowSize (fr_conn (fn_recv n))"
  using assms
proof induction
  case (received n i offset final now s c)
  have "net_inv n" using net_reach_inv received by blast
  then have "recv_ok (rstream (fn_recv n) i)" "recv_ok (fr_conn (fn_recv n))"
    using net_invD(1,9) received.hyps(2) by (auto simp: recv_inv_def)
  from UpdateHighestReceived_spec(13) [OF received.hyps(3) this] show ?case using received by (simp add: set_stream_def)
next
  case (receiver n credit r)
  have "recv_inv (fn_recv n)" using net_reach_inv [OF receiver.hyps(1)] receiver.prems by (simp add: net_invD)
  from recv_local_spec [OF receiver.hyps(2) this] show ?case using receiver by (auto simp: own_ok_def)
qed (simp_all add: NewConnectionFlowController_def open_stream_def)

section \<open>Properties\<close>

text \<open>C9: A peer that respects its windows is never refused. Let a sender send on any number of streams, always within
  \<open>SendWindowSize\<close> and nothing after the end of a stream, over a network that may lose, delay, reorder and repeat the frames
  and the window updates, to a receiver that reads, abandons streams and updates its windows as it likes. Then
  \<open>UpdateHighestReceived\<close> accepts every frame whenever it arrives: no flow control error and no final size error.\<close>

theorem flow_peer_never_refused:
  assumes "net_reach w0 max0 n" "0 \<le> w0" "w0 \<le> max0" "(i, offset, final) \<in> fn_data n"
  shows "fst (UpdateHighestReceived offset final now (fr_streams (fn_recv n) i) (fr_conn (fn_recv n))) = None"
  by (rule deliverable [OF net_reach_inv [OF assms(1-3)] assms(4)])

text \<open>C10: The connection cannot stall. If the sender has used up the whole window of the connection, knows the receiver's
  current window, and everything it sent has arrived and been read, then the receiver's next \<open>GetWindowUpdate\<close> returns an
  offset that opens the sender's window again.\<close>

theorem flow_never_stalls:
  assumes "net_reach w0 max0 n" "0 < w0" "w0 \<le> max0" "SendWindowSize (fn_conn n) = 0"
    and "fc_sendWindow (fn_conn n) = fc_receiveWindow (fr_conn (fn_recv n))"
    and "fc_bytesRead (fr_conn (fn_recv n)) = fc_bytesSent (fn_conn n)"
  shows "\<exists>w c. conn_GetWindowUpdate t now (fr_conn (fn_recv n)) = (w, c)
    \<and> (\<exists>c'. UpdateSendWindow w (fn_conn n) = (True, c') \<and> SendWindowSize c' > 0)"
proof -
  let ?r = "fr_conn (fn_recv n)" and ?s = "fn_conn n"
  have inv: "net_inv n" using net_reach_inv [OF assms(1)] assms(2,3) by simp
  have size: "w0 \<le> fc_receiveWindowSize ?r" using window_size_grows [OF assms(1)] assms(2,3) by simp
  have ok: "recv_ok ?r" using net_invD(1) [OF inv] by (simp add: recv_inv_def)
  have full: "fc_bytesSent ?s = fc_sendWindow ?s" using assms(4) net_invD(5) [OF inv] by (auto simp: SendWindowSize_def split: if_splits)
  then have has: "hasWindowUpdate ?r" using assms(2,5,6) size by (simp add: hasWindowUpdate_def)
  obtain w c where g: "getWindowUpdate t now ?r = (w, c)" by fastforce
  have "w = fc_bytesRead c + fc_receiveWindowSize c" using g has by (auto simp: getWindowUpdate_def Let_def)
  moreover have "fc_bytesRead c = fc_bytesRead ?r" "fc_receiveWindowSize ?r \<le> fc_receiveWindowSize c"
    using getWindowUpdate_spec(3,6) [OF ok g] by (auto simp: same_data_def)
  ultimately have "w > fc_sendWindow ?s" using assms(2,6) full size by simp
  then show ?thesis using g full by (auto simp: conn_GetWindowUpdate_def UpdateSendWindow_def SendWindowSize_def)
qed

text \<open>A run for the witnesses: the window of the connection is announced, a stream is opened, and all of the window is sent and
  read.\<close>

definition idle_net :: flow_net where
  "idle_net = \<lparr>fn_conn = NewConnectionFlowController 0 0, fn_streams = (\<lambda>_. NewStreamFlowController 0 0 0 0), fn_finished = {},
     fn_recv = \<lparr>fr_conn = NewConnectionFlowController 100 100, fr_streams = (\<lambda>_. NewStreamFlowController 0 0 0 0), fr_ids = {}\<rparr>,
     fn_data = {}, fn_credit = {(None, 100)}\<rparr>"

lemma sample_run:
  obtains n where "net_reach 100 100 n" "(4, 100, True) \<in> fn_data n" "SendWindowSize (fn_conn n) = 0"
    "fc_sendWindow (fn_conn n) = fc_receiveWindow (fr_conn (fn_recv n))"
    "fc_bytesRead (fr_conn (fn_recv n)) = fc_bytesSent (fn_conn n)"
proof -
  let ?n1 = "idle_net\<lparr>fn_conn := (fn_conn idle_net)\<lparr>fc_sendWindow := 100\<rparr>\<rparr>"
  let ?n2 = "?n1\<lparr>fn_streams := (fn_streams ?n1)(4 := NewStreamFlowController 4 0 0 100),
    fn_recv := open_stream (fn_recv ?n1) 4 (NewStreamFlowController 4 100 100 0)\<rparr>"
  have n0: "net_reach 100 100 idle_net" unfolding idle_net_def by (rule start)
  have n1: "net_reach 100 100 ?n1"
    by (rule conn_credit [OF n0, where w = 100 and upd = True]) (simp_all add: idle_net_def UpdateSendWindow_def NewConnectionFlowController_def)
  have n2: "net_reach 100 100 ?n2" by (rule opened [OF n1]) (simp_all add: idle_net_def)
  obtain s c where sc: "stream_AddBytesSent 100 (fn_streams ?n2 4) (fn_conn ?n2) = (s, c)" by fastforce
  let ?n3 = "?n2\<lparr>fn_conn := c, fn_streams := (fn_streams ?n2)(4 := s), fn_finished := {4}, fn_data := {(4, fc_bytesSent (sfc_base s), True)}\<rparr>"
  have n3: "net_reach 100 100 ?n3"
    using sent [OF n2, of 4 100 s c True] sc by (simp add: idle_net_def open_stream_def stream_SendWindowSize_def SendWindowSize_def
        NewStreamFlowController_def NewConnectionFlowController_def)
  have s: "fc_bytesSent (sfc_base s) = 100" "fc_bytesSent c = 100" "fc_sendWindow c = 100"
    using sc by (auto simp: stream_AddBytesSent_def AddBytesSent_def idle_net_def NewStreamFlowController_def NewConnectionFlowController_def)
  obtain s' c' where u: "UpdateHighestReceived 100 True 1 (fr_streams (fn_recv ?n3) 4) (fr_conn (fn_recv ?n3)) = (None, s', c')"
    "fc_highestReceived (sfc_base s') = 100" "fc_bytesRead (sfc_base s') = 0" "fc_bytesRead c' = 0" "fc_receiveWindow c' = 100"
    by (auto simp: UpdateHighestReceived_def IncrementHighestReceived_def startNewAutoTuningEpoch_def checkFlowControlViolation_def
        idle_net_def open_stream_def NewStreamFlowController_def NewConnectionFlowController_def Let_def)
  let ?n4 = "?n3\<lparr>fn_recv := set_stream (fn_recv ?n3) 4 s' c'\<rparr>"
  have n4: "net_reach 100 100 ?n4" by (rule received [OF n3 _ u(1)]) (simp add: s)
  obtain a b s'' c'' where r: "stream_AddBytesRead 100 (fr_streams (fn_recv ?n4) 4) (fr_conn (fn_recv ?n4)) = (a, b, s'', c'')"
    by (metis surj_pair)
  have "recv_local (fn_recv ?n4) {} (set_stream (fn_recv ?n4) 4 s'' c'')"
    by (rule read [OF _ _ _ r]) (simp_all add: set_stream_def idle_net_def open_stream_def u)
  from receiver [OF n4 this] have n5: "net_reach 100 100 (?n4\<lparr>fn_recv := set_stream (fn_recv ?n4) 4 s'' c''\<rparr>)" by simp
  have "fc_bytesRead c'' = 100" "fc_receiveWindow c'' = 100"
    using r u by (auto simp: stream_AddBytesRead_def conn_AddBytesRead_def addBytesRead_def set_stream_def Let_def)
  then show ?thesis using that [OF n5] s by (simp add: SendWindowSize_def set_stream_def)
qed

theorem flow_peer_never_refused_witness:
  "\<exists>n. net_reach 100 100 n \<and> (4, 100, True) \<in> fn_data n
    \<and> fst (UpdateHighestReceived 100 True 9 (fr_streams (fn_recv n) 4) (fr_conn (fn_recv n))) = None"
proof -
  obtain n where n: "net_reach 100 100 n" "(4, 100, True) \<in> fn_data n" by (rule sample_run)
  from flow_peer_never_refused [OF n(1) _ _ n(2), of 9] show ?thesis using n by auto
qed

theorem flow_never_stalls_witness:
  "\<exists>n w c. net_reach 100 100 n \<and> SendWindowSize (fn_conn n) = 0
    \<and> conn_GetWindowUpdate \<lparr>tn_epoch_time = (\<lambda>_ _ _. 0), tn_rtt = 0, tn_allow = None\<rparr> 5 (fr_conn (fn_recv n)) = (w, c)
    \<and> (\<exists>c'. UpdateSendWindow w (fn_conn n) = (True, c') \<and> SendWindowSize c' > 0)"
proof -
  obtain n where n: "net_reach 100 100 n" "SendWindowSize (fn_conn n) = 0"
    "fc_sendWindow (fn_conn n) = fc_receiveWindow (fr_conn (fn_recv n))"
    "fc_bytesRead (fr_conn (fn_recv n)) = fc_bytesSent (fn_conn n)" by (rule sample_run)
  from flow_never_stalls [OF n(1) _ _ n(2-4), of "\<lparr>tn_epoch_time = (\<lambda>_ _ _. 0), tn_rtt = 0, tn_allow = None\<rparr>" 5]
  show ?thesis using n by auto
qed

end
