(* ===== verification/Quic_Packet_History.thy ===== *)
theory Quic_Packet_History
  imports Quic_Ack_Frame
begin

text \<open>
  The packet numbers received so far, \<open>quic/internal/ackhandler/received_packet_history.go\<close>: a sorted list of at most
  \<open>MaxNumAckRanges\<close> ranges that is searched from its end. The list refines a set of packet numbers.
\<close>

abbreviation InvalidPacketNumber :: PacketNumber where "InvalidPacketNumber \<equiv> - 1"

record interval =
  iv_Start :: PacketNumber
  iv_End :: PacketNumber

record receivedPacketHistory =
  rh_ranges :: "interval list"
  rh_deletedBelow :: PacketNumber

definition newReceivedPacketHistory :: receivedPacketHistory where
  "newReceivedPacketHistory = \<lparr>rh_ranges = [], rh_deletedBelow = InvalidPacketNumber\<rparr>"

text \<open>\<open>slices.Insert\<close> of one element and \<open>slices.Delete\<close>.\<close>

definition slices_Insert :: "'a list \<Rightarrow> nat \<Rightarrow> 'a \<Rightarrow> 'a list" where
  "slices_Insert xs i x = take i xs @ x # drop i xs"

definition slices_Delete :: "'a list \<Rightarrow> nat \<Rightarrow> nat \<Rightarrow> 'a list" where
  "slices_Delete xs i j = take i xs @ drop j xs"

section \<open>Operations\<close>

text \<open>The loop of \<open>addToRanges\<close> with \<open>i\<close> ranges still to look at, so that the current index is \<open>i - 1\<close>.\<close>

fun add_loop :: "PacketNumber \<Rightarrow> nat \<Rightarrow> interval list \<Rightarrow> bool \<times> interval list" where
  "add_loop p 0 rs = (True, slices_Insert rs 0 \<lparr>iv_Start = p, iv_End = p\<rparr>)"
| "add_loop p (Suc i) rs =
     (let r = rs ! i in
      if p \<ge> iv_Start r \<and> p \<le> iv_End r then (False, rs)
      else if iv_End r = p - 1 then (True, rs[i := r\<lparr>iv_End := p\<rparr>])
      else if iv_Start r = p + 1 then
        let rs = rs[i := r\<lparr>iv_Start := p\<rparr>] in
        if i > 0 \<and> iv_End (rs ! (i - 1)) + 1 = iv_Start (rs ! i) then
          (True, slices_Delete (rs[i - 1 := (rs ! (i - 1))\<lparr>iv_End := iv_End (rs ! i)\<rparr>]) i (i + 1))
        else (True, rs)
      else if p > iv_End r then (True, slices_Insert rs (i + 1) \<lparr>iv_Start = p, iv_End = p\<rparr>)
      else add_loop p i rs)"

definition addToRanges :: "PacketNumber \<Rightarrow> receivedPacketHistory \<Rightarrow> bool \<times> receivedPacketHistory" where
  "addToRanges p h =
     (if length (rh_ranges h) = 0 then (True, h\<lparr>rh_ranges := rh_ranges h @ [\<lparr>iv_Start = p, iv_End = p\<rparr>]\<rparr>)
      else let (isNew, rs) = add_loop p (length (rh_ranges h)) (rh_ranges h) in (isNew, h\<lparr>rh_ranges := rs\<rparr>))"

definition history_ReceivedPacket :: "PacketNumber \<Rightarrow> receivedPacketHistory \<Rightarrow> bool \<times> receivedPacketHistory" where
  "history_ReceivedPacket p h =
     (if p < rh_deletedBelow h then (False, h)
      else
        let (isNew, h) = addToRanges p h;
            h = (if length (rh_ranges h) > MaxNumAckRanges
                 then h\<lparr>rh_ranges := slices_Delete (rh_ranges h) 0 (length (rh_ranges h) - MaxNumAckRanges)\<rparr> else h)
        in (isNew, h))"

text \<open>The loop of \<open>DeleteBelow\<close> with \<open>n\<close> ranges from index \<open>i\<close> on still to look at.\<close>

fun delete_loop :: "PacketNumber \<Rightarrow> nat \<Rightarrow> nat \<Rightarrow> int \<Rightarrow> interval list \<Rightarrow> int \<times> interval list" where
  "delete_loop p 0 i idx rs = (idx, rs)"
| "delete_loop p (Suc n) i idx rs =
     (let r = rs ! i in
      if iv_End r < p then delete_loop p n (Suc i) (int i) rs
      else if p > iv_Start r \<and> p \<le> iv_End r then (idx, rs[i := r\<lparr>iv_Start := p\<rparr>])
      else (idx, rs))"

definition DeleteBelow :: "PacketNumber \<Rightarrow> receivedPacketHistory \<Rightarrow> receivedPacketHistory" where
  "DeleteBelow p h =
     (if p < rh_deletedBelow h then h
      else
        let h = h\<lparr>rh_deletedBelow := p\<rparr> in
        if length (rh_ranges h) = 0 then h
        else
          let (idx, rs) = delete_loop p (length (rh_ranges h)) 0 (- 1) (rh_ranges h) in
          if idx \<ge> 0 then h\<lparr>rh_ranges := slices_Delete rs 0 (nat (idx + 1))\<rparr> else h\<lparr>rh_ranges := rs\<rparr>)"

definition Backward :: "receivedPacketHistory \<Rightarrow> interval list" where
  "Backward h = rev (rh_ranges h)"

fun missing_loop :: "PacketNumber \<Rightarrow> PacketNumber \<Rightarrow> nat \<Rightarrow> interval list \<Rightarrow> PacketNumber" where
  "missing_loop deletedBelow p 0 rs = p"
| "missing_loop deletedBelow p (Suc i) rs =
     (let r = rs ! i in
      if p \<ge> iv_Start r \<and> p \<le> iv_End r then
        let highest = iv_Start r - 1 in
        if deletedBelow \<noteq> InvalidPacketNumber \<and> highest < deletedBelow then InvalidPacketNumber else highest
      else if i \<ge> 1 \<and> p > iv_End (rs ! (i - 1)) \<and> p \<le> iv_Start r then p
      else missing_loop deletedBelow p i rs)"

definition HighestMissingUpTo :: "PacketNumber \<Rightarrow> receivedPacketHistory \<Rightarrow> PacketNumber" where
  "HighestMissingUpTo p h =
     (if length (rh_ranges h) = 0 \<or> (rh_deletedBelow h \<noteq> InvalidPacketNumber \<and> p < rh_deletedBelow h) then InvalidPacketNumber
      else
        let p = min (iv_End (rh_ranges h ! (length (rh_ranges h) - 1))) p in
        missing_loop (rh_deletedBelow h) p (length (rh_ranges h)) (rh_ranges h))"

fun duplicate_loop :: "PacketNumber \<Rightarrow> nat \<Rightarrow> interval list \<Rightarrow> bool" where
  "duplicate_loop p 0 rs = False"
| "duplicate_loop p (Suc i) rs =
     (let r = rs ! i in
      if p > iv_End r then False
      else if p \<le> iv_End r \<and> p \<ge> iv_Start r then True
      else duplicate_loop p i rs)"

definition history_IsPotentiallyDuplicate :: "PacketNumber \<Rightarrow> receivedPacketHistory \<Rightarrow> bool" where
  "history_IsPotentiallyDuplicate p h =
     (if p < rh_deletedBelow h then True else duplicate_loop p (length (rh_ranges h)) (rh_ranges h))"

section \<open>Well-formed histories and the packets they hold\<close>

definition before :: "interval \<Rightarrow> interval \<Rightarrow> bool" where
  "before a b = (iv_End a + 1 < iv_Start b)"

definition ranges_ok :: "interval list \<Rightarrow> bool" where
  "ranges_ok rs = (sorted_wrt before rs \<and> (\<forall>r\<in>set rs. iv_Start r \<le> iv_End r))"

definition history_wf :: "receivedPacketHistory \<Rightarrow> bool" where
  "history_wf h = (ranges_ok (rh_ranges h) \<and> length (rh_ranges h) \<le> MaxNumAckRanges
     \<and> InvalidPacketNumber \<le> rh_deletedBelow h
     \<and> (\<forall>r\<in>set (rh_ranges h). 0 \<le> iv_Start r \<and> rh_deletedBelow h \<le> iv_Start r))"

definition packets :: "interval list \<Rightarrow> PacketNumber set" where
  "packets rs = (\<Union>r\<in>set rs. {iv_Start r..iv_End r})"

abbreviation history_packets :: "receivedPacketHistory \<Rightarrow> PacketNumber set" where
  "history_packets h \<equiv> packets (rh_ranges h)"

lemma packets_simps [simp]:
  "packets [] = {}" "packets (r # rs) = {iv_Start r..iv_End r} \<union> packets rs" "packets (rs @ rs') = packets rs \<union> packets rs'"
  by (auto simp: packets_def)

lemma ranges_ok_append:
  "ranges_ok (xs @ ys) \<longleftrightarrow> ranges_ok xs \<and> ranges_ok ys \<and> (\<forall>x\<in>set xs. \<forall>y\<in>set ys. before x y)"
  by (auto simp: ranges_ok_def sorted_wrt_append)

lemma ranges_ok_Cons [simp]:
  "ranges_ok [] " "ranges_ok (r # rs) \<longleftrightarrow> iv_Start r \<le> iv_End r \<and> (\<forall>y\<in>set rs. before r y) \<and> ranges_ok rs"
  by (auto simp: ranges_ok_def)

lemma nth_mid [simp]: "(xs @ r # ys) ! length xs = r" "(xs @ r # ys)[length xs := r'] = xs @ r' # ys"
  by (simp_all add: list_update_append)

lemma ranges_ok_last: "ranges_ok xs \<Longrightarrow> x \<in> set xs \<Longrightarrow> iv_End x \<le> iv_End (last xs)"
  by (induction xs rule: rev_induct) (fastforce simp: ranges_ok_append before_def)+

lemma in_packets: "q \<in> packets rs \<longleftrightarrow> (\<exists>r\<in>set rs. iv_Start r \<le> q \<and> q \<le> iv_End r)"
  by (auto simp: packets_def)

text \<open>The outcome of adding \<open>p\<close> to the ranges \<open>rs\<close>.\<close>

definition added :: "PacketNumber \<Rightarrow> interval list \<Rightarrow> bool \<times> interval list \<Rightarrow> bool" where
  "added p rs = (\<lambda>(isNew, rs'). ranges_ok rs' \<and> packets rs' = insert p (packets rs) \<and> (isNew \<longleftrightarrow> p \<notin> packets rs)
     \<and> length rs' \<le> Suc (length rs))"

lemma added_before:
  assumes "ranges_ok (xs @ r # ys)" "iv_Start r = p + 1"
  shows "added p (xs @ r # ys) (add_loop p (Suc (length xs)) (xs @ r # ys))"
proof -
  have ok: "ranges_ok xs" "ranges_ok ys" "iv_Start r \<le> iv_End r" "\<forall>x\<in>set xs. before x r" "\<forall>y\<in>set ys. before r y"
    "\<forall>x\<in>set xs. \<forall>y\<in>set ys. before x y"
    using assms(1) by (auto simp: ranges_ok_append)
  have new: "p \<notin> packets (xs @ r # ys)" using ok assms(2) by (fastforce simp: in_packets before_def)
  show ?thesis
  proof (cases "xs \<noteq> [] \<and> iv_End (last xs) + 1 = p")
    case True
    then obtain zs x where xs: "xs = zs @ [x]" "iv_End x + 1 = p" by (metis append_butlast_last_id last_snoc)
    have "add_loop p (Suc (length xs)) (xs @ r # ys) = (True, zs @ x\<lparr>iv_End := iv_End r\<rparr> # ys)"
      using xs assms(2) ok(3) by (simp add: Let_def nth_append list_update_append slices_Delete_def)
    moreover have "packets (zs @ x\<lparr>iv_End := iv_End r\<rparr> # ys) = insert p (packets (xs @ r # ys))"
      using xs assms(2) ok by (auto simp: ranges_ok_append)
    moreover have "ranges_ok (zs @ x\<lparr>iv_End := iv_End r\<rparr> # ys)"
      using xs assms(2) ok by (auto simp: ranges_ok_append before_def)
    ultimately show ?thesis using new xs(1) by (simp add: added_def)
  next
    case False
    then have far: "iv_End x + 1 < p" if "x \<in> set xs" for x
      using that bspec [OF ok(4), of "last xs"] ranges_ok_last [OF ok(1) that] assms(2) by (cases "xs = []") (auto simp: before_def)
    have "xs \<noteq> [] \<Longrightarrow> (xs @ zs) ! (length xs - 1) = last xs" for zs by (simp add: nth_append last_conv_nth)
    then have "add_loop p (Suc (length xs)) (xs @ r # ys) = (True, xs @ r\<lparr>iv_Start := p\<rparr> # ys)"
      using False assms(2) ok(3) by (auto simp: Let_def)
    moreover have "packets (xs @ r\<lparr>iv_Start := p\<rparr> # ys) = insert p (packets (xs @ r # ys))" using assms(2) ok(3) by auto
    moreover have "ranges_ok (xs @ r\<lparr>iv_Start := p\<rparr> # ys)"
      using far assms(2) ok by (auto simp: ranges_ok_append before_def)
    ultimately show ?thesis using new by (simp add: added_def)
  qed
qed

lemma add_loop_spec:
  "ranges_ok (xs @ ys) \<Longrightarrow> \<forall>y\<in>set ys. p + 1 < iv_Start y \<Longrightarrow> added p (xs @ ys) (add_loop p (length xs) (xs @ ys))"
proof (induction xs arbitrary: ys rule: rev_induct)
  case Nil
  then show ?case by (fastforce simp: added_def slices_Insert_def before_def in_packets)
next
  case (snoc r xs)
  have ok: "ranges_ok (xs @ r # ys)" "iv_Start r \<le> iv_End r" "\<forall>x\<in>set xs. before x r" "\<forall>y\<in>set ys. before r y"
    using snoc.prems(1) by (auto simp: ranges_ok_append)
  consider "iv_Start r \<le> p" "p \<le> iv_End r" | "iv_End r = p - 1" | "iv_Start r = p + 1" | "iv_End r + 1 < p" | "p + 1 < iv_Start r"
    by linarith
  then have "added p (xs @ r # ys) (add_loop p (Suc (length xs)) (xs @ r # ys))"
  proof cases
    case 1
    then show ?thesis using ok by (auto simp: added_def)
  next
    case 2
    then have "p \<notin> packets (xs @ r # ys)" using ok snoc.prems(2) by (fastforce simp: in_packets before_def)
    then show ?thesis using 2 ok snoc.prems(2) by (auto simp: added_def ranges_ok_append before_def)
  next
    case 3
    then show ?thesis using added_before ok(1) by simp
  next
    case 4
    then have "p \<notin> packets (xs @ r # ys)" using ok snoc.prems(2) by (fastforce simp: in_packets before_def)
    then show ?thesis using 4 ok snoc.prems(2)
      by (fastforce simp: added_def ranges_ok_append before_def slices_Insert_def)
  next
    case 5
    then have "add_loop p (Suc (length xs)) (xs @ r # ys) = add_loop p (length xs) (xs @ r # ys)" using ok(2) by simp
    then show ?thesis using snoc.IH [of "r # ys"] 5 ok(1) snoc.prems(2) by simp
  qed
  then show ?case by simp
qed

section \<open>Sets of packet numbers\<close>

text \<open>The number of maximal runs of a set of packet numbers, and its \<open>n\<close> newest runs.\<close>

definition runs :: "PacketNumber set \<Rightarrow> nat" where
  "runs S = card {q\<in>S. q - 1 \<notin> S}"

definition newest_runs :: "nat \<Rightarrow> PacketNumber set \<Rightarrow> PacketNumber set \<Rightarrow> bool" where
  "newest_runs n S S' = (S' \<subseteq> S \<and> (\<forall>x\<in>S'. \<forall>y\<in>S - S'. y + 1 < x) \<and> runs S' = min n (runs S))"

lemma ranges_ok_pairs: "ranges_ok rs \<Longrightarrow> r \<in> set rs \<Longrightarrow> r' \<in> set rs \<Longrightarrow> r = r' \<or> before r r' \<or> before r' r"
  by (induction rs) auto

lemma runs_packets:
  assumes "ranges_ok rs"
  shows "runs (packets rs) = length rs"
proof -
  have "{q \<in> packets rs. q - 1 \<notin> packets rs} = iv_Start ` set rs"
  proof
    show "{q \<in> packets rs. q - 1 \<notin> packets rs} \<subseteq> iv_Start ` set rs"
    proof
      fix q assume q: "q \<in> {q \<in> packets rs. q - 1 \<notin> packets rs}"
      then obtain r where r: "r \<in> set rs" "iv_Start r \<le> q" "q \<le> iv_End r" by (auto simp: in_packets)
      then have "\<not> iv_Start r \<le> q - 1" using q by (auto simp: in_packets)
      then show "q \<in> iv_Start ` set rs" using r by (intro image_eqI [of _ _ r]) auto
    qed
    have "iv_Start r \<in> packets rs \<and> iv_Start r - 1 \<notin> packets rs" if "r \<in> set rs" for r
    proof -
      have "iv_Start r \<le> iv_End r" using assms that by (auto simp: ranges_ok_def)
      moreover have "\<not> (iv_Start r' \<le> iv_Start r - 1 \<and> iv_Start r - 1 \<le> iv_End r')" if "r' \<in> set rs" for r'
        using ranges_ok_pairs [OF assms \<open>r \<in> set rs\<close> that] \<open>iv_Start r \<le> iv_End r\<close> by (auto simp: before_def)
      ultimately show ?thesis using that by (auto simp: in_packets)
    qed
    then show "iv_Start ` set rs \<subseteq> {q \<in> packets rs. q - 1 \<notin> packets rs}" by blast
  qed
  moreover have "distinct (map iv_Start rs)" using assms by (induction rs) (fastforce simp: before_def)+
  then have "card (iv_Start ` set rs) = length rs" using distinct_card [of "map iv_Start rs"] by simp
  ultimately show ?thesis by (simp add: runs_def)
qed

lemma newest_packets:
  assumes "ranges_ok rs"
  shows "newest_runs n (packets rs) (packets (drop (length rs - n) rs))"
proof -
  let ?k = "length rs - n"
  have ok: "ranges_ok (take ?k rs @ drop ?k rs)" using assms by simp
  then have parts: "ranges_ok (drop ?k rs)" "\<forall>x\<in>set (take ?k rs). \<forall>y\<in>set (drop ?k rs). before x y"
    unfolding ranges_ok_append by blast+
  have "runs (packets (drop ?k rs)) = min n (runs (packets rs))"
    using runs_packets [OF parts(1)] runs_packets [OF assms] by simp
  moreover have "y + 1 < x" if x: "x \<in> packets (drop ?k rs)" and y: "y \<in> packets (take ?k rs)" for x y
  proof -
    obtain a b where "a \<in> set (drop ?k rs)" "iv_Start a \<le> x" "b \<in> set (take ?k rs)" "y \<le> iv_End b"
      using x y unfolding in_packets by blast
    moreover from this have "before b a" using parts(2) by blast
    ultimately show ?thesis by (simp add: before_def)
  qed
  moreover have "packets rs = packets (take ?k rs) \<union> packets (drop ?k rs)"
    using packets_simps(3) [of "take ?k rs" "drop ?k rs"] by simp
  ultimately show ?thesis unfolding newest_runs_def by blast
qed

section \<open>The operations on sets\<close>

lemma addToRanges_spec:
  assumes "ranges_ok (rh_ranges h)" "addToRanges p h = (isNew, h')"
  shows "added p (rh_ranges h) (isNew, rh_ranges h')" "rh_deletedBelow h' = rh_deletedBelow h"
proof -
  have "added p (rh_ranges h) (isNew, rh_ranges h') \<and> rh_deletedBelow h' = rh_deletedBelow h"
  proof (cases "rh_ranges h = []")
    case True
    then show ?thesis using assms(2) by (auto simp: addToRanges_def added_def)
  next
    case False
    obtain b rs where l: "add_loop p (length (rh_ranges h)) (rh_ranges h) = (b, rs)" by fastforce
    have "isNew = b \<and> h' = h\<lparr>rh_ranges := rs\<rparr>" using assms(2) False by (simp add: addToRanges_def l)
    then show ?thesis using add_loop_spec [of "rh_ranges h" "[]" p] assms(1) l by simp
  qed
  then show "added p (rh_ranges h) (isNew, rh_ranges h')" "rh_deletedBelow h' = rh_deletedBelow h" by auto
qed

lemma ReceivedPacket_spec:
  assumes "history_wf h" "0 \<le> p" "rh_deletedBelow h \<le> p" "history_ReceivedPacket p h = (isNew, h')"
  shows "history_wf h'" "rh_deletedBelow h' = rh_deletedBelow h" "isNew \<longleftrightarrow> p \<notin> history_packets h"
    "newest_runs MaxNumAckRanges (insert p (history_packets h)) (history_packets h')" "rh_ranges h' \<noteq> []"
proof -
  obtain b g where g: "addToRanges p h = (b, g)" by fastforce
  have ok: "ranges_ok (rh_ranges h)" using assms(1) by (simp add: history_wf_def)
  note spec = addToRanges_spec [OF ok g]
  let ?rs = "drop (length (rh_ranges g) - MaxNumAckRanges) (rh_ranges g)"
  have h': "isNew = b" "h' = g\<lparr>rh_ranges := ?rs\<rparr>"
    using assms(3,4) g by (auto simp: history_ReceivedPacket_def slices_Delete_def split: if_splits)
  have rg: "ranges_ok (rh_ranges g)" "packets (rh_ranges g) = insert p (history_packets h)" using spec(1) by (auto simp: added_def)
  have low: "0 \<le> iv_Start r \<and> rh_deletedBelow h \<le> iv_Start r" if "r \<in> set (rh_ranges g)" for r
  proof -
    have "iv_Start r \<in> insert p (history_packets h)" using that rg by (force simp: in_packets ranges_ok_def)
    then show ?thesis using assms(1-3) by (fastforce simp: in_packets history_wf_def)
  qed
  have "ranges_ok ?rs" using rg(1) by (metis append_take_drop_id ranges_ok_append)
  then show "history_wf h'" using h' low spec(2) assms(1) by (auto simp: history_wf_def dest: in_set_dropD)
  show "rh_deletedBelow h' = rh_deletedBelow h" "isNew \<longleftrightarrow> p \<notin> history_packets h"
    using h' spec by (auto simp: added_def)
  show "newest_runs MaxNumAckRanges (insert p (history_packets h)) (history_packets h')"
    using newest_packets [OF rg(1), of MaxNumAckRanges] h' rg(2) by simp
  show "rh_ranges h' \<noteq> []" using h' rg(2) by (cases "rh_ranges g") auto
qed

fun clip :: "PacketNumber \<Rightarrow> interval list \<Rightarrow> interval list" where
  "clip p [] = []"
| "clip p (r # rs) = (if iv_End r < p then clip p rs else r\<lparr>iv_Start := max (iv_Start r) p\<rparr> # rs)"

lemma delete_loop_clip:
  "delete_loop p (length ys) (length xs) (int (length xs) - 1) (xs @ ys) = (idx, rs)
    \<Longrightarrow> - 1 \<le> idx \<and> drop (nat (idx + 1)) rs = clip p ys"
proof (induction ys arbitrary: xs)
  case (Cons r ys)
  show ?case
  proof (cases "iv_End r < p")
    case True
    then show ?thesis using Cons.IH [of "xs @ [r]"] Cons.prems by simp
  next
    case False
    then have "idx = int (length xs) - 1" "rs = xs @ r\<lparr>iv_Start := max (iv_Start r) p\<rparr> # ys"
      using Cons.prems by (auto simp: Let_def max_def split: if_splits)
    then show ?thesis using False by simp
  qed
qed auto

lemma DeleteBelow_clip:
  "DeleteBelow p h = (if p < rh_deletedBelow h then h else h\<lparr>rh_ranges := clip p (rh_ranges h), rh_deletedBelow := p\<rparr>)"
proof -
  obtain idx rs where l: "delete_loop p (length (rh_ranges h)) 0 (- 1) (rh_ranges h) = (idx, rs)" by fastforce
  show ?thesis using delete_loop_clip [of p "rh_ranges h" "[]"] l
    by (cases "rh_ranges h = []") (auto simp: DeleteBelow_def slices_Delete_def Let_def)
qed

lemma clip_ranges: "ranges_ok rs \<Longrightarrow> ranges_ok (clip p rs) \<and> length (clip p rs) \<le> length rs"
  by (induction rs) (auto simp: before_def)

lemma clip_packets: "ranges_ok rs \<Longrightarrow> packets (clip p rs) = {q \<in> packets rs. p \<le> q}"
proof (induction rs)
  case (Cons r rs)
  show ?case
  proof (cases "iv_End r < p")
    case False
    have "p \<le> q" if "q \<in> packets rs" for q using that Cons.prems False by (force simp: in_packets before_def)
    then show ?thesis using False by auto
  qed (use Cons in auto)
qed simp

lemma clip_starts: "r \<in> set (clip p rs) \<Longrightarrow> ranges_ok rs \<Longrightarrow> p \<le> iv_Start r \<and> (\<exists>r'\<in>set rs. iv_Start r' \<le> iv_Start r)"
proof (induction rs)
  case (Cons a rs)
  show ?case
  proof (cases "iv_End a < p \<or> r = a\<lparr>iv_Start := max (iv_Start a) p\<rparr>")
    case True
    then show ?thesis using Cons by (auto split: if_splits)
  next
    case False
    then have "r \<in> set rs" using Cons.prems(1) by auto
    moreover from this have "before a r" using Cons.prems(2) by auto
    ultimately show ?thesis using False by (auto simp: before_def)
  qed
qed simp

lemma DeleteBelow_wf:
  assumes "history_wf h" "InvalidPacketNumber \<le> p"
  shows "history_wf (DeleteBelow p h)"
proof -
  have ok: "ranges_ok (rh_ranges h)" using assms by (simp add: history_wf_def)
  show ?thesis using assms clip_ranges [OF ok, of p] clip_starts [OF _ ok, of _ p]
    by (fastforce simp: DeleteBelow_clip history_wf_def)
qed

lemma DeleteBelow_packets:
  assumes "history_wf h" "rh_deletedBelow h \<le> p"
  shows "history_packets (DeleteBelow p h) = {q \<in> history_packets h. p \<le> q} \<and> rh_deletedBelow (DeleteBelow p h) = p"
  using assms clip_packets [of "rh_ranges h" p] by (simp add: DeleteBelow_clip history_wf_def)

lemma duplicate_loop_iff:
  "ranges_ok (xs @ ys) \<Longrightarrow> duplicate_loop p (length xs) (xs @ ys) \<longleftrightarrow> p \<in> packets xs"
proof (induction xs arbitrary: ys rule: rev_induct)
  case (snoc r xs)
  have ok: "ranges_ok (xs @ r # ys)" "\<forall>x\<in>set xs. before x r" "iv_Start r \<le> iv_End r" using snoc.prems by (auto simp: ranges_ok_append)
  have "p > iv_End r \<Longrightarrow> p \<notin> packets xs" using ok by (force simp: in_packets before_def)
  then show ?case using snoc.IH [of "r # ys"] ok(1) by (auto simp: Let_def)
qed simp

lemma IsPotentiallyDuplicate_iff:
  "history_wf h \<Longrightarrow> history_IsPotentiallyDuplicate p h \<longleftrightarrow> p < rh_deletedBelow h \<or> p \<in> history_packets h"
  using duplicate_loop_iff [of "rh_ranges h" "[]" p] by (simp add: history_IsPotentiallyDuplicate_def history_wf_def)

text \<open>What \<open>HighestMissingUpTo\<close> is to return: \<open>m\<close> is the greatest number up to \<open>p\<close> and below a packet of \<open>S\<close> that is not in \<open>S\<close>
  and not deleted.\<close>

definition missing_spec :: "PacketNumber \<Rightarrow> PacketNumber set \<Rightarrow> PacketNumber \<Rightarrow> PacketNumber \<Rightarrow> bool" where
  "missing_spec d S p m =
     (if m = InvalidPacketNumber then \<forall>q. 0 \<le> q \<longrightarrow> d \<le> q \<longrightarrow> q \<le> p \<longrightarrow> (\<exists>x\<in>S. q \<le> x) \<longrightarrow> q \<in> S
      else m \<notin> S \<and> 0 \<le> m \<and> d \<le> m \<and> m \<le> p \<and> (\<forall>q. m < q \<longrightarrow> q \<le> p \<longrightarrow> (\<exists>x\<in>S. q \<le> x) \<longrightarrow> q \<in> S))"

lemma missing_loop_spec:
  assumes "ranges_ok (xs @ ys)" "\<forall>r\<in>set (xs @ ys). 0 \<le> iv_Start r \<and> d \<le> iv_Start r" "- 1 \<le> d" "0 \<le> p" "d \<le> p"
    and "\<forall>y\<in>set ys. p < iv_Start y" "xs = [] \<or> p \<le> iv_End (last xs)"
  shows "missing_spec d (packets (xs @ ys)) p (missing_loop d p (length xs) (xs @ ys))"
  using assms
proof (induction xs arbitrary: ys rule: rev_induct)
  case Nil
  then have "p \<notin> packets ys" by (force simp: in_packets)
  then show ?case using Nil by (simp add: missing_spec_def)
next
  case (snoc r xs)
  have ok: "ranges_ok (xs @ r # ys)" "\<forall>x\<in>set xs. before x r" "iv_Start r \<le> iv_End r" "ranges_ok xs"
    using snoc.prems by (auto simp: ranges_ok_append)
  have r: "p \<le> iv_End r" "0 \<le> iv_Start r" "d \<le> iv_Start r" using snoc.prems by auto
  have ys: "q \<notin> packets ys" if "q \<le> p" for q using that snoc.prems(6) by (force simp: in_packets)
  show ?case
  proof (cases "iv_Start r \<le> p")
    case True
    have "iv_Start r - 1 \<notin> packets (xs @ r # ys)" using ok(2) ys [of "iv_Start r - 1"] True by (force simp: in_packets before_def)
    moreover have "q \<in> packets (xs @ r # ys)" if "iv_Start r \<le> q" "q \<le> p" for q using that r(1) by auto
    ultimately show ?thesis using True r snoc.prems(3) by (auto simp: missing_spec_def Let_def)
  next
    case False
    show ?thesis
    proof (cases "xs \<noteq> [] \<and> iv_End (last xs) < p")
      case True
      then have "p \<notin> packets xs" using ranges_ok_last [OF ok(4)] by (force simp: in_packets)
      then have "p \<notin> packets (xs @ r # ys)" using ys [of p] False by simp
      moreover have "missing_loop d p (length (xs @ [r])) ((xs @ [r]) @ ys) = p"
        using True False by (cases xs rule: rev_cases) (auto simp: Let_def nth_append)
      ultimately show ?thesis using snoc.prems(4,5) by (simp add: missing_spec_def)
    next
      case near: False
      have "missing_loop d p (length (xs @ [r])) ((xs @ [r]) @ ys) = missing_loop d p (length xs) (xs @ r # ys)"
        using near False by (cases xs rule: rev_cases) (auto simp: Let_def nth_append)
      moreover have "missing_spec d (packets (xs @ r # ys)) p (missing_loop d p (length xs) (xs @ r # ys))"
        by (rule snoc.IH) (use snoc.prems ok(1) False near in auto)
      ultimately show ?thesis by simp
    qed
  qed
qed

lemma HighestMissingUpTo_spec:
  assumes "history_wf h" "0 \<le> p"
  shows "missing_spec (rh_deletedBelow h) (history_packets h) p (HighestMissingUpTo p h)"
proof (cases "rh_ranges h = [] \<or> p < rh_deletedBelow h")
  case True
  then have "HighestMissingUpTo p h = InvalidPacketNumber" using assms(2) by (auto simp: HighestMissingUpTo_def)
  then show ?thesis using True by (auto simp: missing_spec_def)
next
  case False
  let ?e = "iv_End (last (rh_ranges h))" and ?d = "rh_deletedBelow h"
  have wf: "ranges_ok (rh_ranges h)" "- 1 \<le> ?d" "\<forall>r\<in>set (rh_ranges h). 0 \<le> iv_Start r \<and> ?d \<le> iv_Start r"
    using assms by (auto simp: history_wf_def)
  have lst: "last (rh_ranges h) \<in> set (rh_ranges h)" using False by simp
  then have e: "0 \<le> ?e" "?d \<le> ?e" using wf by (force simp: ranges_ok_def)+
  have "missing_spec ?d (history_packets h) (min ?e p) (missing_loop ?d (min ?e p) (length (rh_ranges h)) (rh_ranges h))"
    using missing_loop_spec [of "rh_ranges h" "[]" ?d "min ?e p"] wf assms(2) e False by simp
  moreover have "HighestMissingUpTo p h = missing_loop ?d (min ?e p) (length (rh_ranges h)) (rh_ranges h)"
    using False by (simp add: HighestMissingUpTo_def last_conv_nth)
  moreover have "x \<le> ?e" if "x \<in> history_packets h" for x
    using that ranges_ok_last [OF wf(1)] by (force simp: in_packets)
  then have "(q \<le> p \<longrightarrow> (\<exists>x\<in>history_packets h. q \<le> x) \<longrightarrow> P) \<longleftrightarrow> (q \<le> min ?e p \<longrightarrow> (\<exists>x\<in>history_packets h. q \<le> x) \<longrightarrow> P)" for q P
    by (auto intro: order_trans)
  ultimately show ?thesis unfolding missing_spec_def by (auto split: if_splits)
qed

section \<open>Properties\<close>

text \<open>C15: The history stays well-formed. Its ranges are sorted, not empty, disjoint and not adjacent, there are at most
  \<open>MaxNumAckRanges\<close> of them, and none reaches below \<open>deletedBelow\<close>: this holds of a new history, and \<open>ReceivedPacket\<close> and
  \<open>DeleteBelow\<close> keep it for every packet number.\<close>

theorem history_well_formed:
  assumes "history_wf h" "0 \<le> p"
  shows "history_wf newReceivedPacketHistory \<and> history_wf (snd (history_ReceivedPacket p h)) \<and> history_wf (DeleteBelow p h)"
proof (intro conjI)
  show "history_wf newReceivedPacketHistory" by (simp add: history_wf_def newReceivedPacketHistory_def)
  show "history_wf (DeleteBelow p h)" using DeleteBelow_wf assms by simp
  show "history_wf (snd (history_ReceivedPacket p h))"
    using ReceivedPacket_spec(1) [OF assms _ surjective_pairing] assms(1)
    by (cases "p < rh_deletedBelow h") (simp_all add: history_ReceivedPacket_def)
qed

definition sample_history :: receivedPacketHistory where
  "sample_history = \<lparr>rh_ranges = [\<lparr>iv_Start = 2, iv_End = 4\<rparr>, \<lparr>iv_Start = 7, iv_End = 7\<rparr>], rh_deletedBelow = 1\<rparr>"

lemma sample_history_wf: "history_wf sample_history"
  by (simp add: sample_history_def history_wf_def before_def)

theorem history_well_formed_witness:
  "history_wf sample_history \<and> history_wf (snd (history_ReceivedPacket 6 sample_history)) \<and> history_wf (DeleteBelow 3 sample_history)"
  using sample_history_wf history_well_formed [OF sample_history_wf, of 6] history_well_formed [OF sample_history_wf, of 3] by simp

text \<open>C14: The list of ranges implements a set of packet numbers. \<open>ReceivedPacket\<close> adds the packet and reports whether it was neither
  deleted nor in the set; of the result the history keeps the newest 64 runs of consecutive numbers, which is all of it unless
  there are more. \<open>DeleteBelow\<close> removes what is below its argument, \<open>IsPotentiallyDuplicate\<close> decides membership, and
  \<open>HighestMissingUpTo\<close> returns the greatest gap.\<close>

theorem history_implements_set:
  assumes "history_wf h" "0 \<le> p" "history_ReceivedPacket p h = (isNew, h')"
  shows "(isNew \<longleftrightarrow> rh_deletedBelow h \<le> p \<and> p \<notin> history_packets h)
    \<and> (if p < rh_deletedBelow h then h' = h
       else newest_runs MaxNumAckRanges (insert p (history_packets h)) (history_packets h') \<and> rh_deletedBelow h' = rh_deletedBelow h)
    \<and> (if p < rh_deletedBelow h then DeleteBelow p h = h
       else history_packets (DeleteBelow p h) = {q \<in> history_packets h. p \<le> q} \<and> rh_deletedBelow (DeleteBelow p h) = p)
    \<and> (history_IsPotentiallyDuplicate p h \<longleftrightarrow> p < rh_deletedBelow h \<or> p \<in> history_packets h)
    \<and> missing_spec (rh_deletedBelow h) (history_packets h) p (HighestMissingUpTo p h)"
proof (cases "p < rh_deletedBelow h")
  case True
  then show ?thesis using assms IsPotentiallyDuplicate_iff [OF assms(1)] HighestMissingUpTo_spec [OF assms(1,2)]
    by (auto simp: history_ReceivedPacket_def DeleteBelow_def)
next
  case False
  then have d: "rh_deletedBelow h \<le> p" by simp
  show ?thesis using False ReceivedPacket_spec [OF assms(1,2) d assms(3)] DeleteBelow_packets [OF assms(1) d]
      IsPotentiallyDuplicate_iff [OF assms(1)] HighestMissingUpTo_spec [OF assms(1,2)] by simp
qed

theorem history_implements_set_witness:
  "fst (history_ReceivedPacket 6 sample_history) \<and> \<not> history_IsPotentiallyDuplicate 6 sample_history"
proof -
  obtain isNew h' where h': "history_ReceivedPacket 6 sample_history = (isNew, h')" by fastforce
  have "rh_deletedBelow sample_history \<le> 6" "6 \<notin> history_packets sample_history" by (auto simp: sample_history_def)
  then show ?thesis using history_implements_set [OF sample_history_wf _ h'] h' by auto
qed

lemma add_after:
  "iv_End r + 1 < p \<Longrightarrow> iv_Start r \<le> iv_End r
    \<Longrightarrow> add_loop p (length (xs @ [r])) (xs @ [r]) = (True, (xs @ [r]) @ [\<lparr>iv_Start = p, iv_End = p\<rparr>])"
  by (simp add: slices_Insert_def)

text \<open>C16: A packet of a dropped range counts as new again. When the history holds 64 ranges and a packet beyond them and not next to
  the last arrives, the oldest range is dropped, but \<open>deletedBelow\<close> is not raised: \<open>IsPotentiallyDuplicate\<close> denies every
  packet of that range, and \<open>ReceivedPacket\<close> accepts it a second time.\<close>

theorem dropped_range_new_again:
  assumes "history_wf h" "rh_ranges h = r # rs" "length rs = 63" "iv_End (last (r # rs)) + 1 < p"
    and "iv_Start r \<le> q" "q \<le> iv_End r" "history_ReceivedPacket p h = (isNew, h')"
  shows "history_IsPotentiallyDuplicate q h \<and> \<not> history_IsPotentiallyDuplicate q h' \<and> fst (history_ReceivedPacket q h')"
proof -
  have low: "0 \<le> iv_Start r" "rh_deletedBelow h \<le> iv_Start r" using assms(1,2) by (auto simp: history_wf_def)
  have ok: "ranges_ok (r # rs)" using assms(1,2) by (simp add: history_wf_def)
  have r: "iv_End r \<le> iv_End (last (r # rs))" using ranges_ok_last [OF ok] by simp
  have p: "0 \<le> p" "rh_deletedBelow h \<le> p" using low r assms(4-6) by linarith+
  have q: "0 \<le> q" "rh_deletedBelow h \<le> q" using low assms(5) by linarith+
  have "add_loop p (length (r # rs)) (r # rs) = (True, (r # rs) @ [\<lparr>iv_Start = p, iv_End = p\<rparr>])"
  proof -
    obtain ys y where rs: "rs = ys @ [y]" using assms(3) by (cases rs rule: rev_cases) auto
    then show ?thesis using add_after [of y p "r # ys"] assms(4) ok by (auto simp: ranges_ok_append simp del: add_loop.simps)
  qed
  then have h': "h' = h\<lparr>rh_ranges := rs @ [\<lparr>iv_Start = p, iv_End = p\<rparr>]\<rparr>"
    using assms(2,3,7) p(2) by (simp add: history_ReceivedPacket_def addToRanges_def slices_Delete_def del: add_loop.simps)
  have "q \<notin> packets rs" using ok assms(6) by (force simp: in_packets before_def)
  then have out: "q \<notin> history_packets h'" "rh_deletedBelow h' = rh_deletedBelow h" using h' assms(4,6) r by auto
  have wf: "history_wf h'" using ReceivedPacket_spec(1) [OF assms(1) p assms(7)] .
  have "fst (history_ReceivedPacket q h')"
    using ReceivedPacket_spec(3) [OF wf q(1) _ surjective_pairing] out q(2) by simp
  moreover have "q \<in> history_packets h" using assms(2,5,6) by simp
  ultimately show ?thesis using IsPotentiallyDuplicate_iff [OF assms(1)] IsPotentiallyDuplicate_iff [OF wf] out q by simp
qed

definition full_history :: receivedPacketHistory where
  "full_history = \<lparr>rh_ranges = map (\<lambda>n. \<lparr>iv_Start = 2 * int n, iv_End = 2 * int n\<rparr>) [0..<64], rh_deletedBelow = - 1\<rparr>"

theorem dropped_range_new_again_witness:
  "history_wf full_history \<and> history_IsPotentiallyDuplicate 0 full_history
    \<and> fst (history_ReceivedPacket 0 (snd (history_ReceivedPacket 128 full_history)))"
proof -
  let ?f = "\<lambda>n. \<lparr>iv_Start = 2 * int n, iv_End = 2 * int n\<rparr>"
  have wf: "history_wf full_history"
    by (auto simp: full_history_def history_wf_def ranges_ok_def sorted_wrt_map before_def
        intro!: sorted_wrt_mono_rel [OF _ sorted_wrt_upt])
  have rs: "rh_ranges full_history = ?f 0 # map ?f [1..<64]" by (simp add: full_history_def upt_conv_Cons)
  have "last (?f 0 # map ?f [1..<64]) = ?f 63" by (simp add: last_map)
  then show ?thesis
    using wf dropped_range_new_again [OF wf rs _ _ _ _ surjective_pairing, of 128 0] by simp
qed

end
