(* ===== verification/Quic_Received_Packets.thy ===== *)
theory Quic_Received_Packets
  imports Quic_Packet_History Quic_Frame_Parser
begin

text \<open>
  Acknowledging received packets, \<open>quic/internal/ackhandler/received_packet_tracker.go\<close> and \<open>received_packet_handler.go\<close>. A
  connection has one tracker for each of its packet number spaces; that of the application data delays its ACKs.
  Times are nanoseconds. \<open>MinRTT\<close> of the RTT statistics is a parameter, \<open>None\<close> where the statistics are nil. Logging is left out.

  The trackers always return the same ACK frame struct, which is also \<open>lastAck\<close>; where a caller changes the frame, \<open>lastAck\<close>
  changes too.
\<close>

type_synonym Monotime = int

abbreviation Millisecond :: Duration where "Millisecond \<equiv> 1000000"
abbreviation MaxAckDelay :: Duration where "MaxAckDelay \<equiv> 25 * Millisecond"
abbreviation reorderingThreshold :: PacketNumber where "reorderingThreshold \<equiv> 1"

datatype ECN = ECNUnsupported | ECNNon | ECT1 | ECT0 | ECNCE

datatype receive_error = OldPacket PacketNumber | ZeroRTTAfter1RTT PacketNumber PacketNumber
datatype receive_panic = NilPointer | UnexpectedLevel EncryptionLevel | AckPanic pack_error

section \<open>The trackers of the handshake\<close>

record receivedPacketTracker =
  rt_ect0 :: "64 word"
  rt_ect1 :: "64 word"
  rt_ecnce :: "64 word"
  rt_packetHistory :: receivedPacketHistory
  rt_lastAck :: "AckFrame option"
  rt_hasNewAck :: bool

definition newReceivedPacketTracker :: receivedPacketTracker where
  "newReceivedPacketTracker = \<lparr>rt_ect0 = 0, rt_ect1 = 0, rt_ecnce = 0, rt_packetHistory = newReceivedPacketHistory,
     rt_lastAck = None, rt_hasNewAck = False\<rparr>"

definition tracker_ReceivedPacket :: "PacketNumber \<Rightarrow> ECN \<Rightarrow> bool \<Rightarrow> receivedPacketTracker
    \<Rightarrow> receive_error option \<times> receivedPacketTracker" where
  "tracker_ReceivedPacket pn ecn ackEliciting h =
     (let (isNew, ph) = history_ReceivedPacket pn (rt_packetHistory h); h = h\<lparr>rt_packetHistory := ph\<rparr> in
      if \<not> isNew then (Some (OldPacket pn), h)
      else
        let h = (case ecn of
                   ECT0 \<Rightarrow> h\<lparr>rt_ect0 := rt_ect0 h + 1\<rparr>
                 | ECT1 \<Rightarrow> h\<lparr>rt_ect1 := rt_ect1 h + 1\<rparr>
                 | ECNCE \<Rightarrow> h\<lparr>rt_ecnce := rt_ecnce h + 1\<rparr>
                 | _ \<Rightarrow> h) in
        if \<not> ackEliciting then (None, h) else (None, h\<lparr>rt_hasNewAck := True\<rparr>))"

definition empty_ack :: AckFrame where
  "empty_ack = \<lparr>ack_AckRanges = [], ack_DelayTime = 0, ack_ECT0 = 0, ack_ECT1 = 0, ack_ECNCE = 0\<rparr>"

definition tracker_GetAckFrame :: "receivedPacketTracker \<Rightarrow> AckFrame option \<times> receivedPacketTracker" where
  "tracker_GetAckFrame h =
     (if \<not> rt_hasNewAck h then (None, h)
      else
        let ack = (case rt_lastAck h of None \<Rightarrow> empty_ack | Some ack \<Rightarrow> ack);
            ack = AckFrame_Reset ack;
            ack = ack\<lparr>ack_ECT0 := rt_ect0 h, ack_ECT1 := rt_ect1 h, ack_ECNCE := rt_ecnce h\<rparr>;
            ack = ack\<lparr>ack_AckRanges := ack_AckRanges ack
              @ map (\<lambda>r. \<lparr>ar_Smallest = iv_Start r, ar_Largest = iv_End r\<rparr>) (Backward (rt_packetHistory h))\<rparr>
        in (Some ack, h\<lparr>rt_lastAck := Some ack, rt_hasNewAck := False\<rparr>))"

definition tracker_IsPotentiallyDuplicate :: "PacketNumber \<Rightarrow> receivedPacketTracker \<Rightarrow> bool" where
  "tracker_IsPotentiallyDuplicate pn h = history_IsPotentiallyDuplicate pn (rt_packetHistory h)"

section \<open>The tracker of the application data\<close>

record appDataReceivedPacketTracker =
  ad_tracker :: receivedPacketTracker
  ad_largestObservedRcvdTime :: Monotime
  ad_largestObserved :: PacketNumber
  ad_ignoreBelow :: PacketNumber
  ad_maxAckDelay :: Duration
  ad_ackQueued :: bool
  ad_sinceLastAck :: int
  ad_ackAlarm :: Monotime
  ad_ackElicitingPacketsReceived :: int

definition newAppDataReceivedPacketTracker :: appDataReceivedPacketTracker where
  "newAppDataReceivedPacketTracker = \<lparr>ad_tracker = newReceivedPacketTracker, ad_largestObservedRcvdTime = 0, ad_largestObserved = 0,
     ad_ignoreBelow = 0, ad_maxAckDelay = MaxAckDelay, ad_ackQueued = False, ad_sinceLastAck = 0, ad_ackAlarm = 0,
     ad_ackElicitingPacketsReceived = 0\<rparr>"

definition decimated :: "appDataReceivedPacketTracker \<Rightarrow> bool" where
  "decimated h = (ad_ackElicitingPacketsReceived h \<ge> 100)"

definition packetsBeforeAck :: "appDataReceivedPacketTracker \<Rightarrow> int" where
  "packetsBeforeAck h = (if decimated h then 10 else 2)"

definition ackDelay :: "Duration option \<Rightarrow> appDataReceivedPacketTracker \<Rightarrow> Duration" where
  "ackDelay rttStats h =
     (if \<not> decimated h then ad_maxAckDelay h
      else case rttStats of
        None \<Rightarrow> ad_maxAckDelay h
      | Some minRTT \<Rightarrow>
          if minRTT \<le> 0 then ad_maxAckDelay h else max (min (ad_maxAckDelay h) (go_div minRTT 4)) Millisecond)"

definition isMissing :: "PacketNumber \<Rightarrow> appDataReceivedPacketTracker \<Rightarrow> pack_error + bool" where
  "isMissing p h =
     (case rt_lastAck (ad_tracker h) of
        None \<Rightarrow> Inr False
      | Some lastAck \<Rightarrow>
          if p < ad_ignoreBelow h then Inr False
          else
            rbind (LargestAcked lastAck) (\<lambda>largest.
            if p < largest then rbind (AcksPacket lastAck p) (\<lambda>acked. Inr (\<not> acked)) else Inr False))"

definition hasNewMissingPackets :: "appDataReceivedPacketTracker \<Rightarrow> pack_error + bool" where
  "hasNewMissingPackets h =
     (case rt_lastAck (ad_tracker h) of
        None \<Rightarrow> Inr False
      | Some lastAck \<Rightarrow>
          if ad_largestObserved h < reorderingThreshold then Inr False
          else
            let highestMissing = HighestMissingUpTo (ad_largestObserved h - reorderingThreshold) (rt_packetHistory (ad_tracker h)) in
            if highestMissing = InvalidPacketNumber then Inr False
            else
              rbind (LargestAcked lastAck) (\<lambda>largest.
              if highestMissing < largest then Inr False
              else rbind (LargestAcked lastAck) (\<lambda>largest. Inr (highestMissing > largest - reorderingThreshold))))"

definition shouldQueueACK :: "PacketNumber \<Rightarrow> ECN \<Rightarrow> bool \<Rightarrow> appDataReceivedPacketTracker \<Rightarrow> pack_error + bool" where
  "shouldQueueACK pn ecn wasMissing h =
     (if wasMissing then Inr True
      else if ad_sinceLastAck h \<ge> packetsBeforeAck h then Inr True
      else
        rbind (hasNewMissingPackets h) (\<lambda>new.
        if new then Inr True
        else if ecn = ECNCE then Inr True
        else Inr False))"

definition app_ReceivedPacket :: "Duration option \<Rightarrow> PacketNumber \<Rightarrow> ECN \<Rightarrow> Monotime \<Rightarrow> bool \<Rightarrow> appDataReceivedPacketTracker
    \<Rightarrow> pack_error + (receive_error option \<times> appDataReceivedPacketTracker)" where
  "app_ReceivedPacket rttStats pn ecn rcvTime ackEliciting h =
     (case tracker_ReceivedPacket pn ecn ackEliciting (ad_tracker h) of
        (Some err, t) \<Rightarrow> Inr (Some err, h\<lparr>ad_tracker := t\<rparr>)
      | (None, t) \<Rightarrow>
          let h = h\<lparr>ad_tracker := t\<rparr>;
              h = (if pn \<ge> ad_largestObserved h
                   then h\<lparr>ad_largestObserved := pn, ad_largestObservedRcvdTime := rcvTime\<rparr> else h) in
          if \<not> ackEliciting then Inr (None, h)
          else
            let h = h\<lparr>ad_sinceLastAck := ad_sinceLastAck h + 1,
                      ad_ackElicitingPacketsReceived := ad_ackElicitingPacketsReceived h + 1\<rparr> in
            rbind (isMissing pn h) (\<lambda>missing.
            rbind (if ad_ackQueued h then Inr False else shouldQueueACK pn ecn missing h) (\<lambda>queue.
            let h = (if queue then h\<lparr>ad_ackQueued := True, ad_ackAlarm := 0\<rparr> else h);
                h = (if \<not> ad_ackQueued h then h\<lparr>ad_ackAlarm := rcvTime + ackDelay rttStats h\<rparr> else h)
            in Inr (None, h))))"

definition IgnoreBelow :: "PacketNumber \<Rightarrow> appDataReceivedPacketTracker \<Rightarrow> appDataReceivedPacketTracker" where
  "IgnoreBelow pn h =
     (if pn \<le> ad_ignoreBelow h then h
      else
        let t = ad_tracker h in
        h\<lparr>ad_ignoreBelow := pn, ad_tracker := t\<lparr>rt_packetHistory := DeleteBelow pn (rt_packetHistory t)\<rparr>\<rparr>)"

definition app_GetAckFrame :: "Monotime \<Rightarrow> bool \<Rightarrow> appDataReceivedPacketTracker \<Rightarrow> AckFrame option \<times> appDataReceivedPacketTracker" where
  "app_GetAckFrame now onlyIfQueued h =
     (if onlyIfQueued \<and> \<not> ad_ackQueued h \<and> (ad_ackAlarm h = 0 \<or> ad_ackAlarm h > now) then (None, h)
      else
        case tracker_GetAckFrame (ad_tracker h) of
          (None, t) \<Rightarrow> (None, h\<lparr>ad_tracker := t\<rparr>)
        | (Some ack, t) \<Rightarrow>
            let ack = ack\<lparr>ack_DelayTime := max 0 (now - ad_largestObservedRcvdTime h)\<rparr> in
            (Some ack, h\<lparr>ad_tracker := t\<lparr>rt_lastAck := Some ack\<rparr>, ad_ackQueued := False, ad_ackAlarm := 0, ad_sinceLastAck := 0\<rparr>))"

definition app_GetAlarmTimeout :: "appDataReceivedPacketTracker \<Rightarrow> Monotime" where
  "app_GetAlarmTimeout h = ad_ackAlarm h"

section \<open>The handler\<close>

record ReceivedPacketHandler =
  ph_initialPackets :: "receivedPacketTracker option"
  ph_handshakePackets :: "receivedPacketTracker option"
  ph_appDataPackets :: appDataReceivedPacketTracker
  ph_lowest1RTTPacket :: PacketNumber

definition NewReceivedPacketHandler :: ReceivedPacketHandler where
  "NewReceivedPacketHandler = \<lparr>ph_initialPackets = Some newReceivedPacketTracker, ph_handshakePackets = Some newReceivedPacketTracker,
     ph_appDataPackets = newAppDataReceivedPacketTracker, ph_lowest1RTTPacket = InvalidPacketNumber\<rparr>"

definition handler_app :: "Duration option \<Rightarrow> PacketNumber \<Rightarrow> ECN \<Rightarrow> Monotime \<Rightarrow> bool \<Rightarrow> ReceivedPacketHandler
    \<Rightarrow> receive_panic + (receive_error option \<times> ReceivedPacketHandler)" where
  "handler_app rttStats pn ecn rcvTime ackEliciting h =
     (case app_ReceivedPacket rttStats pn ecn rcvTime ackEliciting (ph_appDataPackets h) of
        Inl e \<Rightarrow> Inl (AckPanic e)
      | Inr (err, a) \<Rightarrow> Inr (err, h\<lparr>ph_appDataPackets := a\<rparr>))"

definition handler_ReceivedPacket :: "Duration option \<Rightarrow> PacketNumber \<Rightarrow> ECN \<Rightarrow> EncryptionLevel \<Rightarrow> Monotime \<Rightarrow> bool
    \<Rightarrow> ReceivedPacketHandler \<Rightarrow> receive_panic + (receive_error option \<times> ReceivedPacketHandler)" where
  "handler_ReceivedPacket rttStats pn ecn encLevel rcvTime ackEliciting h =
     (if encLevel = EncryptionInitial then
        case ph_initialPackets h of
          None \<Rightarrow> Inl NilPointer
        | Some t \<Rightarrow> let (err, t) = tracker_ReceivedPacket pn ecn ackEliciting t in Inr (err, h\<lparr>ph_initialPackets := Some t\<rparr>)
      else if encLevel = EncryptionHandshake then
        case ph_handshakePackets h of
          None \<Rightarrow> Inr (None, h)
        | Some t \<Rightarrow> let (err, t) = tracker_ReceivedPacket pn ecn ackEliciting t in Inr (err, h\<lparr>ph_handshakePackets := Some t\<rparr>)
      else if encLevel = Encryption0RTT then
        if ph_lowest1RTTPacket h \<noteq> InvalidPacketNumber \<and> pn > ph_lowest1RTTPacket h
        then Inr (Some (ZeroRTTAfter1RTT pn (ph_lowest1RTTPacket h)), h)
        else handler_app rttStats pn ecn rcvTime ackEliciting h
      else if encLevel = Encryption1RTT then
        let h = (if ph_lowest1RTTPacket h = InvalidPacketNumber \<or> pn < ph_lowest1RTTPacket h
                 then h\<lparr>ph_lowest1RTTPacket := pn\<rparr> else h) in
        handler_app rttStats pn ecn rcvTime ackEliciting h
      else Inl (UnexpectedLevel encLevel))"

definition IgnorePacketsBelow :: "PacketNumber \<Rightarrow> ReceivedPacketHandler \<Rightarrow> ReceivedPacketHandler" where
  "IgnorePacketsBelow pn h = h\<lparr>ph_appDataPackets := IgnoreBelow pn (ph_appDataPackets h)\<rparr>"

definition DropPackets :: "EncryptionLevel \<Rightarrow> ReceivedPacketHandler \<Rightarrow> receive_panic + ReceivedPacketHandler" where
  "DropPackets encLevel h =
     (if encLevel = EncryptionInitial then Inr (h\<lparr>ph_initialPackets := None\<rparr>)
      else if encLevel = EncryptionHandshake then Inr (h\<lparr>ph_handshakePackets := None\<rparr>)
      else if encLevel = Encryption0RTT then Inr h
      else Inl (UnexpectedLevel encLevel))"

definition GetAlarmTimeout :: "ReceivedPacketHandler \<Rightarrow> Monotime" where
  "GetAlarmTimeout h = app_GetAlarmTimeout (ph_appDataPackets h)"

definition handler_GetAckFrame :: "EncryptionLevel \<Rightarrow> Monotime \<Rightarrow> bool \<Rightarrow> ReceivedPacketHandler
    \<Rightarrow> AckFrame option \<times> ReceivedPacketHandler" where
  "handler_GetAckFrame encLevel now onlyIfQueued h =
     (if encLevel = EncryptionInitial then
        case ph_initialPackets h of
          None \<Rightarrow> (None, h)
        | Some t \<Rightarrow> let (ack, t) = tracker_GetAckFrame t in (ack, h\<lparr>ph_initialPackets := Some t\<rparr>)
      else if encLevel = EncryptionHandshake then
        case ph_handshakePackets h of
          None \<Rightarrow> (None, h)
        | Some t \<Rightarrow> let (ack, t) = tracker_GetAckFrame t in (ack, h\<lparr>ph_handshakePackets := Some t\<rparr>)
      else if encLevel = Encryption1RTT then
        let (ack, a) = app_GetAckFrame now onlyIfQueued (ph_appDataPackets h) in (ack, h\<lparr>ph_appDataPackets := a\<rparr>)
      else (None, h))"

definition handler_IsPotentiallyDuplicate :: "PacketNumber \<Rightarrow> EncryptionLevel \<Rightarrow> ReceivedPacketHandler \<Rightarrow> receive_panic + bool" where
  "handler_IsPotentiallyDuplicate pn encLevel h =
     (let unexpected = Inl (UnexpectedLevel encLevel) in
      if encLevel = EncryptionInitial then
        case ph_initialPackets h of Some t \<Rightarrow> Inr (tracker_IsPotentiallyDuplicate pn t) | None \<Rightarrow> unexpected
      else if encLevel = EncryptionHandshake then
        case ph_handshakePackets h of Some t \<Rightarrow> Inr (tracker_IsPotentiallyDuplicate pn t) | None \<Rightarrow> unexpected
      else if encLevel = Encryption0RTT \<or> encLevel = Encryption1RTT then
        Inr (tracker_IsPotentiallyDuplicate pn (ad_tracker (ph_appDataPackets h)))
      else unexpected)"

end
