(* ===== verification/Quic_Ack_Trackers.thy ===== *)
theory Quic_Ack_Trackers
  imports Quic_Received_Packets
begin

text \<open>
  Invariants of the trackers of received packets: their history holds only received packets, the counters and the last ACK frame
  can be encoded, and a packet that elicits an ACK leaves the ACK queued or the alarm set.
\<close>

section \<open>From ranges to ACK frames\<close>

definition ack_range :: "interval \<Rightarrow> AckRange" where
  "ack_range r = \<lparr>ar_Smallest = iv_Start r, ar_Largest = iv_End r\<rparr>"

lemma rev_chain:
  "ranges_ok (xs @ [r]) \<Longrightarrow> \<forall>x\<in>set xs. range_ok (ack_range x) \<Longrightarrow> chain_ok (ack_range r) (map ack_range (rev xs))"
proof (induction xs arbitrary: r rule: rev_induct)
  case (snoc x xs)
  then show ?case by (auto simp: ranges_ok_append before_def ack_range_def)
qed simp

lemma ranges_valid:
  assumes "ranges_ok rs" "rs \<noteq> []" "packets rs \<subseteq> {0..<2 ^ 62}"
  shows "validateAckRanges (map ack_range (rev rs)) \<and> (\<forall>r\<in>set (map ack_range (rev rs)). range_ok r)"
proof -
  have ok: "range_ok (ack_range r)" if "r \<in> set rs" for r
  proof -
    have "iv_Start r \<le> iv_End r" using assms(1) that by (simp add: ranges_ok_def)
    then have "iv_Start r \<in> packets rs" "iv_End r \<in> packets rs" using that by (auto simp: in_packets)
    then show ?thesis using assms(3) \<open>iv_Start r \<le> iv_End r\<close> by (auto simp: range_ok_def ack_range_def)
  qed
  obtain xs r where rs: "rs = xs @ [r]" using assms(2) by (cases rs rule: rev_cases) auto
  have "chain_ok (ack_range r) (map ack_range (rev xs))" using rev_chain ok rs assms(1) by simp
  then show ?thesis using validate_chain [of "map ack_range (rev rs)"] ok rs by auto
qed

text \<open>Writing and reading an ACK frame rounds its delay to 8 microseconds and keeps everything else.\<close>

lemma ack_wire:
  assumes "ack_ok f" "length (ack_AckRanges f) \<le> MaxNumAckRanges"
  obtains w g where "\<And>b. AckFrame_Append f b = Inr (b @ venc (AckFrame_type f) @ w)"
    "\<And>rest. parseAckFrame AckDelayExponent (AckFrame_type f) (w @ rest) = Inr (g, length w)"
    "ack_ok g" "ack_AckRanges g = ack_AckRanges f"
proof -
  define g where "g = f\<lparr>ack_DelayTime := ack_DelayTime f - ack_DelayTime f mod 8000\<rparr>"
  have d: "0 \<le> ack_DelayTime f" "ack_DelayTime f \<le> maxInt64" using assms(1) by (auto simp: ack_ok_def)
  have le: "0 \<le> ack_DelayTime g" "ack_DelayTime g \<le> ack_DelayTime f" "ack_DelayTime g mod 8000 = 0"
    using d by (auto simp: g_def minus_mod_eq_mult_div)
  have ok: "ack_ok g" using assms(1) le d(2) by (simp add: ack_ok_def g_def)
  have "ack_codec_ok g" using ok le(3) assms(2) by (simp add: ack_codec_ok_def g_def)
  then obtain w where w: "\<And>b. AckFrame_Append g b = Inr (b @ venc (AckFrame_type g) @ w)"
    "\<And>rest. parseAckFrame AckDelayExponent (AckFrame_type g) (w @ rest) = Inr (g, length w)"
    using ack.codec by blast
  have "encodeAckDelay (ack_DelayTime g) = encodeAckDelay (ack_DelayTime f)"
    using d(1) le(1) by (simp add: encodeAckDelay_def go_div_def g_def minus_mod_eq_mult_div)
  moreover obtain p qs where f: "ack_AckRanges f = p # qs" using ack_ok_cases [OF assms(1)] by metis
  moreover have "AckFrame_type g = AckFrame_type f" by (simp add: AckFrame_type_def hasECN_def g_def)
  ultimately have "AckFrame_Append f b = AckFrame_Append g b" for b
    using AckFrame_Append_eq [OF assms(1) f] AckFrame_Append_eq [OF ok, of p qs]
    by (simp add: g_def ack_head_def ecn_bytes_def hasECN_def numRanges_def)
  then show ?thesis using that [of w g] w ok \<open>AckFrame_type g = AckFrame_type f\<close> by (simp add: g_def)
qed

lemma ranges_that_fit_ge: "ranges_that_fit f maxSize i n len = Inr k \<Longrightarrow> i \<le> k"
  by (induction n arbitrary: i len) (fastforce simp: rbind_eq_Inr Let_def split: if_splits)+

lemma Truncate_ok:
  assumes "ack_ok f" "Truncate f maxSize = Inr f'"
  shows "ack_ok f'"
proof -
  obtain n where n: "numEncodableAckRanges f maxSize = Inr n" "f' = first_ranges f n"
    using assms(2) by (auto simp: Truncate_def rbind_eq_Inr slice_eq_Inr)
  have "0 < numRanges f" using ack_ok_cases [OF assms(1)] by (metis numRanges_def length_Cons min_less_iff_conj zero_less_Suc zero_less_numeral)
  then have "0 < n" using n(1) ranges_that_fit_ge
    by (fastforce simp: numEncodableAckRanges_def rbind_eq_Inr Let_def split: if_splits)
  then show ?thesis using first_ranges_ok [OF assms(1)] n(2) by simp
qed

section \<open>Invariants\<close>

definition few :: "nat \<Rightarrow> bool" where
  "few n = (n < 2 ^ 62)"

text \<open>\<open>R\<close> are the packets received and \<open>n\<close> bounds their number.\<close>

definition tracker_inv :: "PacketNumber set \<Rightarrow> nat \<Rightarrow> receivedPacketTracker \<Rightarrow> bool" where
  "tracker_inv R n t = (history_wf (rt_packetHistory t) \<and> history_packets (rt_packetHistory t) \<subseteq> R \<and> R \<subseteq> {0..<2 ^ 62}
     \<and> unat (rt_ect0 t) \<le> n \<and> unat (rt_ect1 t) \<le> n \<and> unat (rt_ecnce t) \<le> n
     \<and> (few n \<longrightarrow> (\<forall>f. rt_lastAck t = Some f \<longrightarrow> ack_ok f)))"

abbreviation ack_pending :: "receivedPacketTracker \<Rightarrow> bool" where
  "ack_pending t \<equiv> rt_hasNewAck t \<longrightarrow> rh_ranges (rt_packetHistory t) \<noteq> []"

definition app_inv :: "PacketNumber set \<Rightarrow> nat \<Rightarrow> appDataReceivedPacketTracker \<Rightarrow> bool" where
  "app_inv R n a = (tracker_inv R n (ad_tracker a) \<and> 0 \<le> ad_ignoreBelow a \<and> 0 \<le> ad_largestObserved a
     \<and> 0 \<le> ad_largestObservedRcvdTime a \<and> ad_maxAckDelay a = MaxAckDelay
     \<and> (rt_hasNewAck (ad_tracker a) \<longrightarrow> ad_ackQueued a \<or> 0 < ad_ackAlarm a))"

lemma tracker_inv_mono: "tracker_inv R n t \<Longrightarrow> R \<subseteq> R' \<Longrightarrow> R' \<subseteq> {0..<2 ^ 62} \<Longrightarrow> n \<le> m \<Longrightarrow> tracker_inv R' m t"
  by (auto simp: tracker_inv_def few_def)

lemma few_Suc: "few (Suc n) \<Longrightarrow> few n"
  by (simp add: few_def)

lemma unat_Suc_le: "unat (x :: 64 word) \<le> n \<Longrightarrow> unat (x + 1) \<le> Suc n"
  by (simp add: unat_word_ariths)

definition ecn_counted :: "ECN \<Rightarrow> receivedPacketTracker \<Rightarrow> receivedPacketTracker" where
  "ecn_counted ecn h = (case ecn of
       ECT0 \<Rightarrow> h\<lparr>rt_ect0 := rt_ect0 h + 1\<rparr>
     | ECT1 \<Rightarrow> h\<lparr>rt_ect1 := rt_ect1 h + 1\<rparr>
     | ECNCE \<Rightarrow> h\<lparr>rt_ecnce := rt_ecnce h + 1\<rparr>
     | _ \<Rightarrow> h)"

lemma ecn_counted_simps [simp]:
  "rt_packetHistory (ecn_counted ecn h) = rt_packetHistory h" "rt_lastAck (ecn_counted ecn h) = rt_lastAck h"
  "rt_hasNewAck (ecn_counted ecn h) = rt_hasNewAck h"
  by (cases ecn; simp add: ecn_counted_def)+

lemma ecn_counted_bounds:
  assumes "unat (rt_ect0 h) \<le> n" "unat (rt_ect1 h) \<le> n" "unat (rt_ecnce h) \<le> n"
  shows "unat (rt_ect0 (ecn_counted ecn h)) \<le> Suc n \<and> unat (rt_ect1 (ecn_counted ecn h)) \<le> Suc n
    \<and> unat (rt_ecnce (ecn_counted ecn h)) \<le> Suc n"
  using assms unat_Suc_le by (cases ecn) (auto simp: ecn_counted_def)

lemma tracker_ReceivedPacket_eq:
  assumes "history_ReceivedPacket pn (rt_packetHistory t) = (isNew, ph)"
  shows "tracker_ReceivedPacket pn ecn el t =
    (if \<not> isNew then (Some (OldPacket pn), t\<lparr>rt_packetHistory := ph\<rparr>)
     else if \<not> el then (None, ecn_counted ecn (t\<lparr>rt_packetHistory := ph\<rparr>))
     else (None, (ecn_counted ecn (t\<lparr>rt_packetHistory := ph\<rparr>))\<lparr>rt_hasNewAck := True\<rparr>))"
  unfolding tracker_ReceivedPacket_def assms ecn_counted_def Let_def by simp

lemma tracker_inv_received:
  assumes "tracker_inv R n t" "history_wf ph" "history_packets ph \<subseteq> R'" "R' \<subseteq> {0..<2 ^ 62}"
  shows "tracker_inv R' (Suc n) (t\<lparr>rt_packetHistory := ph\<rparr>)"
    and "tracker_inv R' (Suc n) (ecn_counted ecn (t\<lparr>rt_packetHistory := ph\<rparr>))"
    and "tracker_inv R' (Suc n) ((ecn_counted ecn (t\<lparr>rt_packetHistory := ph\<rparr>))\<lparr>rt_hasNewAck := b\<rparr>)"
proof -
  let ?t = "t\<lparr>rt_packetHistory := ph\<rparr>"
  have ack: "few (Suc n) \<longrightarrow> (\<forall>f. rt_lastAck t = Some f \<longrightarrow> ack_ok f)" using assms(1) few_Suc by (auto simp: tracker_inv_def)
  have cnt: "unat (rt_ect0 t) \<le> n" "unat (rt_ect1 t) \<le> n" "unat (rt_ecnce t) \<le> n" using assms(1) by (auto simp: tracker_inv_def)
  show "tracker_inv R' (Suc n) ?t" using ack cnt assms(2-4) by (simp add: tracker_inv_def)
  show "tracker_inv R' (Suc n) (ecn_counted ecn ?t)" "tracker_inv R' (Suc n) ((ecn_counted ecn ?t)\<lparr>rt_hasNewAck := b\<rparr>)"
    using ack ecn_counted_bounds [of ?t n ecn] cnt assms(2-4) by (simp_all add: tracker_inv_def)
qed

lemma tracker_ReceivedPacket_spec:
  assumes "tracker_inv R n t" "0 \<le> pn" "pn < 2 ^ 62" "tracker_ReceivedPacket pn ecn el t = (err, t')"
  shows "tracker_inv (insert pn R) (Suc n) t'"
    and "err = None \<Longrightarrow> rh_ranges (rt_packetHistory t') \<noteq> []"
    and "rt_hasNewAck t' \<longleftrightarrow> rt_hasNewAck t \<or> err = None \<and> el"
    and "rt_lastAck t' = rt_lastAck t"
proof -
  obtain isNew ph where ph: "history_ReceivedPacket pn (rt_packetHistory t) = (isNew, ph)" by fastforce
  note eq = tracker_ReceivedPacket_eq [OF ph, of ecn el, unfolded assms(4)]
  have inv: "history_wf (rt_packetHistory t)" "history_packets (rt_packetHistory t) \<subseteq> R" "R \<subseteq> {0..<2 ^ 62}"
    using assms(1) by (auto simp: tracker_inv_def)
  have wf: "history_wf ph \<and> history_packets ph \<subseteq> insert pn R \<and> (isNew \<longrightarrow> rh_ranges ph \<noteq> [])"
  proof (cases "rh_deletedBelow (rt_packetHistory t) \<le> pn")
    case True
    then show ?thesis using ReceivedPacket_spec [OF inv(1) assms(2) True ph] inv(2) by (auto simp: newest_runs_def)
  next
    case False
    then show ?thesis using ph inv by (auto simp: history_ReceivedPacket_def)
  qed
  have R: "insert pn R \<subseteq> {0..<2 ^ 62}" using inv(3) assms(2,3) by auto
  note keeps = tracker_inv_received [OF assms(1) _ _ R, of ph]
  show "tracker_inv (insert pn R) (Suc n) t'" using eq keeps wf by (auto split: if_splits)
  show "err = None \<Longrightarrow> rh_ranges (rt_packetHistory t') \<noteq> []" using eq wf by (auto split: if_splits)
  show "rt_hasNewAck t' \<longleftrightarrow> rt_hasNewAck t \<or> err = None \<and> el" "rt_lastAck t' = rt_lastAck t"
    using eq by (auto split: if_splits)
qed

text \<open>The frame that a tracker returns, with a delay filled in.\<close>

definition tracker_frame :: "receivedPacketTracker \<Rightarrow> Duration \<Rightarrow> AckFrame" where
  "tracker_frame t d = \<lparr>ack_AckRanges = map ack_range (rev (rh_ranges (rt_packetHistory t))), ack_DelayTime = d,
     ack_ECT0 = rt_ect0 t, ack_ECT1 = rt_ect1 t, ack_ECNCE = rt_ecnce t\<rparr>"

lemma tracker_GetAckFrame_eq:
  "tracker_GetAckFrame t = (if rt_hasNewAck t
     then (Some (tracker_frame t 0), t\<lparr>rt_lastAck := Some (tracker_frame t 0), rt_hasNewAck := False\<rparr>) else (None, t))"
  by (auto simp: tracker_GetAckFrame_def tracker_frame_def AckFrame_Reset_def Backward_def ack_range_def [abs_def] Let_def split: option.splits)

lemma tracker_frame_ok:
  assumes "tracker_inv R n t" "few n" "rh_ranges (rt_packetHistory t) \<noteq> []" "0 \<le> d" "d \<le> maxInt64"
  shows "ack_ok (tracker_frame t d)" "length (ack_AckRanges (tracker_frame t d)) \<le> MaxNumAckRanges"
    "(\<exists>r\<in>set (ack_AckRanges (tracker_frame t d)). ar_Smallest r \<le> q \<and> q \<le> ar_Largest r)
      \<longleftrightarrow> q \<in> history_packets (rt_packetHistory t)"
proof -
  have "ranges_ok (rh_ranges (rt_packetHistory t))" "history_packets (rt_packetHistory t) \<subseteq> {0..<2 ^ 62}"
    using assms(1) by (auto simp: tracker_inv_def history_wf_def)
  from ranges_valid [OF this(1) assms(3) this(2)] show "ack_ok (tracker_frame t d)"
    using assms by (simp add: ack_ok_def tracker_frame_def tracker_inv_def word_ok_def few_def)
  show "length (ack_AckRanges (tracker_frame t d)) \<le> MaxNumAckRanges"
    using assms(1) by (simp add: tracker_frame_def tracker_inv_def history_wf_def)
  show "(\<exists>r\<in>set (ack_AckRanges (tracker_frame t d)). ar_Smallest r \<le> q \<and> q \<le> ar_Largest r)
      \<longleftrightarrow> q \<in> history_packets (rt_packetHistory t)"
    by (auto simp: tracker_frame_def ack_range_def in_packets)
qed

lemma tracker_inv_acked:
  assumes "tracker_inv R n t" "rh_ranges (rt_packetHistory t) \<noteq> []" "0 \<le> d" "d \<le> maxInt64"
  shows "tracker_inv R n (t\<lparr>rt_lastAck := Some (tracker_frame t d), rt_hasNewAck := b\<rparr>)"
proof -
  have "few n \<longrightarrow> ack_ok (tracker_frame t d)" using tracker_frame_ok(1) [OF assms(1) _ assms(2-4)] by blast
  then show ?thesis using assms(1) unfolding tracker_inv_def
    by simp
qed

lemma IgnoreBelow_inv:
  assumes "app_inv R n a" "0 \<le> k"
  shows "app_inv R n (IgnoreBelow k a)"
proof (cases "k \<le> ad_ignoreBelow a")
  case False
  let ?h = "rt_packetHistory (ad_tracker a)"
  have wf: "history_wf ?h" "history_packets ?h \<subseteq> R" using assms(1) by (auto simp: app_inv_def tracker_inv_def)
  have "history_wf (DeleteBelow k ?h)" using DeleteBelow_wf [OF wf(1)] assms(2) by simp
  moreover have "history_packets (DeleteBelow k ?h) \<subseteq> R"
    using DeleteBelow_packets [OF wf(1), of k] wf(2) by (cases "k < rh_deletedBelow ?h") (auto simp: DeleteBelow_def)
  ultimately show ?thesis using assms False by (simp add: app_inv_def IgnoreBelow_def Let_def tracker_inv_def)
qed (simp add: assms IgnoreBelow_def)

section \<open>Receiving application data\<close>

lemma ackDelay_bounds: "ad_maxAckDelay a = MaxAckDelay \<Longrightarrow> 0 < ackDelay rttStats a \<and> ackDelay rttStats a \<le> MaxAckDelay"
  by (auto simp: ackDelay_def split: option.splits)

lemma LargestAcked_total: "ack_ok f \<Longrightarrow> \<exists>l. LargestAcked f = Inr l"
  using ack_ok_cases by (fastforce simp: LargestAcked_def at_def)

lemma isMissing_total:
  assumes "\<forall>f. rt_lastAck (ad_tracker a) = Some f \<longrightarrow> ack_ok f"
  shows "\<exists>b. isMissing pn a = Inr b" "\<exists>b. shouldQueueACK pn ecn m a = Inr b"
proof -
  show "\<exists>b. isMissing pn a = Inr b"
    using assms LargestAcked_total AcksPacket_member by (fastforce simp: isMissing_def split: option.splits)
  have "\<exists>b. hasNewMissingPackets a = Inr b"
    using assms LargestAcked_total by (fastforce simp: hasNewMissingPackets_def Let_def split: option.splits)
  then show "\<exists>b. shouldQueueACK pn ecn m a = Inr b" by (auto simp: shouldQueueACK_def)
qed

text \<open>The parts of \<open>ReceivedPacket\<close>: the new counters, and the decision to queue an ACK or to set the alarm.\<close>

definition observed :: "PacketNumber \<Rightarrow> Monotime \<Rightarrow> receivedPacketTracker \<Rightarrow> appDataReceivedPacketTracker \<Rightarrow> appDataReceivedPacketTracker" where
  "observed pn rcvTime t a = (let a = a\<lparr>ad_tracker := t\<rparr> in
     if pn \<ge> ad_largestObserved a then a\<lparr>ad_largestObserved := pn, ad_largestObservedRcvdTime := rcvTime\<rparr> else a)"

definition counted :: "appDataReceivedPacketTracker \<Rightarrow> appDataReceivedPacketTracker" where
  "counted a = a\<lparr>ad_sinceLastAck := ad_sinceLastAck a + 1, ad_ackElicitingPacketsReceived := ad_ackElicitingPacketsReceived a + 1\<rparr>"

definition settled :: "Duration option \<Rightarrow> Monotime \<Rightarrow> bool \<Rightarrow> appDataReceivedPacketTracker \<Rightarrow> appDataReceivedPacketTracker" where
  "settled rttStats rcvTime queue a = (let a = (if queue then a\<lparr>ad_ackQueued := True, ad_ackAlarm := 0\<rparr> else a) in
     if \<not> ad_ackQueued a then a\<lparr>ad_ackAlarm := rcvTime + ackDelay rttStats a\<rparr> else a)"

lemma app_ReceivedPacket_cases:
  assumes "tracker_ReceivedPacket pn ecn el (ad_tracker a) = (err, t)"
  shows "app_ReceivedPacket rttStats pn ecn rcvTime el a =
    (if err \<noteq> None then Inr (err, a\<lparr>ad_tracker := t\<rparr>) else if \<not> el then Inr (None, observed pn rcvTime t a)
     else let h = counted (observed pn rcvTime t a) in
       rbind (isMissing pn h) (\<lambda>m. rbind (if ad_ackQueued h then Inr False else shouldQueueACK pn ecn m h) (\<lambda>q.
       Inr (None, settled rttStats rcvTime q h))))"
  unfolding app_ReceivedPacket_def assms observed_def counted_def settled_def
  by (cases err) (simp_all add: Let_def cong: if_cong)

lemma observed_simps [simp]:
  "ad_tracker (observed pn rcvTime t a) = t" "ad_ignoreBelow (observed pn rcvTime t a) = ad_ignoreBelow a"
  "ad_maxAckDelay (observed pn rcvTime t a) = ad_maxAckDelay a" "ad_ackQueued (observed pn rcvTime t a) = ad_ackQueued a"
  "ad_ackAlarm (observed pn rcvTime t a) = ad_ackAlarm a"
  "ad_largestObserved (observed pn rcvTime t a) = max pn (ad_largestObserved a)"
  "ad_largestObservedRcvdTime (observed pn rcvTime t a) \<in> {rcvTime, ad_largestObservedRcvdTime a}"
  by (auto simp: observed_def Let_def)

lemma counted_simps [simp]:
  "ad_tracker (counted a) = ad_tracker a" "ad_ignoreBelow (counted a) = ad_ignoreBelow a" "ad_maxAckDelay (counted a) = ad_maxAckDelay a"
  "ad_ackQueued (counted a) = ad_ackQueued a" "ad_ackAlarm (counted a) = ad_ackAlarm a"
  "ad_largestObserved (counted a) = ad_largestObserved a" "ad_largestObservedRcvdTime (counted a) = ad_largestObservedRcvdTime a"
  by (simp_all add: counted_def)

lemma settled_simps [simp]:
  "ad_tracker (settled rttStats rcvTime q a) = ad_tracker a" "ad_ignoreBelow (settled rttStats rcvTime q a) = ad_ignoreBelow a"
  "ad_maxAckDelay (settled rttStats rcvTime q a) = ad_maxAckDelay a"
  "ad_largestObserved (settled rttStats rcvTime q a) = ad_largestObserved a"
  "ad_largestObservedRcvdTime (settled rttStats rcvTime q a) = ad_largestObservedRcvdTime a"
  by (auto simp: settled_def Let_def)

lemma settled_pending:
  assumes "ad_maxAckDelay a = MaxAckDelay" "0 \<le> rcvTime"
  shows "ad_ackQueued (settled rttStats rcvTime q a)
    \<or> 0 < ad_ackAlarm (settled rttStats rcvTime q a) \<and> ad_ackAlarm (settled rttStats rcvTime q a) \<le> rcvTime + MaxAckDelay"
  using ackDelay_bounds [OF assms(1), of rttStats] assms(2) by (auto simp: settled_def Let_def)

lemma app_ReceivedPacket_total:
  assumes "app_inv R n a" "few n" "0 \<le> pn" "pn < 2 ^ 62"
  shows "\<exists>r. app_ReceivedPacket rttStats pn ecn rcvTime el a = Inr r"
proof -
  obtain err t where t: "tracker_ReceivedPacket pn ecn el (ad_tracker a) = (err, t)" by fastforce
  have "rt_lastAck t = rt_lastAck (ad_tracker a)"
    using tracker_ReceivedPacket_spec(4) [OF _ assms(3,4) t] assms(1) by (auto simp: app_inv_def)
  then have ack: "\<forall>f. rt_lastAck t = Some f \<longrightarrow> ack_ok f" using assms(1,2) by (simp add: app_inv_def tracker_inv_def)
  let ?h = "counted (observed pn rcvTime t a)"
  obtain m where m: "isMissing pn ?h = Inr m" using isMissing_total(1) [of ?h pn] ack by auto
  obtain q where "shouldQueueACK pn ecn m ?h = Inr q" using isMissing_total(2) [of ?h pn ecn m] ack by auto
  then show ?thesis using m by (auto simp: app_ReceivedPacket_cases [OF t] Let_def)
qed

lemma app_ReceivedPacket_spec:
  assumes "app_inv R n a" "0 \<le> pn" "pn < 2 ^ 62" "0 \<le> rcvTime"
    and "app_ReceivedPacket rttStats pn ecn rcvTime el a = Inr (err, a')"
  shows "app_inv (insert pn R) (Suc n) a'"
    and "err = None \<Longrightarrow> ack_pending (ad_tracker a')"
    and "err = None \<Longrightarrow> el \<Longrightarrow> rt_hasNewAck (ad_tracker a') \<and> (ad_ackQueued a' \<or> 0 < ad_ackAlarm a' \<and> ad_ackAlarm a' \<le> rcvTime + MaxAckDelay)"
proof -
  obtain e t where t: "tracker_ReceivedPacket pn ecn el (ad_tracker a) = (e, t)" by fastforce
  have inv: "tracker_inv R n (ad_tracker a)" "ad_maxAckDelay a = MaxAckDelay" using assms(1) by (auto simp: app_inv_def)
  note spec = tracker_ReceivedPacket_spec [OF inv(1) assms(2,3) t]
  let ?o = "observed pn rcvTime t a"
  have time: "0 \<le> ad_largestObservedRcvdTime ?o" using observed_simps(7) [of pn rcvTime t a] assms(1,4) by (auto simp: app_inv_def)
  consider (old) "err = e" "e \<noteq> None" "a' = a\<lparr>ad_tracker := t\<rparr>" | (quiet) "err = e" "e = None" "\<not> el" "a' = ?o"
    | (eliciting) q where "err = e" "e = None" "el" "a' = settled rttStats rcvTime q (counted ?o)"
    using assms(5) by (auto simp: app_ReceivedPacket_cases [OF t] Let_def rbind_eq_Inr split: if_splits)
  then have "app_inv (insert pn R) (Suc n) a' \<and> (err = None \<longrightarrow> ack_pending (ad_tracker a'))
    \<and> (err = None \<and> el \<longrightarrow> rt_hasNewAck (ad_tracker a') \<and> (ad_ackQueued a' \<or> 0 < ad_ackAlarm a' \<and> ad_ackAlarm a' \<le> rcvTime + MaxAckDelay))"
  proof cases
    case eliciting
    then show ?thesis using assms(1,2) spec time settled_pending [OF _ assms(4), of "counted ?o" rttStats q]
      by (auto simp: app_inv_def)
  qed (use assms(1,2) spec time in \<open>auto simp: app_inv_def\<close>)
  then show "app_inv (insert pn R) (Suc n) a'" "err = None \<Longrightarrow> ack_pending (ad_tracker a')"
    "err = None \<Longrightarrow> el \<Longrightarrow> rt_hasNewAck (ad_tracker a') \<and> (ad_ackQueued a' \<or> 0 < ad_ackAlarm a' \<and> ad_ackAlarm a' \<le> rcvTime + MaxAckDelay)"
    by auto
qed

definition app_acked :: "Duration \<Rightarrow> appDataReceivedPacketTracker \<Rightarrow> appDataReceivedPacketTracker" where
  "app_acked d a = a\<lparr>ad_tracker := (ad_tracker a)\<lparr>rt_lastAck := Some (tracker_frame (ad_tracker a) d), rt_hasNewAck := False\<rparr>,
     ad_ackQueued := False, ad_ackAlarm := 0, ad_sinceLastAck := 0\<rparr>"

lemma tracker_frame_delay: "(tracker_frame t 0)\<lparr>ack_DelayTime := d\<rparr> = tracker_frame t d"
  by (simp add: tracker_frame_def)

lemma app_GetAckFrame_eq:
  "app_GetAckFrame now onlyIfQueued a =
    (if onlyIfQueued \<and> \<not> ad_ackQueued a \<and> (ad_ackAlarm a = 0 \<or> ad_ackAlarm a > now) \<or> \<not> rt_hasNewAck (ad_tracker a) then (None, a)
     else let d = max 0 (now - ad_largestObservedRcvdTime a) in (Some (tracker_frame (ad_tracker a) d), app_acked d a))"
  unfolding app_GetAckFrame_def tracker_GetAckFrame_eq app_acked_def Let_def
  by (cases "rt_hasNewAck (ad_tracker a)") (simp_all add: tracker_frame_delay)

lemma app_inv_acked:
  assumes "app_inv R n a" "rh_ranges (rt_packetHistory (ad_tracker a)) \<noteq> []" "0 \<le> d" "d \<le> maxInt64"
  shows "app_inv R n (app_acked d a)"
proof -
  have "tracker_inv R n (ad_tracker (app_acked d a))"
    using tracker_inv_acked [OF _ assms(2-4)] assms(1) unfolding app_inv_def app_acked_def by simp
  then show ?thesis using assms(1) unfolding app_inv_def by (simp add: app_acked_def)
qed

lemma app_GetAckFrame_spec:
  assumes "app_inv R n a" "ack_pending (ad_tracker a)" "0 \<le> now" "now \<le> maxInt64" "app_GetAckFrame now onlyIfQueued a = (f, a')"
  shows "app_inv R n a'" "ack_pending (ad_tracker a')"
    "f = Some g \<Longrightarrow> rh_ranges (rt_packetHistory (ad_tracker a)) \<noteq> []
      \<and> g = tracker_frame (ad_tracker a) (max 0 (now - ad_largestObservedRcvdTime a))"
proof -
  define d where "d = max 0 (now - ad_largestObservedRcvdTime a)"
  have "0 \<le> ad_largestObservedRcvdTime a" using assms(1) by (simp add: app_inv_def)
  then have d: "0 \<le> d" "d \<le> maxInt64" using assms(3,4) unfolding d_def by linarith+
  have "f = None \<and> a' = a \<or> rt_hasNewAck (ad_tracker a) \<and> f = Some (tracker_frame (ad_tracker a) d) \<and> a' = app_acked d a"
    using assms(5) unfolding app_GetAckFrame_eq Let_def d_def [symmetric] by (simp split: if_splits)
  then show "app_inv R n a'" "ack_pending (ad_tracker a')"
    "f = Some g \<Longrightarrow> rh_ranges (rt_packetHistory (ad_tracker a)) \<noteq> []
      \<and> g = tracker_frame (ad_tracker a) (max 0 (now - ad_largestObservedRcvdTime a))"
    using assms(1,2) app_inv_acked [OF assms(1) _ d] unfolding d_def [symmetric] by (elim disjE conjE; simp add: app_acked_def)+
qed

end
