(* ===== verification/Quic_Ack_Spec.thy ===== *)
theory Quic_Ack_Spec
  imports Quic_Ack_Trackers
begin

text \<open>
  What the peer learns from the acknowledgements. Runs of the received packet handler with any packets, dropped packet number
  spaces and ACK frames, the sets of the packets received in each space, and three properties: only received packets are
  acknowledged, an ACK is never forgotten, and the ACK alarm of a decimated connection can be pushed back.
\<close>

section \<open>Runs of the handler\<close>

definition space :: "EncryptionLevel \<Rightarrow> EncryptionLevel" where
  "space encLevel = (if encLevel = Encryption0RTT then Encryption1RTT else encLevel)"

text \<open>\<open>handler_reach R n h\<close>: after \<open>n\<close> packets, those of \<open>R\<close> in each packet number space, the handler is \<open>h\<close>. As in
  \<open>handleUnpackedShortHeaderPacket\<close>, the frames of a packet are handled before the packet is registered, so an ACK frame in a
  1-RTT packet may first make the handler ignore packets below some \<open>k\<close>. The packer may truncate the frame it was given, which is
  the \<open>lastAck\<close> that the application data tracker looks at later.\<close>

inductive handler_reach :: "(EncryptionLevel \<Rightarrow> PacketNumber set) \<Rightarrow> nat \<Rightarrow> ReceivedPacketHandler \<Rightarrow> bool" where
  start: "handler_reach (\<lambda>_. {}) 0 NewReceivedPacketHandler"
| received: "handler_reach R n h \<Longrightarrow> 0 \<le> pn \<Longrightarrow> pn < 2 ^ 62 \<Longrightarrow> 0 \<le> rcvTime
    \<Longrightarrow> k = 0 \<or> 0 < k \<and> encLevel = Encryption1RTT
    \<Longrightarrow> handler_ReceivedPacket rttStats pn ecn encLevel rcvTime el (IgnorePacketsBelow k h) = Inr (None, h')
    \<Longrightarrow> handler_reach (R(space encLevel := insert pn (R (space encLevel)))) (Suc n) h'"
| dropped: "handler_reach R n h \<Longrightarrow> DropPackets encLevel h = Inr h' \<Longrightarrow> handler_reach R n h'"
| acked: "handler_reach R n h \<Longrightarrow> 0 \<le> now \<Longrightarrow> now \<le> maxInt64 \<Longrightarrow> handler_GetAckFrame encLevel now onlyIfQueued h = (f, h')
    \<Longrightarrow> handler_reach R n h'"
| truncated: "handler_reach R n h \<Longrightarrow> rt_lastAck (ad_tracker (ph_appDataPackets h)) = Some f \<Longrightarrow> Truncate f maxSize = Inr f'
    \<Longrightarrow> handler_reach R n (h\<lparr>ph_appDataPackets := (ph_appDataPackets h)\<lparr>ad_tracker :=
          (ad_tracker (ph_appDataPackets h))\<lparr>rt_lastAck := Some f'\<rparr>\<rparr>\<rparr>)"

definition tracker_ok :: "PacketNumber set \<Rightarrow> nat \<Rightarrow> receivedPacketTracker \<Rightarrow> bool" where
  "tracker_ok R n t = (tracker_inv R n t \<and> ack_pending t)"

definition handler_inv :: "(EncryptionLevel \<Rightarrow> PacketNumber set) \<Rightarrow> nat \<Rightarrow> ReceivedPacketHandler \<Rightarrow> bool" where
  "handler_inv R n h = (R EncryptionInitial \<subseteq> {0..<2 ^ 62} \<and> R EncryptionHandshake \<subseteq> {0..<2 ^ 62}
     \<and> pred_option (tracker_ok (R EncryptionInitial) n) (ph_initialPackets h)
     \<and> pred_option (tracker_ok (R EncryptionHandshake) n) (ph_handshakePackets h)
     \<and> app_inv (R Encryption1RTT) n (ph_appDataPackets h) \<and> ack_pending (ad_tracker (ph_appDataPackets h)))"

lemma tracker_ok_Suc: "pred_option (tracker_ok R n) t \<Longrightarrow> R \<subseteq> {0..<2 ^ 62} \<Longrightarrow> pred_option (tracker_ok R (Suc n)) t"
  using tracker_inv_mono [of R n _ R "Suc n"] by (cases t) (auto simp: tracker_ok_def)

lemma app_inv_Suc: "app_inv R n a \<Longrightarrow> app_inv R (Suc n) a"
  using tracker_inv_mono [of R n "ad_tracker a" R "Suc n"] by (auto simp: app_inv_def tracker_inv_def)

lemma tracker_ok_received:
  "tracker_ok R n t \<Longrightarrow> 0 \<le> pn \<Longrightarrow> pn < 2 ^ 62 \<Longrightarrow> tracker_ReceivedPacket pn ecn el t = (None, t') \<Longrightarrow> tracker_ok (insert pn R) (Suc n) t'"
  using tracker_ReceivedPacket_spec(1,2) by (auto simp: tracker_ok_def)

lemma tracker_ok_acked: "tracker_ok R n t \<Longrightarrow> tracker_GetAckFrame t = (f, t') \<Longrightarrow> tracker_ok R n t'"
  using tracker_inv_acked [of R n t 0 False] by (auto simp: tracker_ok_def tracker_GetAckFrame_eq split: if_splits)

lemma IgnoreBelow_tracks:
  "k = 0 \<Longrightarrow> app_inv R n a \<Longrightarrow> IgnoreBelow k a = a"
  by (simp add: IgnoreBelow_def app_inv_def)

lemma handler_inv_received:
  assumes inv: "handler_inv R n h" and pn: "0 \<le> pn" "pn < 2 ^ 62" and "0 \<le> rcvTime" "k = 0 \<or> 0 < k \<and> encLevel = Encryption1RTT"
    and step: "handler_ReceivedPacket rttStats pn ecn encLevel rcvTime el (IgnorePacketsBelow k h) = Inr (None, h')"
  shows "handler_inv (R(space encLevel := insert pn (R (space encLevel)))) (Suc n) h'"
proof -
  let ?a = "IgnoreBelow k (ph_appDataPackets h)"
  have R: "R EncryptionInitial \<subseteq> {0..<2 ^ 62}" "R EncryptionHandshake \<subseteq> {0..<2 ^ 62}"
    and old: "pred_option (tracker_ok (R EncryptionInitial) n) (ph_initialPackets h)"
      "pred_option (tracker_ok (R EncryptionHandshake) n) (ph_handshakePackets h)"
    and app: "app_inv (R Encryption1RTT) n (ph_appDataPackets h)" "ack_pending (ad_tracker (ph_appDataPackets h))"
    using inv by (auto simp: handler_inv_def)
  note later = tracker_ok_Suc [OF old(1) R(1)] tracker_ok_Suc [OF old(2) R(2)]
  have ign: "app_inv (R Encryption1RTT) n ?a" using IgnoreBelow_inv [OF app(1)] assms(5) by auto
  have ins: "insert pn S \<subseteq> {0..<2 ^ 62}" if "S \<subseteq> {0..<2 ^ 62}" for S using that pn by auto
  have same: "encLevel \<noteq> Encryption1RTT \<Longrightarrow> ?a = ph_appDataPackets h" using IgnoreBelow_tracks [OF _ app(1)] assms(5) by auto
  consider (initial) t t' where "encLevel = EncryptionInitial" "ph_initialPackets h = Some t"
      "tracker_ReceivedPacket pn ecn el t = (None, t')" "h' = h\<lparr>ph_initialPackets := Some t', ph_appDataPackets := ?a\<rparr>"
    | (gone) "encLevel = EncryptionHandshake" "ph_handshakePackets h = None" "h' = h\<lparr>ph_appDataPackets := ?a\<rparr>"
    | (handshake) t t' where "encLevel = EncryptionHandshake" "ph_handshakePackets h = Some t"
      "tracker_ReceivedPacket pn ecn el t = (None, t')" "h' = h\<lparr>ph_handshakePackets := Some t', ph_appDataPackets := ?a\<rparr>"
    | (app) a where "space encLevel = Encryption1RTT" "app_ReceivedPacket rttStats pn ecn rcvTime el ?a = Inr (None, a)"
      "ph_appDataPackets h' = a" "ph_initialPackets h' = ph_initialPackets h" "ph_handshakePackets h' = ph_handshakePackets h"
    using step by (auto simp: handler_ReceivedPacket_def handler_app_def IgnorePacketsBelow_def space_def Let_def
        split: if_splits option.splits sum.splits prod.splits)
  then show ?thesis
  proof cases
    case initial
    then have "tracker_ok (insert pn (R EncryptionInitial)) (Suc n) t'" using old(1) tracker_ok_received [OF _ pn] by simp
    then show ?thesis using initial R later app app_inv_Suc same ins by (simp add: handler_inv_def space_def)
  next
    case gone
    then show ?thesis using R later app app_inv_Suc same ins by (simp add: handler_inv_def space_def)
  next
    case handshake
    then have "tracker_ok (insert pn (R EncryptionHandshake)) (Suc n) t'" using old(2) tracker_ok_received [OF _ pn] by simp
    then show ?thesis using handshake R later app app_inv_Suc same ins by (simp add: handler_inv_def space_def)
  next
    case app
    then show ?thesis using app_ReceivedPacket_spec(1,2) [OF ign pn assms(4) app(2)] R later by (simp add: handler_inv_def)
  qed
qed

lemma handler_inv_acked:
  assumes "handler_inv R n h" "0 \<le> now" "now \<le> maxInt64" "handler_GetAckFrame encLevel now onlyIfQueued h = (f, h')"
  shows "handler_inv R n h'"
proof -
  have inv: "pred_option (tracker_ok (R EncryptionInitial) n) (ph_initialPackets h)"
      "pred_option (tracker_ok (R EncryptionHandshake) n) (ph_handshakePackets h)"
      "app_inv (R Encryption1RTT) n (ph_appDataPackets h)" "ack_pending (ad_tracker (ph_appDataPackets h))"
    using assms(1) by (simp_all add: handler_inv_def)
  have ack: "tracker_ok S n (snd (tracker_GetAckFrame t))" if "tracker_ok S n t" for S t
    using tracker_ok_acked [OF that surjective_pairing] .
  consider (initial) "encLevel = EncryptionInitial" | (handshake) "encLevel = EncryptionHandshake" | (app) "encLevel = Encryption1RTT"
    | (other) "encLevel \<noteq> EncryptionInitial" "encLevel \<noteq> EncryptionHandshake" "encLevel \<noteq> Encryption1RTT" by blast
  then show ?thesis
  proof cases
    case initial
    show ?thesis
    proof (cases "ph_initialPackets h")
      case None
      then show ?thesis using assms(1,4) initial by (simp add: handler_GetAckFrame_def)
    next
      case (Some t)
      then have "h' = h\<lparr>ph_initialPackets := Some (snd (tracker_GetAckFrame t))\<rparr>"
        using assms(4) initial by (simp add: handler_GetAckFrame_def case_prod_beta)
      then show ?thesis using assms(1) ack inv(1) Some by (simp add: handler_inv_def)
    qed
  next
    case handshake
    show ?thesis
    proof (cases "ph_handshakePackets h")
      case None
      then show ?thesis using assms(1,4) handshake by (simp add: handler_GetAckFrame_def)
    next
      case (Some t)
      then have "h' = h\<lparr>ph_handshakePackets := Some (snd (tracker_GetAckFrame t))\<rparr>"
        using assms(4) handshake by (simp add: handler_GetAckFrame_def case_prod_beta)
      then show ?thesis using assms(1) ack inv(2) Some by (simp add: handler_inv_def)
    qed
  next
    case app
    let ?a = "snd (app_GetAckFrame now onlyIfQueued (ph_appDataPackets h))"
    have "h' = h\<lparr>ph_appDataPackets := ?a\<rparr>" using assms(4) app by (simp add: handler_GetAckFrame_def case_prod_beta)
    then show ?thesis using app_GetAckFrame_spec(1,2) [OF inv(3,4) assms(2,3) surjective_pairing] assms(1)
      by (simp add: handler_inv_def)
  next
    case other
    then show ?thesis using assms(1,4) by (simp add: handler_GetAckFrame_def)
  qed
qed

lemma handler_reach_inv: "handler_reach R n h \<Longrightarrow> handler_inv R n h"
proof (induction rule: handler_reach.induct)
  case start
  show ?case by (simp add: handler_inv_def NewReceivedPacketHandler_def newAppDataReceivedPacketTracker_def newReceivedPacketTracker_def
        tracker_ok_def app_inv_def tracker_inv_def newReceivedPacketHistory_def history_wf_def)
next
  case received
  then show ?case using handler_inv_received by blast
next
  case (dropped R n h encLevel h')
  then show ?case by (auto simp: DropPackets_def handler_inv_def split: if_splits)
next
  case acked
  then show ?case using handler_inv_acked by blast
next
  case (truncated R n h f maxSize f')
  then have "few n \<longrightarrow> ack_ok f'" using Truncate_ok by (auto simp: handler_inv_def app_inv_def tracker_inv_def)
  then show ?case using truncated.IH by (simp add: handler_inv_def app_inv_def tracker_inv_def)
qed

section \<open>ACK frames of a run\<close>

definition tracked :: "EncryptionLevel \<Rightarrow> ReceivedPacketHandler \<Rightarrow> PacketNumber set" where
  "tracked encLevel h =
     (if encLevel = EncryptionInitial then case ph_initialPackets h of None \<Rightarrow> {} | Some t \<Rightarrow> history_packets (rt_packetHistory t)
      else if encLevel = EncryptionHandshake then case ph_handshakePackets h of None \<Rightarrow> {} | Some t \<Rightarrow> history_packets (rt_packetHistory t)
      else history_packets (rt_packetHistory (ad_tracker (ph_appDataPackets h))))"

lemma tracker_frame_source:
  assumes "tracker_ok R n t" "fst (tracker_GetAckFrame t) = Some f"
  shows "tracker_inv R n t \<and> rh_ranges (rt_packetHistory t) \<noteq> [] \<and> f = tracker_frame t 0"
  using assms by (simp add: tracker_ok_def tracker_GetAckFrame_eq split: if_splits)

lemma frame_source:
  assumes "handler_inv R n h" "0 \<le> now" "now \<le> maxInt64" "handler_GetAckFrame encLevel now onlyIfQueued h = (Some f, h')"
  shows "\<exists>t d. tracker_inv (R encLevel) n t \<and> rh_ranges (rt_packetHistory t) \<noteq> [] \<and> 0 \<le> d \<and> d \<le> maxInt64
    \<and> f = tracker_frame t d \<and> history_packets (rt_packetHistory t) = tracked encLevel h"
proof -
  have inv: "pred_option (tracker_ok (R EncryptionInitial) n) (ph_initialPackets h)"
      "pred_option (tracker_ok (R EncryptionHandshake) n) (ph_handshakePackets h)"
      "app_inv (R Encryption1RTT) n (ph_appDataPackets h)" "ack_pending (ad_tracker (ph_appDataPackets h))"
    using assms(1) by (simp_all add: handler_inv_def)
  have zero: "(0 :: Duration) \<le> 0 \<and> (0 :: Duration) \<le> maxInt64" by simp
  consider (initial) t where "encLevel = EncryptionInitial" "ph_initialPackets h = Some t" "fst (tracker_GetAckFrame t) = Some f"
    | (handshake) t where "encLevel = EncryptionHandshake" "ph_handshakePackets h = Some t" "fst (tracker_GetAckFrame t) = Some f"
    | (app) "encLevel = Encryption1RTT" "fst (app_GetAckFrame now onlyIfQueued (ph_appDataPackets h)) = Some f"
    using assms(4) unfolding handler_GetAckFrame_def
    by (cases "ph_initialPackets h"; cases "ph_handshakePackets h") (simp_all add: case_prod_beta split: if_splits)
  then show ?thesis
  proof cases
    case initial
    then show ?thesis using tracker_frame_source [OF _ initial(3)] inv(1) zero
      by (intro exI [of _ t] exI [of _ 0]) (simp add: tracked_def)
  next
    case handshake
    then show ?thesis using tracker_frame_source [OF _ handshake(3)] inv(2) zero
      by (intro exI [of _ t] exI [of _ 0]) (simp add: tracked_def)
  next
    case app
    let ?a = "ph_appDataPackets h"
    obtain a' where a': "app_GetAckFrame now onlyIfQueued ?a = (Some f, a')" using app(2) by (metis prod.collapse)
    have "0 \<le> ad_largestObservedRcvdTime ?a" "tracker_inv (R encLevel) n (ad_tracker ?a)" using inv(3) app(1) by (simp_all add: app_inv_def)
    then show ?thesis using app_GetAckFrame_spec(3) [OF inv(3,4) assms(2,3) a' refl] assms(2,3) app(1)
      by (intro exI [of _ "ad_tracker ?a"] exI [of _ "max 0 (now - ad_largestObservedRcvdTime ?a)"]) (simp add: tracked_def)
  qed
qed

section \<open>Properties\<close>

text \<open>C12: Only received packets are acknowledged. After any run of the handler, let \<open>GetAckFrame\<close> return a frame for an encryption level.
  \<open>Append\<close> writes the frame, the peer's \<open>parseAckFrame\<close> reads it whatever follows, and in what it reads \<open>AcksPacket\<close> is true of
  exactly the packets in the history of that packet number space, all of which were received in that space.\<close>

theorem acks_only_received:
  assumes "handler_reach R n h" "n < 2 ^ 62" "0 \<le> now" "now \<le> maxInt64"
    and "handler_GetAckFrame encLevel now onlyIfQueued h = (Some f, h')"
  shows "\<exists>w g. (\<forall>b. AckFrame_Append f b = Inr (b @ venc (AckFrame_type f) @ w))
    \<and> (\<forall>rest. parseAckFrame AckDelayExponent (AckFrame_type f) (w @ rest) = Inr (g, length w))
    \<and> (\<forall>q. AcksPacket g q = Inr (q \<in> tracked encLevel h)) \<and> tracked encLevel h \<subseteq> R encLevel"
proof -
  obtain t d where t: "tracker_inv (R encLevel) n t" "rh_ranges (rt_packetHistory t) \<noteq> []" "0 \<le> d" "d \<le> maxInt64"
    and f: "f = tracker_frame t d" and q: "history_packets (rt_packetHistory t) = tracked encLevel h"
    using frame_source [OF handler_reach_inv [OF assms(1)] assms(3-5)] by blast
  have few: "few n" using assms(2) by (simp add: few_def)
  note ok = tracker_frame_ok [OF t(1) few t(2-4), folded f, unfolded q]
  obtain w g where w: "\<And>b. AckFrame_Append f b = Inr (b @ venc (AckFrame_type f) @ w)"
    "\<And>rest. parseAckFrame AckDelayExponent (AckFrame_type f) (w @ rest) = Inr (g, length w)"
    and g: "ack_ok g" "ack_AckRanges g = ack_AckRanges f"
    using ack_wire [OF ok(1,2)] by metis
  have "AcksPacket g x = Inr (x \<in> tracked encLevel h)" for x using AcksPacket_member [OF g(1), of x] ok(3) [of x] g(2) by simp
  moreover have "tracked encLevel h \<subseteq> R encLevel" using t(1) q by (simp add: tracker_inv_def)
  ultimately show ?thesis using w by blast
qed

text \<open>C13: No ACK is forgotten. After any run of the handler, registering a packet of the application data does not panic. If the packet
  is accepted and elicits an ACK, and no other packet arrives, then at the latest \<open>MaxAckDelay\<close> after it was received, and
  whatever the RTT statistics say, the ACK alarm has expired or an ACK is queued: \<open>GetAckFrame\<close> returns a frame even when asked for queued ACKs only.\<close>

theorem ack_in_time:
  assumes "handler_reach R n h" "n < 2 ^ 62" "0 \<le> pn" "pn < 2 ^ 62" "0 \<le> rcvTime" "0 \<le> k"
    and "encLevel = Encryption0RTT \<or> encLevel = Encryption1RTT"
  shows "\<exists>err h'. handler_ReceivedPacket rttStats pn ecn encLevel rcvTime ackEliciting (IgnorePacketsBelow k h) = Inr (err, h')
    \<and> (err = None \<longrightarrow> ackEliciting \<longrightarrow> (\<forall>now. rcvTime + MaxAckDelay \<le> now
        \<longrightarrow> GetAlarmTimeout h' \<le> now \<or> ad_ackQueued (ph_appDataPackets h'))
      \<and> (\<forall>now. rcvTime + MaxAckDelay \<le> now \<longrightarrow> (\<exists>f h''. handler_GetAckFrame Encryption1RTT now True h' = (Some f, h''))))"
proof -
  let ?a = "IgnoreBelow k (ph_appDataPackets h)"
  have inv: "app_inv (R Encryption1RTT) n ?a"
    using handler_reach_inv [OF assms(1)] IgnoreBelow_inv [OF _ assms(6)] by (simp add: handler_inv_def)
  have few: "few n" using assms(2) by (simp add: few_def)
  obtain err a where a: "app_ReceivedPacket rttStats pn ecn rcvTime ackEliciting ?a = Inr (err, a)"
    using app_ReceivedPacket_total [OF inv few assms(3,4)] by (metis surj_pair)
  note spec = app_ReceivedPacket_spec(3) [OF inv assms(3-5) a]
  have soon: "ad_ackQueued a \<or> ad_ackAlarm a \<le> now"
    and frame: "\<exists>f a'. app_GetAckFrame now True a = (Some f, a')"
    if "err = None" "ackEliciting" "rcvTime + MaxAckDelay \<le> now" for now
    using spec [OF that(1,2)] that(3) by (auto simp: app_GetAckFrame_eq Let_def)
  have app: "handler_app rttStats pn ecn rcvTime ackEliciting h0 = Inr (err, h0\<lparr>ph_appDataPackets := a\<rparr>)"
    if "ph_appDataPackets h0 = ?a" for h0 using a that by (simp add: handler_app_def)
  have "\<exists>err' h'. handler_ReceivedPacket rttStats pn ecn encLevel rcvTime ackEliciting (IgnorePacketsBelow k h) = Inr (err', h')
    \<and> (err' = None \<longrightarrow> err = None \<and> ph_appDataPackets h' = a)"
    using assms(7) app by (auto simp: handler_ReceivedPacket_def IgnorePacketsBelow_def Let_def)
  then obtain err' h' where h': "handler_ReceivedPacket rttStats pn ecn encLevel rcvTime ackEliciting (IgnorePacketsBelow k h) = Inr (err', h')"
    "err' = None \<longrightarrow> err = None \<and> ph_appDataPackets h' = a" by blast
  have "GetAlarmTimeout h' \<le> now \<or> ad_ackQueued (ph_appDataPackets h')"
    and "\<exists>f h''. handler_GetAckFrame Encryption1RTT now True h' = (Some f, h'')"
    if "err' = None" "ackEliciting" "rcvTime + MaxAckDelay \<le> now" for now
    using soon [of now] frame [of now] that h'(2) by (auto simp: GetAlarmTimeout_def app_GetAlarmTimeout_def handler_GetAckFrame_def)
  then show ?thesis using h'(1) by blast
qed

section \<open>A stream of packets in order\<close>

text \<open>All packets below \<open>k\<close> have been received, those below \<open>m\<close> were acknowledged, and no ACK is queued.\<close>

definition stream :: "int \<Rightarrow> int \<Rightarrow> appDataReceivedPacketTracker \<Rightarrow> bool" where
  "stream k m a = (rt_packetHistory (ad_tracker a) = \<lparr>rh_ranges = [\<lparr>iv_Start = 0, iv_End = k - 1\<rparr>], rh_deletedBelow = InvalidPacketNumber\<rparr>
     \<and> map_option ack_AckRanges (rt_lastAck (ad_tracker a)) = Some [\<lparr>ar_Smallest = 0, ar_Largest = m - 1\<rparr>]
     \<and> ad_largestObserved a = k - 1 \<and> ad_ignoreBelow a = 0 \<and> ad_maxAckDelay a = MaxAckDelay \<and> \<not> ad_ackQueued a
     \<and> ad_sinceLastAck a = k - m \<and> ad_ackElicitingPacketsReceived a = k)"

lemma stream_history:
  assumes "0 < k"
  shows "history_ReceivedPacket k \<lparr>rh_ranges = [\<lparr>iv_Start = 0, iv_End = k - 1\<rparr>], rh_deletedBelow = InvalidPacketNumber\<rparr>
    = (True, \<lparr>rh_ranges = [\<lparr>iv_Start = 0, iv_End = k\<rparr>], rh_deletedBelow = InvalidPacketNumber\<rparr>)"
  using assms by (simp add: history_ReceivedPacket_def addToRanges_def)

lemma ackDelay_alarm: "ackDelay rttStats (a\<lparr>ad_ackAlarm := x\<rparr>) = ackDelay rttStats a"
  by (cases rttStats) (simp_all add: ackDelay_def decimated_def)

lemma stream_received:
  assumes "stream k m a" "0 < m" "m \<le> k" "k + 1 - m < (if k + 1 \<ge> 100 then 10 else 2)" "ecn \<noteq> ECNCE"
  shows "\<exists>a'. app_ReceivedPacket rttStats k ecn rcvTime True a = Inr (None, a') \<and> stream (k + 1) m a' \<and> rt_hasNewAck (ad_tracker a')
    \<and> ad_ackAlarm a' = rcvTime + ackDelay rttStats a'"
proof -
  let ?h = "\<lparr>rh_ranges = [\<lparr>iv_Start = 0, iv_End = k\<rparr>], rh_deletedBelow = InvalidPacketNumber\<rparr>"
  let ?t = "(ecn_counted ecn ((ad_tracker a)\<lparr>rt_packetHistory := ?h\<rparr>))\<lparr>rt_hasNewAck := True\<rparr>"
  let ?c = "counted (observed k rcvTime ?t a)"
  have st: "rt_packetHistory (ad_tracker a) = \<lparr>rh_ranges = [\<lparr>iv_Start = 0, iv_End = k - 1\<rparr>], rh_deletedBelow = InvalidPacketNumber\<rparr>"
    "ad_largestObserved a = k - 1" "ad_ignoreBelow a = 0" "ad_maxAckDelay a = MaxAckDelay" "\<not> ad_ackQueued a"
    "ad_sinceLastAck a = k - m" "ad_ackElicitingPacketsReceived a = k"
    using assms(1) by (simp_all add: stream_def)
  obtain f where f: "rt_lastAck (ad_tracker a) = Some f" "ack_AckRanges f = [\<lparr>ar_Smallest = 0, ar_Largest = m - 1\<rparr>]"
    using assms(1) by (auto simp: stream_def)
  have t: "tracker_ReceivedPacket k ecn True (ad_tracker a) = (None, ?t)"
    using tracker_ReceivedPacket_eq [OF stream_history [of k, folded st(1)]] assms(2,3) by simp
  have c: "ad_largestObserved ?c = k" "ad_sinceLastAck ?c = k + 1 - m" "ad_ackElicitingPacketsReceived ?c = k + 1"
    using st by (simp_all add: counted_def observed_def Let_def)
  have largest: "LargestAcked f = Inr (m - 1)" using f(2) by (simp add: LargestAcked_def at_def)
  have miss: "isMissing k ?c = Inr False" using f(1) largest assms(2,3) st(3) by (simp add: isMissing_def)
  have "HighestMissingUpTo (k - 1) ?h = InvalidPacketNumber" using assms(2,3) by (simp add: HighestMissingUpTo_def)
  then have "hasNewMissingPackets ?c = Inr False" using f(1) c(1) by (simp add: hasNewMissingPackets_def)
  then have queue: "shouldQueueACK k ecn False ?c = Inr False"
    using assms(4,5) c(2,3) by (auto simp: shouldQueueACK_def packetsBeforeAck_def decimated_def)
  let ?a' = "settled rttStats rcvTime False ?c"
  have eq: "?a' = ?c\<lparr>ad_ackAlarm := rcvTime + ackDelay rttStats ?c\<rparr>" using st(5) by (simp add: settled_def Let_def)
  have "app_ReceivedPacket rttStats k ecn rcvTime True a = Inr (None, ?a')"
    using app_ReceivedPacket_cases [OF t] miss queue st(5) by (simp add: Let_def)
  moreover have "stream (k + 1) m ?a'" using eq c st f by (simp add: stream_def)
  moreover have "ad_ackAlarm ?a' = rcvTime + ackDelay rttStats ?a'" unfolding eq by (simp add: ackDelay_alarm)
  ultimately show ?thesis by (intro exI [of _ ?a']) simp
qed

lemma stream_acked:
  assumes "stream k m a" "rt_hasNewAck (ad_tracker a)"
  shows "\<exists>f a'. app_GetAckFrame now False a = (Some f, a') \<and> stream k k a'"
  using assms by (simp add: app_GetAckFrame_eq Let_def stream_def app_acked_def tracker_frame_def ack_range_def)

lemma stream_step:
  fixes rcvTime :: Monotime
  assumes "handler_reach R n h" "stream k m (ph_appDataPackets h)" "0 < m" "m \<le> k" "k < 2 ^ 62"
    and "k + 1 - m < (if k + 1 \<ge> 100 then 10 else 2)" "0 \<le> rcvTime"
  obtains R' h' where "handler_reach R' (Suc n) h'" "stream (k + 1) m (ph_appDataPackets h')" "rt_hasNewAck (ad_tracker (ph_appDataPackets h'))"
    "k \<in> R' Encryption1RTT"
proof -
  let ?a = "ph_appDataPackets h"
  obtain a where a: "app_ReceivedPacket None k ECNNon rcvTime True ?a = Inr (None, a)" "stream (k + 1) m a" "rt_hasNewAck (ad_tracker a)"
    using stream_received [OF assms(2-4,6), of ECNNon] by blast
  have "IgnorePacketsBelow 0 h = h" using assms(2) by (simp add: IgnorePacketsBelow_def IgnoreBelow_def stream_def)
  moreover define l where "l = (if ph_lowest1RTTPacket h = InvalidPacketNumber \<or> k < ph_lowest1RTTPacket h then h\<lparr>ph_lowest1RTTPacket := k\<rparr> else h)"
  then have "ph_appDataPackets l = ?a" by simp
  ultimately have "handler_ReceivedPacket None k ECNNon Encryption1RTT rcvTime True (IgnorePacketsBelow 0 h) = Inr (None, l\<lparr>ph_appDataPackets := a\<rparr>)"
    using a(1) by (simp add: handler_ReceivedPacket_def handler_app_def Let_def flip: l_def)
  then obtain h' where h': "handler_ReceivedPacket None k ECNNon Encryption1RTT rcvTime True (IgnorePacketsBelow 0 h) = Inr (None, h')"
    "ph_appDataPackets h' = a" by simp
  have "0 \<le> k" using assms(3,4) by simp
  from received [OF assms(1) this assms(5,7) _ h'(1)] show ?thesis using that h'(2) a(2,3) by (simp add: space_def)
qed

lemma stream_start:
  obtains R h where "handler_reach R 1 h" "stream 1 1 (ph_appDataPackets h)"
proof -
  let ?h = "NewReceivedPacketHandler"
  obtain h1 where h1: "handler_ReceivedPacket None 0 ECNNon Encryption1RTT 0 True (IgnorePacketsBelow 0 ?h) = Inr (None, h1)"
    and a1: "ph_appDataPackets h1 = newAppDataReceivedPacketTracker\<lparr>ad_tracker := newReceivedPacketTracker\<lparr>rt_packetHistory :=
        \<lparr>rh_ranges = [\<lparr>iv_Start = 0, iv_End = 0\<rparr>], rh_deletedBelow = InvalidPacketNumber\<rparr>, rt_hasNewAck := True\<rparr>,
      ad_sinceLastAck := 1, ad_ackElicitingPacketsReceived := 1, ad_ackAlarm := MaxAckDelay\<rparr>"
    by (simp add: handler_ReceivedPacket_def handler_app_def NewReceivedPacketHandler_def IgnorePacketsBelow_def IgnoreBelow_def
        newAppDataReceivedPacketTracker_def app_ReceivedPacket_def tracker_ReceivedPacket_def newReceivedPacketTracker_def
        newReceivedPacketHistory_def history_ReceivedPacket_def addToRanges_def isMissing_def shouldQueueACK_def packetsBeforeAck_def
        decimated_def hasNewMissingPackets_def ackDelay_def Let_def)
  have r1: "handler_reach ((\<lambda>_. {})(space Encryption1RTT := {0})) (Suc 0) h1" using received [OF start _ _ _ _ h1] by simp
  have "\<exists>f h2. handler_GetAckFrame Encryption1RTT 0 False h1 = (Some f, h2) \<and> stream 1 1 (ph_appDataPackets h2)"
    using a1 by (simp add: handler_GetAckFrame_def app_GetAckFrame_eq Let_def stream_def app_acked_def tracker_frame_def ack_range_def
        newAppDataReceivedPacketTracker_def newReceivedPacketTracker_def)
  then obtain f h2 where h2: "handler_GetAckFrame Encryption1RTT 0 False h1 = (Some f, h2)" "stream 1 1 (ph_appDataPackets h2)" by blast
  have "handler_reach ((\<lambda>_. {})(space Encryption1RTT := {0})) 1 h2" using acked [OF r1 _ _ h2(1)] by simp
  then show ?thesis using that h2(2) by blast
qed

lemma stream_run: "0 < k \<Longrightarrow> k < 1000 \<Longrightarrow> \<exists>R h. handler_reach R k h \<and> stream (int k) (int k) (ph_appDataPackets h)"
proof (induction k)
  case (Suc k)
  show ?case
  proof (cases "k = 0")
    case True
    then show ?thesis using stream_start by (metis One_nat_def of_nat_1)
  next
    case False
    then obtain R h where h: "handler_reach R k h" "stream (int k) (int k) (ph_appDataPackets h)" using Suc by auto
    obtain R' h' where h': "handler_reach R' (Suc k) h'" "stream (int k + 1) (int k) (ph_appDataPackets h')"
      "rt_hasNewAck (ad_tracker (ph_appDataPackets h'))"
      by (rule stream_step [OF h, of 0]) (use False Suc.prems in auto)
    obtain f a where a: "app_GetAckFrame 0 False (ph_appDataPackets h') = (Some f, a)" "stream (int k + 1) (int k + 1) a"
      using stream_acked [OF h'(2,3)] by blast
    have "handler_GetAckFrame Encryption1RTT 0 False h' = (Some f, h'\<lparr>ph_appDataPackets := a\<rparr>)"
      using a(1) by (simp add: handler_GetAckFrame_def)
    from acked [OF h'(1) _ _ this] have "handler_reach R' (Suc k) (h'\<lparr>ph_appDataPackets := a\<rparr>)" by simp
    then show ?thesis using a(2) by (intro exI [of _ R'] exI [of _ "h'\<lparr>ph_appDataPackets := a\<rparr>"]) (simp add: add.commute)
  qed
qed simp

text \<open>
  Packets \<open>k\<close>, \<open>k + 1\<close>, ... that elicit an ACK arrive at the given times, and between them the connection asks for a queued ACK
  (\<open>GetAckFrame\<close> with \<open>onlyIfQueued\<close>). The run returns the first error and the ACK frames returned. It is
  \<open>quiet\<close> if everything happens less than \<open>D\<close> after the last arrival, which was at time \<open>t\<close>.
\<close>

datatype ack_event = Arrival Monotime | Poll Monotime

fun drive :: "Duration option \<Rightarrow> PacketNumber \<Rightarrow> ack_event list \<Rightarrow> appDataReceivedPacketTracker
    \<Rightarrow> pack_error + (receive_error option \<times> AckFrame list \<times> appDataReceivedPacketTracker)" where
  "drive rttStats k [] a = Inr (None, [], a)"
| "drive rttStats k (Arrival t # es) a =
     rbind (app_ReceivedPacket rttStats k ECNNon t True a) (\<lambda>(err, a).
     if err = None then drive rttStats (k + 1) es a else Inr (err, [], a))"
| "drive rttStats k (Poll t # es) a =
     (case app_GetAckFrame t True a of (ack, a) \<Rightarrow>
      rbind (drive rttStats k es a) (\<lambda>(err, acks, a).
      Inr (err, (case ack of None \<Rightarrow> acks | Some f \<Rightarrow> f # acks), a)))"

fun quiet :: "Duration \<Rightarrow> Monotime \<Rightarrow> ack_event list \<Rightarrow> bool" where
  "quiet D t [] = True"
| "quiet D t (Arrival t' # es) = (t' < t + D \<and> quiet D t' es)"
| "quiet D t (Poll t' # es) = (t' < t + D \<and> quiet D t es)"

fun arrivals :: "ack_event list \<Rightarrow> nat" where
  "arrivals [] = 0"
| "arrivals (Arrival t # es) = Suc (arrivals es)"
| "arrivals (Poll t # es) = arrivals es"

fun last_arrival :: "Monotime \<Rightarrow> ack_event list \<Rightarrow> Monotime" where
  "last_arrival t [] = t"
| "last_arrival t (Arrival t' # es) = last_arrival t' es"
| "last_arrival t (Poll t' # es) = last_arrival t es"

text \<open>The delay of the alarm on a decimated connection.\<close>

definition decimated_delay :: "Duration option \<Rightarrow> Duration" where
  "decimated_delay rttStats = (case rttStats of None \<Rightarrow> MaxAckDelay
     | Some minRTT \<Rightarrow> if minRTT \<le> 0 then MaxAckDelay else max (min MaxAckDelay (go_div minRTT 4)) Millisecond)"

lemma stream_delay: "stream k m a \<Longrightarrow> 100 \<le> k \<Longrightarrow> ackDelay rttStats a = decimated_delay rttStats"
  by (simp add: stream_def ackDelay_def decimated_def decimated_delay_def split: option.splits)

lemma stream_silent:
  assumes "stream k m a" "now < ad_ackAlarm a"
  shows "app_GetAckFrame now True a = (None, a)"
  using assms by (simp add: stream_def app_GetAckFrame_eq)

lemma drive_stream:
  "stream k m a \<Longrightarrow> 0 < m \<Longrightarrow> m \<le> k \<Longrightarrow> 99 \<le> k \<Longrightarrow> k + int (arrivals es) - m < 10
    \<Longrightarrow> ad_ackAlarm a = t + decimated_delay rttStats \<Longrightarrow> quiet (decimated_delay rttStats) t es
    \<Longrightarrow> \<exists>a'. drive rttStats k es a = Inr (None, [], a') \<and> stream (k + int (arrivals es)) m a'
      \<and> ad_ackAlarm a' = last_arrival t es + decimated_delay rttStats"
proof (induction es arbitrary: k a t)
  case (Cons e es)
  show ?case
  proof (cases e)
    case (Arrival t')
    obtain a1 where a1: "app_ReceivedPacket rttStats k ECNNon t' True a = Inr (None, a1)" "stream (k + 1) m a1"
      "ad_ackAlarm a1 = t' + ackDelay rttStats a1"
      using stream_received [of k m a ECNNon rttStats t'] Cons.prems Arrival by auto
    have "ad_ackAlarm a1 = t' + decimated_delay rttStats" using a1(3) stream_delay [OF a1(2)] Cons.prems(4) by simp
    then have "\<exists>a'. drive rttStats (k + 1) es a1 = Inr (None, [], a') \<and> stream (k + 1 + int (arrivals es)) m a'
        \<and> ad_ackAlarm a' = last_arrival t' es + decimated_delay rttStats"
      using Cons.IH [OF a1(2)] Cons.prems Arrival by simp
    then show ?thesis using a1(1) Arrival by (simp add: algebra_simps)
  next
    case (Poll t')
    have "app_GetAckFrame t' True a = (None, a)" using stream_silent Cons.prems Poll by simp
    moreover have "\<exists>a'. drive rttStats k es a = Inr (None, [], a') \<and> stream (k + int (arrivals es)) m a'
        \<and> ad_ackAlarm a' = last_arrival t es + decimated_delay rttStats"
      using Cons.IH [of k a t] Cons.prems Poll by simp
    ultimately show ?thesis using Poll by auto
  qed
qed simp

text \<open>Eight more packets, each just before the alarm expires.\<close>

definition late_packets :: "Duration \<Rightarrow> Monotime \<Rightarrow> ack_event list" where
  "late_packets D t = map (\<lambda>i. Arrival (t + i * (D - 1))) [1, 2, 3, 4, 5, 6, 7, 8]"

text \<open>C17: On a decimated connection every packet pushes the ACK alarm back. From the 100th packet on, the tracker waits for ten packets that
  elicit an ACK. Let the first one after an ACK arrive at time \<open>t\<close> and up to eight more follow in order, each before the alarm set by the one before expires, and
  let the connection ask for an ACK in between as often as it likes, always before the alarm. Then it gets none, nor does it at any time until
  \<open>ackDelay\<close> after the last arrival. This is not bounded by \<open>MaxAckDelay\<close> after the first packet: there is such a sequence of arrivals
  for which it is later than \<open>t + MaxAckDelay\<close>, whenever the delay of the alarm is at least 3 ms, that is, the minimum RTT is unknown or at least 12 ms.\<close>

theorem ack_alarm_pushed_back:
  assumes "stream k k a" "99 \<le> k" "quiet (decimated_delay rttStats) t es" "arrivals es \<le> 8"
  shows "(\<exists>a'. drive rttStats k (Arrival t # es) a = Inr (None, [], a')
      \<and> (\<forall>now < last_arrival t es + ackDelay rttStats a'. app_GetAckFrame now True a' = (None, a')) \<and> ackDelay rttStats a' = decimated_delay rttStats)
    \<and> quiet (decimated_delay rttStats) t (late_packets (decimated_delay rttStats) t) \<and> arrivals (late_packets (decimated_delay rttStats) t) = 8
    \<and> (3 * Millisecond \<le> decimated_delay rttStats \<longrightarrow>
        t + MaxAckDelay < last_arrival t (late_packets (decimated_delay rttStats) t) + decimated_delay rttStats)"
proof (intro conjI impI)
  obtain a1 where a1: "app_ReceivedPacket rttStats k ECNNon t True a = Inr (None, a1)" "stream (k + 1) k a1"
    "ad_ackAlarm a1 = t + ackDelay rttStats a1"
    using stream_received [of k k a ECNNon rttStats t] assms(1,2) by auto
  have "ad_ackAlarm a1 = t + decimated_delay rttStats" using a1(3) stream_delay [OF a1(2)] assms(2) by simp
  from drive_stream [OF a1(2) _ _ _ _ this assms(3)] obtain a' where
    a': "drive rttStats (k + 1) es a1 = Inr (None, [], a')" "stream (k + 1 + int (arrivals es)) k a'"
    "ad_ackAlarm a' = last_arrival t es + decimated_delay rttStats" using assms(2,4) by auto
  have d: "ackDelay rttStats a' = decimated_delay rttStats" using stream_delay [OF a'(2)] assms(2) by simp
  have "app_GetAckFrame now True a' = (None, a')" if "now < last_arrival t es + ackDelay rttStats a'" for now
    using stream_silent [OF a'(2)] that a'(3) d by simp
  then show "\<exists>a'. drive rttStats k (Arrival t # es) a = Inr (None, [], a')
      \<and> (\<forall>now < last_arrival t es + ackDelay rttStats a'. app_GetAckFrame now True a' = (None, a')) \<and> ackDelay rttStats a' = decimated_delay rttStats"
    using a1(1) a'(1) d by auto
qed (simp_all add: late_packets_def algebra_simps)

theorem ack_alarm_pushed_back_witness:
  "\<exists>R h a'. handler_reach R 100 h
    \<and> drive (Some (100 * Millisecond)) 100 [Arrival 0, Poll Millisecond, Arrival (24 * Millisecond), Poll (48 * Millisecond), Arrival (48 * Millisecond)]
        (ph_appDataPackets h) = Inr (None, [], a')
    \<and> app_GetAckFrame (72 * Millisecond) True a' = (None, a') \<and> 72 * Millisecond > 0 + 2 * MaxAckDelay"
proof -
  let ?es = "[Poll Millisecond, Arrival (24 * Millisecond), Poll (48 * Millisecond), Arrival (48 * Millisecond)]" and ?rtt = "Some (100 * Millisecond)"
  obtain R h where h: "handler_reach R 100 h" "stream 100 100 (ph_appDataPackets h)" using stream_run [of 100] by auto
  have d: "decimated_delay ?rtt = MaxAckDelay" by (simp add: decimated_delay_def go_div_def)
  then have "quiet (decimated_delay ?rtt) 0 ?es" "arrivals ?es \<le> 8" by simp_all
  from ack_alarm_pushed_back [OF h(2) _ this] obtain a' where a': "drive ?rtt 100 (Arrival 0 # ?es) (ph_appDataPackets h) = Inr (None, [], a')"
    "\<forall>now < last_arrival 0 ?es + MaxAckDelay. app_GetAckFrame now True a' = (None, a')" using d by auto
  then show ?thesis using h(1) by (intro exI [of _ R] exI [of _ h] exI [of _ a']) simp
qed

lemma sample_ack:
  obtains R h f h' where "handler_reach R 11 h" "handler_GetAckFrame Encryption1RTT 5 False h = (Some f, h')" "10 \<in> tracked Encryption1RTT h"
proof -
  obtain R h where h: "handler_reach R 10 h" "stream 10 10 (ph_appDataPackets h)" using stream_run [of 10] by auto
  obtain R' g where g: "handler_reach R' (Suc 10) g" "stream (10 + 1) 10 (ph_appDataPackets g)" "rt_hasNewAck (ad_tracker (ph_appDataPackets g))"
    by (rule stream_step [OF h, of 0]) auto
  obtain f a where "app_GetAckFrame 5 False (ph_appDataPackets g) = (Some f, a)" using stream_acked [OF g(2,3)] by blast
  then have "handler_GetAckFrame Encryption1RTT 5 False g = (Some f, g\<lparr>ph_appDataPackets := a\<rparr>)" by (simp add: handler_GetAckFrame_def)
  moreover have "10 \<in> tracked Encryption1RTT g" using g(2) by (simp add: tracked_def stream_def)
  ultimately show ?thesis using that g(1) by simp
qed

theorem acks_only_received_witness:
  "\<exists>R h f h' w g. handler_reach R 11 h \<and> handler_GetAckFrame Encryption1RTT 5 False h = (Some f, h')
    \<and> parseAckFrame AckDelayExponent (AckFrame_type f) w = Inr (g, length w) \<and> AcksPacket g 10 = Inr True \<and> 10 \<in> R Encryption1RTT"
proof -
  obtain R h f h' where h: "handler_reach R 11 h" "handler_GetAckFrame Encryption1RTT 5 False h = (Some f, h')" "10 \<in> tracked Encryption1RTT h"
    by (rule sample_ack)
  obtain w g where w: "\<forall>rest. parseAckFrame AckDelayExponent (AckFrame_type f) (w @ rest) = Inr (g, length w)"
    and g: "\<forall>q. AcksPacket g q = Inr (q \<in> tracked Encryption1RTT h)" "tracked Encryption1RTT h \<subseteq> R Encryption1RTT"
    using acks_only_received [OF h(1) _ _ _ h(2)] by auto
  have "parseAckFrame AckDelayExponent (AckFrame_type f) w = Inr (g, length w)" using spec [OF w, of "[]"] by simp
  moreover have "AcksPacket g 10 = Inr True" "10 \<in> R Encryption1RTT" using g h(3) by auto
  ultimately show ?thesis using h(1,2) by blast
qed

theorem ack_in_time_witness:
  "\<exists>R h h'. handler_reach R 10 h
    \<and> handler_ReceivedPacket None 10 ECT0 Encryption1RTT 7 True (IgnorePacketsBelow 0 h) = Inr (None, h')
    \<and> (\<exists>f h''. handler_GetAckFrame Encryption1RTT (7 + MaxAckDelay) True h' = (Some f, h''))"
proof -
  obtain R h where h: "handler_reach R 10 h" "stream 10 10 (ph_appDataPackets h)" using stream_run [of 10] by auto
  obtain a where a: "app_ReceivedPacket None 10 ECT0 7 True (ph_appDataPackets h) = Inr (None, a)"
    using stream_received [OF h(2), of ECT0 None 7] by auto
  have "IgnorePacketsBelow 0 h = h" using h(2) by (simp add: IgnorePacketsBelow_def IgnoreBelow_def stream_def)
  then have "\<exists>h'. handler_ReceivedPacket None 10 ECT0 Encryption1RTT 7 True (IgnorePacketsBelow 0 h) = Inr (None, h')"
    using a by (simp add: handler_ReceivedPacket_def handler_app_def Let_def)
  then obtain h' where "handler_ReceivedPacket None 10 ECT0 Encryption1RTT 7 True (IgnorePacketsBelow 0 h) = Inr (None, h')"
    "\<exists>f h''. handler_GetAckFrame Encryption1RTT (7 + MaxAckDelay) True h' = (Some f, h'')"
    using ack_in_time [OF h(1), of 10 7 0 Encryption1RTT None ECT0 True] by auto
  then show ?thesis using h(1) by blast
qed

end
