(* ===== verification/Spec2Isabelle.thy ===== *)
theory Spec2Isabelle
  imports Wire_Fingerprint Wire_Hello_Spec Quic_Chaos Quic_Conn_Frames Quic_Crypto_Spec Quic_Header Quic_Flow_Net Quic_Ack_Spec
begin

text \<open>
  Verification of headless-client, a client that looks like a browser on the wire. The development models two
  parts of the repository that meet on the wire. One is the capture tool of \<open>stand/internal/wire\<close>, which parses
  TLS, DTLS and QUIC hellos of browsers and computes their fingerprints. The other is the QUIC stack under
  \<open>quic\<close>, which writes such hellos, and its frames, headers, crypto streams, flow control and acknowledgements.
  This theory imports all others and proves what spans both parts.

  \<^bold>\<open>Conventions.\<close> Every operation is a top-level function named after the code's, with a prefix where Go
  overloads by receiver (\<open>stream_AddBytesSent\<close>, \<open>AckFrame_Append\<close>). A struct is a record whose fields carry a
  short prefix. State is passed and returned. An operation that can fail returns a sum with the error on the
  left. In the hello and QUIC parsers of the capture tool, the varint and header parsers, the SNI search, the
  frame sorter, the crypto streams, the writers of frames and chaos protection, an index or slice goes through
  \<open>at\<close> and \<open>slice\<close>, which fail out of range with an error of their own kind, as do nil pointers and explicit
  panics; for them the absence of panics is a theorem. It is not modelled where the bound is evident from the
  line before. The frame parsers drop from their input what a varint or a frame has just consumed, and take a
  number of bytes they have just compared with the length. The loops over the ranges of the packet history and
  the binary search in those of an ACK frame index with their own counter. The swap of \<open>rand.Shuffle\<close>, the two
  cuts of a crypto stream and the cut of a SHA-256 sum to twelve digits are of fixed size. Loops are recursions
  on what is left to do, or on an index that counts up or down. Bytes and integers whose wrap-around matters are
  words; packet numbers, stream offsets and durations are \<open>int\<close>, with the bounds of \<open>int64\<close> as hypotheses where
  they are written to the wire. \<open>Go_Prelude\<close> holds the error type, checked indexing, big-endian integers and the
  parts of \<open>strings\<close>, \<open>strconv\<close> and \<open>hex\<close> that the code uses; \<open>Go_Rand\<close> models \<open>math/rand\<close> as a stream of
  numbers, so that a statement about all streams covers every outcome.

  \<^bold>\<open>Capture tool.\<close>
  \<^item> \<open>Wire_Reader\<close>, \<open>Wire_Hello\<close>: the byte reader and the hello parsers of \<open>clienthello.go\<close>. \<open>Wire_Hello_Spec\<close>
    shows that they never panic, read back every field of a well-formed hello with the contents of the known
    extensions (\<open>ext_spec\<close>, \<open>hello_of\<close>) and the offsets, and accept a cut hello.
  \<^item> \<open>Wire_Fingerprint\<close>: \<open>ja3.go\<close> and \<open>ja4.go\<close>. When fingerprints agree, when JA4 panics, and that a parsed hello
    reaches this.
  \<^item> \<open>Wire_Quic\<close>: \<open>quicv1.go\<close>. No datagram causes a panic, whatever it decrypts to, and CRYPTO chunks give the
    longest covered prefix of the stream. HKDF, AES and GCM are parameters.

  \<^bold>\<open>QUIC frames.\<close>
  \<^item> \<open>Quic_Varint\<close>: \<open>quicvarint/varint.go\<close> and the reader of the capture tool, which agree; encoding and decoding
    are inverse.
  \<^item> \<open>Quic_Frames\<close>, \<open>Quic_Control_Frames\<close>, \<open>Quic_Stream_Frames\<close>, \<open>Quic_Ack_Frame\<close>: the frames of \<open>internal/wire\<close>.
    The locale \<open>frame_codec\<close> states what a frame type promises (length announced is length written, parsing
    reads back) and is interpreted for each type.
  \<^item> \<open>Quic_Frame_Parser\<close>, \<open>Quic_Conn_Frames\<close>: \<open>frame_parser.go\<close> and \<open>handleFrames\<close> of \<open>connection.go\<close>, which
    implements a loop over frames instead of bytes. The handlers of the frames are a parameter.
  \<^item> \<open>Quic_Chaos\<close>: \<open>chaos_protector.go\<close> and \<open>appendPacketPayload\<close>. No byte of the crypto stream is lost and the
    size is as announced.
  \<^item> \<open>Quic_Packet_Number\<close>, \<open>Quic_Header\<close>: packet numbers and long and short headers; round trips and no panics.

  \<^bold>\<open>QUIC streams.\<close>
  \<^item> \<open>Quic_Frame_Sorter\<close>, \<open>Quic_Frame_Sorter_Push\<close>, \<open>Quic_Frame_Sorter_Spec\<close>: \<open>frame_sorter.go\<close>. The invariant
    ties gaps and queue to the set of received bytes; every order and overlap of frames delivers exactly the
    stream. A frame that leaves too many gaps is refused, and what the refused call has changed is stated.
  \<^item> \<open>Quic_Sni\<close>, \<open>Quic_Crypto_Stream\<close>, \<open>Quic_Crypto_Send\<close>, \<open>Quic_Crypto_Spec\<close>: \<open>sni.go\<close>, \<open>crypto_stream.go\<close> and
    its manager. A scrambled ClientHello is sent completely and the peer puts it together; an empty server name
    blocks the stream.
  \<^item> \<open>Quic_Flow_Control\<close>: \<open>internal/flowcontrol\<close>. \<open>Quic_Flow_Recv\<close> runs a receiver with any number of streams and
    bounds its buffers; \<open>Quic_Flow_Net\<close> adds a sender and a network that loses, reorders and repeats. What was
    sent stays in a set of messages, so every delivery order is a run. A sender within its windows is never
    refused and the connection does not stall.
  \<^item> \<open>Quic_Packet_History\<close>, \<open>Quic_Received_Packets\<close>, \<open>Quic_Ack_Trackers\<close>, \<open>Quic_Ack_Spec\<close>: the received packets
    of \<open>internal/ackhandler\<close>. The ranges implement a set of packet numbers; ACK frames acknowledge received
    packets only and are not forgotten. Two flaws are proved: a dropped range counts as new again, and the alarm
    of a decimated connection that is polled for ACKs (\<open>drive\<close>) moves with every packet.

  \<^bold>\<open>Bounds and fuel.\<close> Two loops have no structural bound and are given fuel: \<open>Peek\<close> of the frame sorter runs
  with one step more than the bytes asked for, and each of its steps consumes an entry that is not empty, so
  that the fuel suffices; reading all data of a crypto stream runs with more steps than the stream has bytes.
  All other recursions terminate by a measure. Hypotheses with \<open>2 ^ 62\<close> are the largest varint, which is also
  the limit on packet numbers and offsets in QUIC. \<open>handler_reach\<close> counts packets only to bound the ECN counters
  by it. The products with \<open>float64\<close> constants in the flow controllers are exact for windows below \<open>2 ^ 51\<close>
  bytes and are written as integer arithmetic; the estimate of the auto-tuning epoch is a parameter and may be
  anything.

  \<^bold>\<open>Not modelled.\<close> The run loop, sockets, timers and locks of the QUIC connection, its streams above the frame
  sorter, loss detection and congestion control (concurrency and floating-point numbers); the TLS handshake and
  packet protection (the standard library and uTLS); transport parameters, HTTP/3 and QPACK; logging; the
  vendored HTTP/2, WebSocket, DTLS, ICE and WebRTC stacks; the header and profile tables of the client, whose
  measure is a captured browser; the command lines and the remaining readers of the capture tool.
\<close>

section \<open>The writer of the client against the reader of the capture tool\<close>

text \<open>C2: What chaos protection scatters, the capture tool puts together again. Let the CRYPTO frames of an
  Initial payload be pieces of a ClientHello \<open>s\<close> of at most 65536 bytes that cover it, with no frame of another
  type than PING. Whether or not chaos protection is on, and for every outcome of the random source, the bytes
  that \<open>appendPacketPayload\<close> writes go through \<open>quicCryptoFrames\<close> and \<open>AssembleCrypto\<close> back to exactly \<open>s\<close>.\<close>

theorem chaos_payload_reassembles:
  assumes "payload_ok (piece s) pl" and "pl_ack pl = None" and "0 \<le> paddingLen"
    and "pl_length pl + paddingLen < 2 ^ 62" and "length s \<le> quicMaxCryptoLen"
    and "filter is_other (map frame_entry (payload_frames pl)) = []"
    and "\<forall>i<length s. int i \<in> fst ` set (concat (map (entry_cells \<circ> frame_entry) (payload_frames pl)))"
  shows "\<exists>out rs'. appendPacketPayload raw pl paddingLen chaos rs = Inr (raw @ out, rs')
    \<and> rbind (quicCryptoFrames out) AssembleCrypto = Inr s"
proof -
  have ok: "piece s f \<Longrightarrow> crypto_ok f" for f using piece_ok assms(5) by blast
  obtain es w rs' where bal: "balanced (piece s) (map frame_entry (payload_frames pl)) paddingLen es 0"
    and w: "\<forall>raw. append_all entry_Append es raw = Inr (raw @ w)"
    and out: "appendPacketPayload raw pl paddingLen chaos rs = Inr (raw @ w, rs')"
    using appendPacketPayload_packed [OF splittable_piece ok assms(1,3,4), of raw chaos rs] assms(2)
    unfolding packed_def by auto
  let ?cs = "concat (map entry_chunks es)"
  have oks: "list_all (entry_ok crypto_ok) es" "list_all (entry_ok (piece s)) es"
    using balanced_source [OF bal] ok by (auto intro: list_all_entry_mono)
  have of_s: "\<forall>c\<in>set ?cs. chunk_of s c"
    using oks(2) assms(5) by (auto simp: list_all_iff intro: entry_chunks_of)
  have "\<forall>c\<in>set ?cs. length (ch_Data c) \<le> quicMaxCryptoLen"
  proof
    fix c assume "c \<in> set ?cs"
    then have "chunk_of s c" by (rule bspec [OF of_s])
    then show "length (ch_Data c) \<le> quicMaxCryptoLen" using assms(5) by (simp add: chunk_of_def chunk_end_def)
  qed
  moreover have "mset (filter is_other es) = {#}"
    using bal assms(6) by (simp add: balanced_def same_content_def)
  ultimately have "quicCryptoFrames w = Inr ?cs"
    using entries_encoding [OF oks(1)] w by (metis append_Nil mset_zero_iff quicCryptoFrames_reads sum.inject(2))
  moreover have "covered ?cs i \<longleftrightarrow> i < length s" for i
  proof
    show "i < length s" if "covered ?cs i"
      using that of_s by (fastforce simp: covered_def chunk_of_def)
    have "set (concat (map entry_cells es)) = set (concat (map (entry_cells \<circ> frame_entry) (payload_frames pl)))"
    proof (rule mset_eq_setD)
      show "mset (concat (map entry_cells es)) = mset (concat (map (entry_cells \<circ> frame_entry) (payload_frames pl)))"
        using bal by (simp add: balanced_def same_content_def)
    qed
    then show "covered ?cs i" if "i < length s"
      using assms(7) that covered_entries [OF oks(1)] by simp
  qed
  moreover have "\<exists>n\<le>length s. AssembleCrypto ?cs = Inr (take n s) \<and> (\<forall>i<n. covered ?cs i) \<and> \<not> covered ?cs n"
    by (rule AssembleCrypto_takes) (use of_s assms(5) in auto)
  ultimately have "rbind (quicCryptoFrames w) AssembleCrypto = Inr s" by auto
  then show ?thesis using out by blast
qed

theorem chaos_payload_reassembles_witness:
  "\<exists>out rs'. appendPacketPayload [9] sample_payload 40 True [3, 0, 2, 5, 7] = Inr ([9] @ out, rs')
    \<and> rbind (quicCryptoFrames out) AssembleCrypto = Inr [1, 2, 3, 4, 5]"
proof (rule chaos_payload_reassembles)
  show "payload_ok (piece [1, 2, 3, 4, 5]) sample_payload"
    by (simp add: payload_ok_def sample_payload_def payload_frames_def piece_def frame_size_def crypto_size_def
        varint_size_def)
  show "\<forall>i<length [1, 2, 3, 4, 5 :: byte].
      int i \<in> fst ` set (concat (map (entry_cells \<circ> frame_entry) (payload_frames sample_payload)))"
    by (auto simp: sample_payload_def payload_frames_def cells_def image_image)
qed (simp_all add: sample_payload_def payload_frames_def)

end
